(* ===== verification/Prelude.thy ===== *)
theory Prelude
  imports Main "HOL-Library.Word"
begin

text \<open>
  Shared vocabulary of the development: Go's byte slices, strings, fixed-width
  integers, errors, panics and instants, and the generic lemmas on digit
  expansions and fixed-width layouts that the components use.

  \<^item> \<open>[]byte\<close> and \<open>[n]byte\<close> are lists of \<open>8 word\<close>; the length of an
    array is a well-formedness fact (\<open>b32\<close>), not part of the type.
  \<^item> A Go \<open>string\<close> is a HOL \<open>string\<close>: both are sequences of 8-bit units.
  \<^item> \<open>uint64\<close> and \<open>int64\<close> are \<open>64 word\<close>, read with \<open>unat\<close> or \<open>sint\<close>.
  \<^item> \<open>(T, error)\<close> is \<open>goerror + 'a\<close> with \<open>Inl\<close> for a non-nil error; a bare
    \<open>error\<close> result is \<open>goerror option\<close> with \<open>None\<close> for nil.
  \<^item> A call that may panic returns an \<open>outcome\<close>.
\<close>

unbundle bit_operations_syntax

named_theorems layout_simps "facts about fixed-width byte layouts"
named_theorems go_simps "unfolding rules of the Go vocabulary"

section \<open>Bytes, strings, arrays\<close>

type_synonym byte = "8 word"
type_synonym bytes = "byte list"
type_synonym u32 = "32 word"
type_synonym u64 = "64 word"
type_synonym i64 = "64 word"

abbreviation b32 :: "bytes \<Rightarrow> bool" where
  "b32 xs \<equiv> length xs = 32"

definition zero32 :: bytes where
  "zero32 = replicate 32 0"

lemma length_zero32 [simp]: "length zero32 = 32"
  by (simp add: zero32_def)

text \<open>\<open>[]byte(s)\<close> and \<open>string(b)\<close>.\<close>

definition bytes_of :: "string \<Rightarrow> bytes" where
  "bytes_of s = map (\<lambda>c. word_of_nat (of_char c)) s"

definition string_of :: "bytes \<Rightarrow> string" where
  "string_of bs = map (\<lambda>b. char_of (unat b)) bs"

lemma length_bytes_of [simp]: "length (bytes_of s) = length s"
  by (simp add: bytes_of_def)

lemma length_string_of [simp]: "length (string_of s) = length s"
  by (simp add: string_of_def)

lemma bytes_of_Nil_iff [simp]: "bytes_of s = [] \<longleftrightarrow> s = []"
  by (simp add: bytes_of_def)

lemma unat_of_char [simp]: "unat (word_of_nat (of_char c) :: byte) = of_char c"
  by (simp add: unat_of_nat take_bit_eq_mod)

lemma unat_byte_less [simp]: "unat (b :: byte) < 256"
  using unsigned_less [of b, where ?'a = nat] by simp

lemma string_of_bytes_of [simp]: "string_of (bytes_of s) = s"
  by (simp add: bytes_of_def string_of_def comp_def)

lemma bytes_of_string_of [simp]: "bytes_of (string_of bs) = bs"
  by (simp add: bytes_of_def string_of_def comp_def map_idI)

lemma bytes_of_eq_iff [simp]: "bytes_of s = bytes_of t \<longleftrightarrow> s = t"
  by (metis string_of_bytes_of)

lemma string_of_eq_iff [simp]: "string_of s = string_of t \<longleftrightarrow> s = t"
  by (metis bytes_of_string_of)

section \<open>Digit expansions\<close>

text \<open>
  \<open>digits b n\<close> is the big-endian expansion of \<open>n\<close> in base \<open>b\<close> with no leading
  zero digit (empty for zero); \<open>undigits\<close> is Horner's rule. Base 256 is
  \<open>big.Int.Bytes\<close> / \<open>SetBytes\<close>, base 58 is the address encoding, base 10 the
  decimal numerals.
\<close>

function digits :: "nat \<Rightarrow> nat \<Rightarrow> nat list" where
  "digits b n = (if b < 2 \<or> n = 0 then [] else digits b (n div b) @ [n mod b])"
  by pat_completeness auto
termination
  by (relation "measure snd") (auto intro: div_less_dividend)

declare digits.simps [simp del]

definition undigits :: "nat \<Rightarrow> nat list \<Rightarrow> nat" where
  "undigits b ds = foldl (\<lambda>a d. a * b + d) 0 ds"

lemma digits_0 [simp]: "digits b 0 = []"
  by (simp add: digits.simps)

lemma digits_step: "2 \<le> b \<Longrightarrow> 0 < n \<Longrightarrow> digits b n = digits b (n div b) @ [n mod b]"
  by (subst digits.simps) simp

lemma undigits_Nil [simp]: "undigits b [] = 0"
  by (simp add: undigits_def)

lemma undigits_snoc [simp]: "undigits b (ds @ [d]) = undigits b ds * b + d"
  by (simp add: undigits_def)

lemma foldl_horner: "foldl (\<lambda>a d. a * b + d) a ds = a * b ^ length ds + undigits b ds"
  for a b :: nat
  by (induction ds rule: rev_induct) (simp_all add: algebra_simps)

lemma undigits_append: "undigits b (xs @ ys) = undigits b xs * b ^ length ys + undigits b ys"
  using foldl_horner [of b "undigits b xs" ys] by (simp add: undigits_def)

lemma undigits_Cons: "undigits b (d # ds) = d * b ^ length ds + undigits b ds"
  using undigits_append [of b "[d]" ds] by (simp add: undigits_def)

lemma undigits_replicate_0 [simp]: "undigits b (replicate k 0 @ ds) = undigits b ds"
  by (induction k) (simp_all add: undigits_Cons)

lemma undigits_digits [simp]: "2 \<le> b \<Longrightarrow> undigits b (digits b n) = n"
proof (induction b n rule: digits.induct)
  case (1 b n)
  then show ?case
    by (cases "n = 0") (simp_all add: digits_step)
qed

lemma digits_lt: "d \<in> set (digits b n) \<Longrightarrow> d < b"
proof (induction b n rule: digits.induct)
  case (1 b n)
  then show ?case
    by (subst (asm) (2) digits.simps) (auto split: if_splits)
qed

lemma hd_digits_pos: "2 \<le> b \<Longrightarrow> 0 < n \<Longrightarrow> digits b n \<noteq> [] \<and> 0 < hd (digits b n)"
proof (induction b n rule: digits.induct)
  case (1 b n)
  show ?case
  proof (cases "n div b = 0")
    case True
    with "1.prems" show ?thesis
      by (simp add: digits_step div_eq_0_iff)
  next
    case False
    with 1 show ?thesis
      by (simp add: digits_step [of b n])
  qed
qed

lemma undigits_lt: "\<forall>d \<in> set ds. d < b \<Longrightarrow> undigits b ds < b ^ length ds"
proof (induction ds rule: rev_induct)
  case Nil
  then show ?case by simp
next
  case (snoc d ds)
  then have "undigits b ds + 1 \<le> b ^ length ds" and "d < b"
    by simp_all
  then have "(undigits b ds + 1) * b \<le> b ^ length ds * b"
    by (intro mult_right_mono) simp_all
  with \<open>d < b\<close> show ?case
    by (simp add: algebra_simps)
qed

lemma length_digits_le: "2 \<le> b \<Longrightarrow> n < b ^ k \<Longrightarrow> length (digits b n) \<le> k"
proof (induction k arbitrary: n)
  case 0
  then show ?case by simp
next
  case (Suc k)
  show ?case
  proof (cases "n = 0")
    case False
    with Suc.prems have "n div b < b ^ k"
      by (simp add: less_mult_imp_div_less mult.commute)
    with Suc.IH Suc.prems False show ?thesis
      by (simp add: digits_step)
  qed simp
qed

text \<open>Expanding the value of a digit string gives it back without its leading zeros.\<close>

lemma digits_undigits:
  "2 \<le> b \<Longrightarrow> \<forall>d \<in> set ds. d < b \<Longrightarrow> digits b (undigits b ds) = dropWhile (\<lambda>d. d = 0) ds"
proof (induction ds rule: rev_induct)
  case Nil
  then show ?case by simp
next
  case (snoc d ds)
  then have IH: "digits b (undigits b ds) = dropWhile (\<lambda>d. d = 0) ds" and d: "d < b"
    by auto
  have div: "(undigits b ds * b + d) div b = undigits b ds" and mod: "(undigits b ds * b + d) mod b = d"
    using d snoc.prems(1) by simp_all
  show ?case
  proof (cases "undigits b ds * b + d = 0")
    case True
    with snoc.prems have "undigits b ds = 0" and "d = 0"
      by auto
    moreover with IH have "dropWhile (\<lambda>d. d = 0) ds = []"
      by simp
    ultimately show ?thesis
      by (simp add: dropWhile_append dropWhile_eq_Nil_conv)
  next
    case False
    then have step: "digits b (undigits b ds * b + d) = dropWhile (\<lambda>d. d = 0) ds @ [d]"
      using snoc.prems(1) IH div mod by (simp add: digits_step)
    show ?thesis
    proof (cases "dropWhile (\<lambda>d. d = 0) ds = []")
      case True
      with IH have "undigits b ds = 0"
        using snoc.prems(1) undigits_digits [of b "undigits b ds"] by simp
      with False step True show ?thesis
        by (simp add: dropWhile_append dropWhile_eq_Nil_conv)
    next
      case nonempty: False
      with step show ?thesis
        by (auto simp: dropWhile_append dropWhile_eq_Nil_conv)
    qed
  qed
qed

lemma takeWhile_dropWhile_zeros:
  "replicate (length (takeWhile (\<lambda>x. x = z) xs)) z @ dropWhile (\<lambda>x. x = z) xs = xs"
  by (induction xs) auto

section \<open>Fixed-width little-endian integers\<close>

text \<open>\<open>binary.LittleEndian.PutUint64\<close>.\<close>

definition le64 :: "u64 \<Rightarrow> bytes" where
  "le64 w = map (\<lambda>i. ucast (drop_bit (8 * i) w)) [0..<8]"

lemma length_le64 [simp]: "length (le64 w) = 8"
  by (simp add: le64_def)

lemma bit_le64: "k < 64 \<Longrightarrow> bit w k = bit (le64 w ! (k div 8)) (k mod 8)"
  by (simp add: le64_def bit_ucast_iff bit_drop_bit_eq less_mult_imp_div_less)

lemma le64_eq_iff [simp]: "le64 v = le64 w \<longleftrightarrow> v = w"
proof
  assume eq: "le64 v = le64 w"
  show "v = w"
  proof (rule bit_word_eqI)
    fix k assume "k < LENGTH(64)"
    then show "bit v k = bit w k"
      using bit_le64 [of k v] bit_le64 [of k w] eq by simp
  qed
qed simp

text \<open>Two layouts of the same field widths are equal exactly when their fields are.\<close>

lemma append_eq_same_length [layout_simps]:
  "length xs = length ys \<Longrightarrow> xs @ us = ys @ vs \<longleftrightarrow> xs = ys \<and> us = vs"
  by (rule append_eq_append_conv) simp

section \<open>Errors and panics\<close>

text \<open>
  An \<open>errors.New\<close> value is compared by identity: the package-level sentinels have
  one constructor each, every other \<open>errors.New\<close> is \<open>NewError\<close>, which is no
  sentinel whatever its text. \<open>fmt.Errorf\<close> with \<open>%w\<close> is \<open>WrapError\<close> with the
  wrapped errors.
\<close>

datatype sentinel =
    ErrUnknownScheme | ErrUnknownNetwork | ErrAmountNegative | ErrAmountOverflow
  | ErrBadAmount | ErrBadPubkey | errBadBase58 | ErrReplay | errUnavailable
  | errIndexRange | ErrFormat | ErrRootMismatch

datatype goerror =
    Sentinel sentinel
  | NewError string
  | WrapError string "goerror list"

fun sentinel_text :: "sentinel \<Rightarrow> string" where
  "sentinel_text ErrUnknownScheme = ''gate: scheme not in allowlist''"
| "sentinel_text ErrUnknownNetwork = ''gate: network not in allowlist''"
| "sentinel_text ErrAmountNegative = ''gate: amount is negative''"
| "sentinel_text ErrAmountOverflow = ''gate: amount exceeds u128''"
| "sentinel_text ErrBadAmount = ''gate: amount is not a base-10 integer''"
| "sentinel_text ErrBadPubkey = ''gate: pubkey is not 32 bytes''"
| "sentinel_text errBadBase58 = ''gate: invalid base58 string''"
| "sentinel_text ErrReplay = ''gate: nonce already spent (replay)''"
| "sentinel_text errUnavailable = ''unavailable''"
| "sentinel_text errIndexRange = ''translog: leaf index out of range''"
| "sentinel_text ErrFormat = ''translog: unrecognized log format''"
| "sentinel_text ErrRootMismatch =
     ''translog: merkle root does not match the records in the file''"

text \<open>\<open>err.Error()\<close> and \<open>errors.Is(err, sentinel)\<close>.\<close>

fun Error :: "goerror \<Rightarrow> string" where
  "Error (Sentinel s) = sentinel_text s"
| "Error (NewError m) = m"
| "Error (WrapError m es) = m"

fun errors_Is :: "goerror \<Rightarrow> sentinel \<Rightarrow> bool" where
  "errors_Is (Sentinel s) t = (s = t)"
| "errors_Is (NewError m) t = False"
| "errors_Is (WrapError m es) t = list_ex (\<lambda>e. errors_Is e t) es"

text \<open>A call that may panic; the state reached is returned beside it.\<close>

datatype 'a outcome = Return 'a | Panic string

section \<open>Instants\<close>

text \<open>
  \<open>time.Time\<close> without its location and monotonic reading: the signed 64-bit count
  of seconds since year 1 that the library keeps, and the nanoseconds within the
  second. \<open>time.Unix\<close> and \<open>Unix()\<close> shift by the seconds between year 1 and 1970
  with two's complement wrap-around, as the library's \<open>int64\<close> arithmetic does.
\<close>

record time =
  t_sec :: i64
  t_nsec :: nat

definition unixToInternal :: i64 where
  "unixToInternal = 62135596800"

definition time_Unix :: "i64 \<Rightarrow> time" where
  "time_Unix s = \<lparr>t_sec = s + unixToInternal, t_nsec = 0\<rparr>"

definition Unix :: "time \<Rightarrow> i64" where
  "Unix t = t_sec t - unixToInternal"

definition IsZero :: "time \<Rightarrow> bool" where
  "IsZero t \<longleftrightarrow> t_sec t = 0 \<and> t_nsec t = 0"

definition After :: "time \<Rightarrow> time \<Rightarrow> bool" where
  "After t u \<longleftrightarrow> sint (t_sec u) < sint (t_sec t)
     \<or> t_sec t = t_sec u \<and> t_nsec u < t_nsec t"

lemma Unix_time_Unix [simp]: "Unix (time_Unix s) = s"
  by (simp add: Unix_def time_Unix_def)

lemmas time_defs [go_simps] =
  time_Unix_def Unix_def IsZero_def After_def unixToInternal_def

section \<open>Effectful calls\<close>

text \<open>A call that reads and changes a state and may panic; \<open>and_then\<close> sequences two
  calls, a panic ending the sequence.\<close>

type_synonym ('s, 'a) proc = "'s \<Rightarrow> 'a outcome \<times> 's"

definition ret :: "'a \<Rightarrow> ('s, 'a) proc" where
  "ret x s = (Return x, s)"

definition panic :: "string \<Rightarrow> ('s, 'a) proc" where
  "panic m s = (Panic m, s)"

definition and_then :: "('s, 'a) proc \<Rightarrow> ('a \<Rightarrow> ('s, 'b) proc) \<Rightarrow> ('s, 'b) proc" where
  "and_then p k s = (case p s of (Return x, s') \<Rightarrow> k x s' | (Panic m, s') \<Rightarrow> (Panic m, s'))"

lemma ret_eq [simp]: "ret x s = (Return x, s)"
  by (simp add: ret_def)

lemma panic_eq [simp]: "panic m s = (Panic m, s)"
  by (simp add: panic_def)

lemma and_then_Return [go_simps]: "p s = (Return x, s') \<Longrightarrow> and_then p k s = k x s'"
  by (simp add: and_then_def)

lemma and_then_Panic [go_simps]: "p s = (Panic m, s') \<Longrightarrow> and_then p k s = (Panic m, s')"
  by (simp add: and_then_def)

text \<open>\<open>runtime error: invalid memory address or nil pointer dereference\<close>.\<close>

definition nil_dereference :: string where
  "nil_dereference = ''runtime error: invalid memory address or nil pointer dereference''"

section \<open>Sequences of atomic steps\<close>

text \<open>Running a list of calls one after the other. Calls that hold a mutex for their
  whole duration execute concurrently as some such sequence, the lock order.\<close>

fun run_seq :: "('c \<Rightarrow> 's \<Rightarrow> 'r \<times> 's) \<Rightarrow> 'c list \<Rightarrow> 's \<Rightarrow> 'r list \<times> 's" where
  "run_seq step [] s = ([], s)"
| "run_seq step (c # cs) s =
     (case step c s of (r, s1) \<Rightarrow> (case run_seq step cs s1 of (rs, s2) \<Rightarrow> (r # rs, s2)))"

lemma run_seq_snd_Cons: "snd (run_seq step (c # cs) s) = snd (run_seq step cs (snd (step c s)))"
  by (simp split: prod.splits)

lemma run_seq_append:
  "snd (run_seq step (cs @ ds) s) = snd (run_seq step ds (snd (run_seq step cs s)))"
  by (induction cs arbitrary: s) (simp_all split: prod.splits, metis snd_conv)

lemma run_seq_invariant:
  assumes "\<And>c s. c \<in> set cs \<Longrightarrow> P s \<Longrightarrow> P (snd (step c s))" and "P s"
  shows "P (snd (run_seq step cs s))"
  using assms by (induction cs arbitrary: s) (simp_all add: run_seq_snd_Cons del: run_seq.simps(2))

end
