(* ===== verification/GoNum.thy ===== *)
theory GoNum
  imports Prelude
begin

text \<open>
  The numeral conversions of Go's standard library that the source calls:
  \<open>big.Int\<close>'s \<open>Bytes\<close>, \<open>SetBytes\<close>, \<open>BitLen\<close> and base-10 \<open>SetString\<close>;
  \<open>strconv.ParseUint(s, 10, 64)\<close> and \<open>strconv.Atoi\<close>; and the \<open>%d\<close> rendering of
  an unsigned integer. With base 10 given, none of the parsers accepts a prefix or
  an underscore; only \<open>SetString\<close> and \<open>Atoi\<close> accept a sign.
\<close>

section \<open>Magnitudes as bytes\<close>

definition big_Bytes :: "nat \<Rightarrow> bytes" where
  "big_Bytes n = map word_of_nat (digits 256 n)"

definition big_SetBytes :: "bytes \<Rightarrow> nat" where
  "big_SetBytes bs = undigits 256 (map unat bs)"

fun big_BitLen :: "nat \<Rightarrow> nat" where
  "big_BitLen n = (if n = 0 then 0 else Suc (big_BitLen (n div 2)))"

declare big_BitLen.simps [simp del]

lemma unat_word_of_nat_byte: "n < 256 \<Longrightarrow> unat (word_of_nat n :: byte) = n"
  by (simp add: unat_of_nat take_bit_eq_mod)

lemma map_unat_big_Bytes [simp]: "map unat (big_Bytes n) = digits 256 n"
  by (simp add: big_Bytes_def map_idI unat_word_of_nat_byte digits_lt)

lemma length_big_Bytes: "length (big_Bytes n) = length (digits 256 n)"
  by (simp add: big_Bytes_def)

lemma big_SetBytes_Bytes [simp]: "big_SetBytes (big_Bytes n) = n"
  by (simp add: big_SetBytes_def)

lemma big_Bytes_SetBytes: "big_Bytes (big_SetBytes bs) = dropWhile (\<lambda>b. b = 0) bs"
proof -
  have "digits 256 (big_SetBytes bs) = dropWhile (\<lambda>d. d = 0) (map unat bs)"
    by (simp add: big_SetBytes_def digits_undigits)
  also have "\<dots> = map unat (dropWhile (\<lambda>b. b = 0) bs)"
    by (simp add: dropWhile_map comp_def unat_eq_zero)
  finally show ?thesis
    by (simp add: big_Bytes_def comp_def)
qed

lemma big_Bytes_0 [simp]: "big_Bytes 0 = []"
  by (simp add: big_Bytes_def)

lemma hd_big_Bytes: "0 < n \<Longrightarrow> big_Bytes n \<noteq> [] \<and> hd (big_Bytes n) \<noteq> 0"
proof -
  assume "0 < n"
  then have "digits 256 n \<noteq> []" and pos: "0 < hd (digits 256 n)"
    using hd_digits_pos [of 256 n] by simp_all
  then have lt: "hd (digits 256 n) < 256"
    using digits_lt [of "hd (digits 256 n)" 256 n] by simp
  have "unat (hd (big_Bytes n)) = hd (digits 256 n)"
    using \<open>digits 256 n \<noteq> []\<close> lt by (simp add: big_Bytes_def hd_map unat_word_of_nat_byte)
  with pos have "hd (big_Bytes n) \<noteq> 0"
    by auto
  with \<open>digits 256 n \<noteq> []\<close> show ?thesis
    by (simp add: big_Bytes_def)
qed

lemma big_BitLen_0 [simp]: "big_BitLen 0 = 0"
  by (simp add: big_BitLen.simps)

lemma big_BitLen_le_iff: "big_BitLen n \<le> k \<longleftrightarrow> n < 2 ^ k"
proof (induction k arbitrary: n)
  case 0
  show ?case by (subst big_BitLen.simps) simp
next
  case (Suc k)
  show ?case
  proof (cases "n = 0")
    case False
    then have "big_BitLen n \<le> Suc k \<longleftrightarrow> big_BitLen (n div 2) \<le> k"
      by (subst big_BitLen.simps) simp
    also have "\<dots> \<longleftrightarrow> n < 2 ^ Suc k"
      by (simp add: Suc.IH less_mult_imp_div_less) auto
    finally show ?thesis .
  qed simp
qed

section \<open>Decimal numerals\<close>

definition is_dec :: "char \<Rightarrow> bool" where
  "is_dec c \<longleftrightarrow> (48 :: nat) \<le> of_char c \<and> (of_char c :: nat) \<le> 57"

definition dec_val :: "char \<Rightarrow> nat" where
  "dec_val c = of_char c - 48"

definition dec_char :: "nat \<Rightarrow> char" where
  "dec_char d = char_of (d + 48)"

definition dec_digits :: "string \<Rightarrow> nat option" where
  "dec_digits s = (if s \<noteq> [] \<and> list_all is_dec s
     then Some (undigits 10 (map dec_val s)) else None)"

text \<open>The two's complement range of \<open>int\<close> and \<open>int64\<close>.\<close>

definition in_int64 :: "int \<Rightarrow> bool" where
  "in_int64 i \<longleftrightarrow> - (2 ^ 63) \<le> i \<and> i < 2 ^ 63"

definition signed_digits :: "string \<Rightarrow> int option" where
  "signed_digits s = (case s of
       [] \<Rightarrow> None
     | c # r \<Rightarrow>
         if c = CHR ''-'' then map_option (\<lambda>n. - int n) (dec_digits r)
         else if c = CHR ''+'' then map_option int (dec_digits r)
         else map_option int (dec_digits s))"

definition big_SetString10 :: "string \<Rightarrow> int option" where
  "big_SetString10 s = signed_digits s"

definition strconv_ParseUint64 :: "string \<Rightarrow> u64 option" where
  "strconv_ParseUint64 s = (case dec_digits s of
       None \<Rightarrow> None
     | Some n \<Rightarrow> if n < 2 ^ 64 then Some (word_of_nat n) else None)"

definition strconv_Atoi :: "string \<Rightarrow> int option" where
  "strconv_Atoi s = (case signed_digits s of
       None \<Rightarrow> None
     | Some i \<Rightarrow> if in_int64 i then Some i else None)"

definition show_nat :: "nat \<Rightarrow> string" where
  "show_nat n = (if n = 0 then ''0'' else map dec_char (digits 10 n))"

lemma dec_val_char [simp]: "d < 10 \<Longrightarrow> dec_val (dec_char d) = d"
  by (simp add: dec_val_def dec_char_def)

lemma is_dec_char [simp]: "d < 10 \<Longrightarrow> is_dec (dec_char d)"
  by (simp add: is_dec_def dec_char_def)

lemma not_is_dec_sign [simp]: "\<not> is_dec CHR ''-''" "\<not> is_dec CHR ''+''"
  by (simp_all add: is_dec_def)

lemma dec_digits_show_nat [simp]: "dec_digits (show_nat n) = Some n"
proof (cases "n = 0")
  case True
  then show ?thesis
    by (simp add: show_nat_def dec_digits_def is_dec_def dec_val_def undigits_def)
next
  case False
  then have "digits 10 n \<noteq> []"
    using hd_digits_pos [of 10 n] by simp
  moreover have "map (dec_val \<circ> dec_char) (digits 10 n) = digits 10 n"
    by (intro map_idI) (simp add: digits_lt)
  moreover have "list_all is_dec (map dec_char (digits 10 n))"
    by (auto simp: list_all_iff digits_lt)
  ultimately show ?thesis
    using False by (simp add: show_nat_def dec_digits_def)
qed

text \<open>
  The amount a policy reads with \<open>ParseUint\<close> is the amount the gate binds with
  \<open>SetString\<close>: whatever the former accepts, the latter reads as the same number.
\<close>

lemma ParseUint64_SetString10:
  assumes "strconv_ParseUint64 s = Some v"
  shows "big_SetString10 s = Some (int (unat v))"
proof -
  from assms obtain n where n: "dec_digits s = Some n" "n < 2 ^ 64" "v = word_of_nat n"
    by (auto simp: strconv_ParseUint64_def split: option.splits if_splits)
  then have v: "unat v = n"
    by (simp add: unat_of_nat take_bit_eq_mod)
  from n(1) obtain c r where s: "s = c # r" and "is_dec c"
    by (cases s) (auto simp: dec_digits_def split: if_splits)
  then have "c \<noteq> CHR ''-''" and "c \<noteq> CHR ''+''"
    by auto
  with n(1) s v show ?thesis
    by (simp add: big_SetString10_def signed_digits_def)
qed

end
