(* ===== verification/Encoding.thy ===== *)
theory Encoding
  imports GoNum
begin

text \<open>
  \<open>encoding/hex\<close> and \<open>encoding/base64\<close> as the source uses them: \<open>hex.EncodeToString\<close>,
  \<open>hex.DecodeString\<close>, \<open>base64.StdEncoding\<close> both ways and
  \<open>base64.RawURLEncoding.EncodeToString\<close>. The decoders are the library's: hex accepts
  both cases, base64 skips carriage returns and newlines and ignores the unused low
  bits of a final group.
\<close>

section \<open>Hexadecimal\<close>

definition hex_digits :: string where
  "hex_digits = ''0123456789abcdef''"

definition hex_byte :: "byte \<Rightarrow> string" where
  "hex_byte b = [hex_digits ! (unat b div 16), hex_digits ! (unat b mod 16)]"

definition hex_EncodeToString :: "bytes \<Rightarrow> string" where
  "hex_EncodeToString bs = concat (map hex_byte bs)"

definition hex_value :: "char \<Rightarrow> nat option" where
  "hex_value c =
     (let k = of_char c :: nat
      in if 48 \<le> k \<and> k \<le> 57 then Some (k - 48)
         else if 97 \<le> k \<and> k \<le> 102 then Some (k - 87)
         else if 65 \<le> k \<and> k \<le> 70 then Some (k - 55)
         else None)"

text \<open>The text of an invalid-byte error is given without the rendering of the byte.\<close>

fun hex_DecodeString :: "string \<Rightarrow> goerror + bytes" where
  "hex_DecodeString [] = Inr []"
| "hex_DecodeString [p] =
     (case hex_value p of
        None \<Rightarrow> Inl (NewError ''encoding/hex: invalid byte'')
      | Some a \<Rightarrow> Inl (NewError ''encoding/hex: odd length hex string''))"
| "hex_DecodeString (p # q # s) =
     (case hex_value p of
        None \<Rightarrow> Inl (NewError ''encoding/hex: invalid byte'')
      | Some a \<Rightarrow>
     (case hex_value q of
        None \<Rightarrow> Inl (NewError ''encoding/hex: invalid byte'')
      | Some b \<Rightarrow>
     (case hex_DecodeString s of
        Inl e \<Rightarrow> Inl e
      | Inr bs \<Rightarrow> Inr (word_of_nat (a * 16 + b) # bs))))"

lemma hex_value_digit [simp]: "d < 16 \<Longrightarrow> hex_value (hex_digits ! d) = Some d"
proof -
  have "\<forall>d < 16. hex_value (hex_digits ! d) = Some d"
    by code_simp
  then show "d < 16 \<Longrightarrow> hex_value (hex_digits ! d) = Some d"
    by blast
qed

lemma hex_value_bound: "hex_value c = Some a \<Longrightarrow> a < 16"
  by (auto simp: hex_value_def Let_def split: if_splits)

lemma hex_EncodeToString_simps [simp]:
  "hex_EncodeToString [] = []"
  "hex_EncodeToString (b # bs) = hex_byte b @ hex_EncodeToString bs"
  by (simp_all add: hex_EncodeToString_def)

lemma length_hex_EncodeToString [simp]: "length (hex_EncodeToString bs) = 2 * length bs"
  by (induction bs) (simp_all add: hex_byte_def)

lemma hex_Decode_Encode [simp]: "hex_DecodeString (hex_EncodeToString bs) = Inr bs"
proof (induction bs)
  case (Cons b bs)
  have "unat b div 16 < 16"
    using unat_byte_less [of b] by (simp add: less_mult_imp_div_less)
  with Cons show ?case
    by (simp add: hex_byte_def)
qed simp

lemma hex_EncodeToString_inj [simp]: "hex_EncodeToString a = hex_EncodeToString b \<longleftrightarrow> a = b"
  by (metis hex_Decode_Encode sum.inject(2))

lemma length_hex_DecodeString: "hex_DecodeString s = Inr bs \<Longrightarrow> length s = 2 * length bs"
  by (induction s arbitrary: bs rule: hex_DecodeString.induct)
    (auto split: option.splits sum.splits)

section \<open>Base64\<close>

definition b64_std :: string where
  "b64_std = ''ABCDEFGHIJKLMNOPQRSTUVWXYZabcdefghijklmnopqrstuvwxyz0123456789+/''"

definition b64_url :: string where
  "b64_url = ''ABCDEFGHIJKLMNOPQRSTUVWXYZabcdefghijklmnopqrstuvwxyz0123456789-_''"

text \<open>The encoder over an alphabet, with or without padding.\<close>

fun b64_encode :: "string \<Rightarrow> bool \<Rightarrow> bytes \<Rightarrow> string" where
  "b64_encode al pad [] = []"
| "b64_encode al pad [a] =
     [al ! (unat a div 4), al ! ((unat a mod 4) * 16)] @ (if pad then ''=='' else [])"
| "b64_encode al pad [a, b] =
     [al ! (unat a div 4), al ! ((unat a mod 4) * 16 + unat b div 16), al ! ((unat b mod 16) * 4)]
     @ (if pad then ''='' else [])"
| "b64_encode al pad (a # b # c # s) =
     [al ! (unat a div 4), al ! ((unat a mod 4) * 16 + unat b div 16),
      al ! ((unat b mod 16) * 4 + unat c div 64), al ! (unat c mod 64)]
     @ b64_encode al pad s"

definition base64_StdEncode :: "bytes \<Rightarrow> string" where
  "base64_StdEncode bs = b64_encode b64_std True bs"

definition base64_RawURLEncode :: "bytes \<Rightarrow> string" where
  "base64_RawURLEncode bs = b64_encode b64_url False bs"

text \<open>The standard alphabet's inverse, by character range.\<close>

definition b64_value :: "char \<Rightarrow> nat option" where
  "b64_value c =
     (let k = of_char c :: nat
      in if 65 \<le> k \<and> k \<le> 90 then Some (k - 65)
         else if 97 \<le> k \<and> k \<le> 122 then Some (k - 71)
         else if 48 \<le> k \<and> k \<le> 57 then Some (k + 4)
         else if k = 43 then Some 62
         else if k = 47 then Some 63
         else None)"

fun b64_quanta :: "string \<Rightarrow> bytes option" where
  "b64_quanta [] = Some []"
| "b64_quanta (p # q # r # t # s) =
     (case (b64_value p, b64_value q) of
        (Some x0, Some x1) \<Rightarrow>
          (if r = CHR ''='' then
             (if t = CHR ''='' \<and> s = [] then Some [word_of_nat (x0 * 4 + x1 div 16)] else None)
           else
             (case b64_value r of
                None \<Rightarrow> None
              | Some x2 \<Rightarrow>
                  (if t = CHR ''='' then
                     (if s = [] then Some [word_of_nat (x0 * 4 + x1 div 16),
                                           word_of_nat ((x1 mod 16) * 16 + x2 div 4)]
                      else None)
                   else
                     (case b64_value t of
                        None \<Rightarrow> None
                      | Some x3 \<Rightarrow>
                          map_option (\<lambda>bs. word_of_nat (x0 * 4 + x1 div 16)
                            # word_of_nat ((x1 mod 16) * 16 + x2 div 4)
                            # word_of_nat ((x2 mod 4) * 64 + x3) # bs) (b64_quanta s)))))
      | _ \<Rightarrow> None)"
| "b64_quanta _ = None"

definition base64_StdDecode :: "string \<Rightarrow> bytes option" where
  "base64_StdDecode s = b64_quanta (filter (\<lambda>c. of_char c \<noteq> (10 :: nat) \<and> of_char c \<noteq> (13 :: nat)) s)"

lemma b64_std_table:
  "list_all (\<lambda>(d, c). b64_value c = Some d \<and> c \<noteq> CHR ''=''
     \<and> of_char c \<noteq> (10 :: nat) \<and> of_char c \<noteq> (13 :: nat)) (enumerate 0 b64_std)"
  by (simp add: b64_std_def b64_value_def)

lemma length_b64_std [simp]: "length b64_std = 64"
  by (simp add: b64_std_def)

lemma b64_std_char [simp]:
  assumes "d < 64"
  shows "b64_value (b64_std ! d) = Some d" "b64_std ! d \<noteq> CHR ''=''"
    "of_char (b64_std ! d) \<noteq> (10 :: nat)" "of_char (b64_std ! d) \<noteq> (13 :: nat)"
proof -
  have "(d, b64_std ! d) \<in> set (enumerate 0 b64_std)"
    using assms by (auto simp: in_set_conv_nth nth_enumerate_eq)
  with b64_std_table show "b64_value (b64_std ! d) = Some d" "b64_std ! d \<noteq> CHR ''=''"
    "of_char (b64_std ! d) \<noteq> (10 :: nat)" "of_char (b64_std ! d) \<noteq> (13 :: nat)"
    by (auto simp: list_all_iff)
qed

lemma byte_sextets [simp]:
  "unat (a :: byte) div 4 < 64" "(unat a mod 4) * 16 < 64" "(unat a mod 16) * 4 < 64" "unat a mod 64 < 64"
  "(unat (a :: byte) mod 4) * 16 + unat (b :: byte) div 16 < 64"
  "(unat a mod 16) * 4 + unat b div 64 < 64"
proof -
  have a: "unat a mod 4 < 4" "unat a mod 16 < 16" "unat a div 4 < 64"
    using unat_byte_less [of a] by (simp_all add: less_mult_imp_div_less)
  have b: "unat b div 16 < 16" "unat b div 64 < 4"
    using unat_byte_less [of b] by (simp_all add: less_mult_imp_div_less)
  show "unat a div 4 < 64" "(unat a mod 4) * 16 < 64" "(unat a mod 16) * 4 < 64" "unat a mod 64 < 64"
    "(unat a mod 4) * 16 + unat b div 16 < 64" "(unat a mod 16) * 4 + unat b div 64 < 64"
    using a b by simp_all
qed

text \<open>Regrouping six-bit digits into bytes undoes the encoder's split.\<close>

lemma sextet_carry [simp]:
  "unat (b :: byte) div 16 div 16 = 0" "unat b div 16 mod 16 = unat b div 16"
  "unat b div 64 div 4 = 0" "unat b div 64 mod 4 = unat b div 64"
  using unat_byte_less [of b] by (simp_all add: less_mult_imp_div_less flip: div_mult2_eq)

lemma word_of_nat_divmod:
  "word_of_nat (unat w div k) * word_of_nat k + word_of_nat (unat w mod k) = w"
  by (simp flip: of_nat_mult of_nat_add)

lemmas sextet_bytes = word_of_nat_divmod [of _ "numeral k" for k, simplified]

lemma b64_quanta_encode: "b64_quanta (b64_encode b64_std True bs) = Some bs"
  by (induction b64_std True bs rule: b64_encode.induct) (simp_all add: sextet_bytes)

lemma filter_b64_encode:
  "filter (\<lambda>c. of_char c \<noteq> (10 :: nat) \<and> of_char c \<noteq> (13 :: nat)) (b64_encode b64_std True bs)
     = b64_encode b64_std True bs"
  by (induction b64_std True bs rule: b64_encode.induct) simp_all

lemma base64_Decode_Encode [simp]: "base64_StdDecode (base64_StdEncode bs) = Some bs"
  by (simp add: base64_StdDecode_def base64_StdEncode_def filter_b64_encode b64_quanta_encode)

lemma base64_StdEncode_Nil [simp]: "base64_StdEncode bs = [] \<longleftrightarrow> bs = []"
  by (cases "(b64_std, True, bs)" rule: b64_encode.cases) (auto simp: base64_StdEncode_def)

end
