(* ===== verification/Json.thy ===== *)
theory Json
  imports Encoding
begin

text \<open>
  \<open>encoding/json\<close> as the source uses it: the lexical grammar and the pushdown scanner
  with its nesting limit, the decoding of strings (escapes, surrogate pairs,
  replacement of invalid UTF-8), the compact and the indented printer, and the
  conversions of a decoded value into Go strings and integers. A value is read from
  the front of the input and the unread rest is returned, since
  \<open>Decoder.Decode\<close> stops after the first value while \<open>Unmarshal\<close> insists on the end.
\<close>

datatype json =
    JNull | JBool bool | JNum string | JStr string
  | JArr "json list" | JObj "(string \<times> json) list"

abbreviation code :: "char \<Rightarrow> nat" where
  "code c \<equiv> of_char c"

section \<open>Strings\<close>

definition chars :: "nat list \<Rightarrow> string" where
  "chars ks = map char_of ks"

text \<open>\<open>utf8.EncodeRune\<close> on a code point that is no surrogate.\<close>

definition utf8_rune :: "nat \<Rightarrow> string" where
  "utf8_rune r =
     (if r < 0x80 then chars [r]
      else if r < 0x800 then chars [0xC0 + r div 64, 0x80 + r mod 64]
      else if r < 0x10000 then chars [0xE0 + r div 4096, 0x80 + r div 64 mod 64, 0x80 + r mod 64]
      else chars [0xF0 + r div 262144, 0x80 + r div 4096 mod 64, 0x80 + r div 64 mod 64, 0x80 + r mod 64])"

definition replacement :: string where
  "replacement = utf8_rune 0xFFFD"

definition cont :: "char \<Rightarrow> bool" where
  "cont c \<longleftrightarrow> 0x80 \<le> code c \<and> code c \<le> 0xBF"

text \<open>\<open>utf8.DecodeRune\<close> on a string that starts with a byte above 127: the length of the
  well-formed sequence at the front, or \<open>None\<close> where the library returns
  \<open>RuneError\<close> of width 1.\<close>

definition utf8_width :: "string \<Rightarrow> nat option" where
  "utf8_width s =
     (case s of
        a # b # t \<Rightarrow>
          (if 0xC2 \<le> code a \<and> code a \<le> 0xDF then (if cont b then Some 2 else None)
           else if 0xE0 \<le> code a \<and> code a \<le> 0xEF then
             (case t of
                c # t' \<Rightarrow>
                  (if cont b \<and> cont c \<and> (code a = 0xE0 \<longrightarrow> 0xA0 \<le> code b) \<and> (code a = 0xED \<longrightarrow> code b \<le> 0x9F)
                   then Some 3 else None)
              | [] \<Rightarrow> None)
           else if 0xF0 \<le> code a \<and> code a \<le> 0xF4 then
             (case t of
                c # d # t' \<Rightarrow>
                  (if cont b \<and> cont c \<and> cont d \<and> (code a = 0xF0 \<longrightarrow> 0x90 \<le> code b) \<and> (code a = 0xF4 \<longrightarrow> code b \<le> 0x8F)
                   then Some 4 else None)
              | _ \<Rightarrow> None)
           else None)
      | _ \<Rightarrow> None)"

definition u4 :: "char \<Rightarrow> char \<Rightarrow> char \<Rightarrow> char \<Rightarrow> nat option" where
  "u4 a b c d =
     (case (hex_value a, hex_value b, hex_value c, hex_value d) of
        (Some w, Some x, Some y, Some z) \<Rightarrow> Some (((w * 16 + x) * 16 + y) * 16 + z)
      | _ \<Rightarrow> None)"

definition surrogate :: "nat \<Rightarrow> bool" where
  "surrogate r \<longleftrightarrow> 0xD800 \<le> r \<and> r < 0xE000"

definition utf16_pair :: "nat \<Rightarrow> nat \<Rightarrow> nat option" where
  "utf16_pair r1 r2 =
     (if 0xD800 \<le> r1 \<and> r1 < 0xDC00 \<and> 0xDC00 \<le> r2 \<and> r2 < 0xE000
      then Some ((r1 - 0xD800) * 1024 + (r2 - 0xDC00) + 0x10000) else None)"

definition simple_escape :: "char \<Rightarrow> char option" where
  "simple_escape e =
     (if code e = 0x22 \<or> code e = 0x5C \<or> code e = 0x2F then Some e
      else if e = CHR ''b'' then Some (char_of (8 :: nat))
      else if e = CHR ''f'' then Some (char_of (12 :: nat))
      else if e = CHR ''n'' then Some (char_of (10 :: nat))
      else if e = CHR ''r'' then Some (char_of (13 :: nat))
      else if e = CHR ''t'' then Some (char_of (9 :: nat))
      else None)"

definition glue :: "string \<Rightarrow> (string \<times> string) option \<Rightarrow> (string \<times> string) option" where
  "glue x r = map_option (\<lambda>(y, rest). (x @ y, rest)) r"

text \<open>The rest of a string literal after its opening quote.\<close>

function lex_str :: "string \<Rightarrow> (string \<times> string) option" where
  "lex_str s =
     (case s of
        [] \<Rightarrow> None
      | c # t \<Rightarrow>
          if code c = 0x22 then Some ([], t)
          else if code c = 0x5C then
            (case t of
               [] \<Rightarrow> None
             | e # t1 \<Rightarrow>
                 if e = CHR ''u'' then
                   (case t1 of
                      h1 # h2 # h3 # h4 # t2 \<Rightarrow>
                        (case u4 h1 h2 h3 h4 of
                           None \<Rightarrow> None
                         | Some r \<Rightarrow>
                             if surrogate r then
                               (case t2 of
                                  b # u # g1 # g2 # g3 # g4 # t3 \<Rightarrow>
                                    (if code b = 0x5C \<and> u = CHR ''u'' then
                                       (case Option.bind (u4 g1 g2 g3 g4) (utf16_pair r) of
                                          Some p \<Rightarrow> glue (utf8_rune p) (lex_str t3)
                                        | None \<Rightarrow> glue replacement (lex_str t2))
                                     else glue replacement (lex_str t2))
                                | _ \<Rightarrow> glue replacement (lex_str t2))
                             else glue (utf8_rune r) (lex_str t2))
                    | _ \<Rightarrow> None)
                 else
                   (case simple_escape e of
                      None \<Rightarrow> None
                    | Some x \<Rightarrow> glue [x] (lex_str t1)))
          else if code c < 0x20 then None
          else if code c < 0x80 then glue [c] (lex_str t)
          else
            (case utf8_width s of
               None \<Rightarrow> glue replacement (lex_str t)
             | Some n \<Rightarrow> glue (take n s) (lex_str (drop (n - 1) t))))"
  by pat_completeness auto
termination
  by (relation "measure length") auto

declare lex_str.simps [simp del]

section \<open>Numbers\<close>

definition lex_exp :: "string \<Rightarrow> string \<Rightarrow> (string \<times> string) option" where
  "lex_exp acc s =
     (case s of
        e # t \<Rightarrow>
          (if e = CHR ''e'' \<or> e = CHR ''E'' then
             (let (sg, t1) = (case t of
                  c # t' \<Rightarrow> (if c = CHR ''+'' \<or> c = CHR ''-'' then ([c], t') else ([], t))
                | [] \<Rightarrow> ([], t));
                  ds = takeWhile is_dec t1
              in if ds = [] then None else Some (acc @ [e] @ sg @ ds, dropWhile is_dec t1))
           else Some (acc, s))
      | [] \<Rightarrow> Some (acc, s))"

definition lex_frac :: "string \<Rightarrow> string \<Rightarrow> (string \<times> string) option" where
  "lex_frac acc s =
     (case s of
        c # t \<Rightarrow>
          (if c = CHR ''.'' then
             (let ds = takeWhile is_dec t
              in if ds = [] then None else lex_exp (acc @ [c] @ ds) (dropWhile is_dec t))
           else lex_exp acc s)
      | [] \<Rightarrow> lex_exp acc s)"

definition lex_num :: "string \<Rightarrow> (string \<times> string) option" where
  "lex_num s =
     (let (sg, t) = (case s of
          c # t' \<Rightarrow> (if c = CHR ''-'' then ([c], t') else ([], s))
        | [] \<Rightarrow> ([], s))
      in case t of
           [] \<Rightarrow> None
         | c # t' \<Rightarrow>
             if c = CHR ''0'' then lex_frac (sg @ [c]) t'
             else if is_dec c then lex_frac (sg @ takeWhile is_dec t) (dropWhile is_dec t)
             else None)"

section \<open>Tokens\<close>

datatype token = TLBrace | TRBrace | TLBrack | TRBrack | TColon | TComma | TVal json

definition is_space :: "char \<Rightarrow> bool" where
  "is_space c \<longleftrightarrow> code c = 0x20 \<or> code c = 0x09 \<or> code c = 0x0A \<or> code c = 0x0D"

fun strip_prefix :: "string \<Rightarrow> string \<Rightarrow> string option" where
  "strip_prefix [] s = Some s"
| "strip_prefix (p # ps) [] = None"
| "strip_prefix (p # ps) (c # s) = (if p = c then strip_prefix ps s else None)"

definition lex_token :: "string \<Rightarrow> (token \<times> string) option" where
  "lex_token s =
     (case dropWhile is_space s of
        [] \<Rightarrow> None
      | c # t \<Rightarrow>
          if c = CHR ''{'' then Some (TLBrace, t)
          else if c = CHR ''}'' then Some (TRBrace, t)
          else if c = CHR ''['' then Some (TLBrack, t)
          else if c = CHR '']'' then Some (TRBrack, t)
          else if c = CHR '':'' then Some (TColon, t)
          else if c = CHR '','' then Some (TComma, t)
          else if code c = 0x22 then map_option (\<lambda>(x, r). (TVal (JStr x), r)) (lex_str t)
          else if c = CHR ''t'' then map_option (\<lambda>r. (TVal (JBool True), r)) (strip_prefix ''rue'' t)
          else if c = CHR ''f'' then map_option (\<lambda>r. (TVal (JBool False), r)) (strip_prefix ''alse'' t)
          else if c = CHR ''n'' then map_option (\<lambda>r. (TVal JNull, r)) (strip_prefix ''ull'' t)
          else map_option (\<lambda>(x, r). (TVal (JNum x), r)) (lex_num (c # t)))"

section \<open>Lexing consumes input\<close>

lemma glue_Some_iff: "glue x r = Some (y, rest) \<longleftrightarrow> (\<exists>z. r = Some (z, rest) \<and> y = x @ z)"
  by (auto simp: glue_def)

lemma lex_str_shorter: "lex_str s = Some (x, r) \<Longrightarrow> length r < length s"
proof (induction s arbitrary: x rule: length_induct)
  case (1 s)
  have IH: "length r < length t" if "lex_str t = Some (y, r)" "length t < length s" for t y
    using 1 that by blast
  show ?case
    using "1.prems"
    by (subst (asm) lex_str.simps)
      (auto simp: glue_Some_iff split: list.splits if_splits option.splits dest!: IH)
qed

lemma lex_exp_shorter: "lex_exp acc s = Some (x, r) \<Longrightarrow> length r \<le> length s"
  using length_dropWhile_le [of is_dec]
  by (auto simp: lex_exp_def Let_def split: list.splits if_splits intro: le_SucI order_trans)

lemma lex_frac_shorter: "lex_frac acc s = Some (x, r) \<Longrightarrow> length r \<le> length s"
proof -
  have "length (dropWhile is_dec t) \<le> length t" for t
    by (rule length_dropWhile_le)
  then show "lex_frac acc s = Some (x, r) \<Longrightarrow> length r \<le> length s"
    by (auto simp: lex_frac_def Let_def split: list.splits if_splits dest!: lex_exp_shorter
        intro: le_SucI order_trans)
qed

lemma lex_num_shorter: "lex_num s = Some (x, r) \<Longrightarrow> length r < length s"
proof -
  have drop: "is_dec c \<Longrightarrow> length (dropWhile is_dec (c # t)) < Suc (length t)" for c t
    using length_dropWhile_le [of is_dec t] by simp
  assume "lex_num s = Some (x, r)"
  then show ?thesis
    by (auto simp: lex_num_def Let_def split: list.splits if_splits dest!: lex_frac_shorter)
      (use length_dropWhile_le [of is_dec] in \<open>force intro: le_imp_less_Suc le_SucI order_trans\<close>)+
qed

lemma strip_prefix_shorter: "strip_prefix p s = Some r \<Longrightarrow> length r \<le> length s"
  by (induction p s rule: strip_prefix.induct) (auto split: if_splits)

lemma lex_token_shorter: "lex_token s = Some (t, r) \<Longrightarrow> length r < length s"
proof -
  assume "lex_token s = Some (t, r)"
  moreover have "length (dropWhile is_space s) \<le> length s"
    by (rule length_dropWhile_le)
  ultimately show ?thesis
    by (auto simp: lex_token_def split: list.splits if_splits
        dest!: lex_str_shorter lex_num_shorter strip_prefix_shorter)
qed

section \<open>The pushdown scanner\<close>

datatype frame = FArr "json list" | FObj "(string \<times> json) list" string

datatype phase = PValue | PFirstElem | PFirstKey | PKey | PColon | PEnd

definition maxNestingDepth :: nat where
  "maxNestingDepth = 10000"

text \<open>A finished value is the result, or goes into the innermost open container.\<close>

fun give :: "json \<Rightarrow> frame list \<Rightarrow> json + phase \<times> frame list" where
  "give v [] = Inl v"
| "give v (FArr vs # st) = Inr (PEnd, FArr (vs @ [v]) # st)"
| "give v (FObj kvs k # st) = Inr (PEnd, FObj (kvs @ [(k, v)]) [] # st)"

definition open_frame ::
  "phase \<Rightarrow> frame \<Rightarrow> frame list \<Rightarrow> (json + phase \<times> frame list) option" where
  "open_frame ph f st = (if length st < maxNestingDepth then Some (Inr (ph, f # st)) else None)"

fun value_step :: "frame list \<Rightarrow> token \<Rightarrow> (json + phase \<times> frame list) option" where
  "value_step st (TVal v) = Some (give v st)"
| "value_step st TLBrace = open_frame PFirstKey (FObj [] []) st"
| "value_step st TLBrack = open_frame PFirstElem (FArr []) st"
| "value_step st _ = None"

fun json_step :: "phase \<Rightarrow> frame list \<Rightarrow> token \<Rightarrow> (json + phase \<times> frame list) option" where
  "json_step PValue st t = value_step st t"
| "json_step PFirstElem (FArr vs # st) TRBrack = Some (give (JArr vs) st)"
| "json_step PFirstElem st t = value_step st t"
| "json_step PFirstKey (FObj kvs k # st) TRBrace = Some (give (JObj kvs) st)"
| "json_step PFirstKey (FObj kvs k # st) (TVal (JStr key)) = Some (Inr (PColon, FObj kvs key # st))"
| "json_step PKey (FObj kvs k # st) (TVal (JStr key)) = Some (Inr (PColon, FObj kvs key # st))"
| "json_step PColon st TColon = Some (Inr (PValue, st))"
| "json_step PEnd (FArr vs # st) TComma = Some (Inr (PValue, FArr vs # st))"
| "json_step PEnd (FArr vs # st) TRBrack = Some (give (JArr vs) st)"
| "json_step PEnd (FObj kvs k # st) TComma = Some (Inr (PKey, FObj kvs k # st))"
| "json_step PEnd (FObj kvs k # st) TRBrace = Some (give (JObj kvs) st)"
| "json_step _ _ _ = None"

function json_read :: "phase \<Rightarrow> frame list \<Rightarrow> string \<Rightarrow> (json \<times> string) option" where
  "json_read ph st s =
     (case lex_token s of
        None \<Rightarrow> None
      | Some (t, r) \<Rightarrow>
          (case json_step ph st t of
             None \<Rightarrow> None
           | Some (Inl v) \<Rightarrow> Some (v, r)
           | Some (Inr (ph', st')) \<Rightarrow> json_read ph' st' r))"
  by pat_completeness auto
termination
  by (relation "measure (\<lambda>(ph, st, s). length s)") (auto dest: lex_token_shorter)

declare json_read.simps [simp del]

text \<open>\<open>Decoder.Decode\<close> reads the first value; \<open>Unmarshal\<close> accepts one value and white
  space only.\<close>

definition json_decode_first :: "string \<Rightarrow> (json \<times> string) option" where
  "json_decode_first s = json_read PValue [] s"

definition json_whole :: "string \<Rightarrow> json option" where
  "json_whole s =
     (case json_decode_first s of
        None \<Rightarrow> None
      | Some (v, r) \<Rightarrow> if list_all is_space r then Some v else None)"

section \<open>Printing\<close>

definition hex_low :: "nat \<Rightarrow> string" where
  "hex_low k = [hex_digits ! (k div 16), hex_digits ! (k mod 16)]"

definition esc_u00 :: "char \<Rightarrow> string" where
  "esc_u00 c = chars [0x5C] @ ''u00'' @ hex_low (code c)"

text \<open>One ASCII character inside a literal, with the HTML-safe escapes of the default
  encoder.\<close>

definition json_escape :: "char \<Rightarrow> string" where
  "json_escape c =
     (if code c = 0x22 \<or> code c = 0x5C then chars [0x5C] @ [c]
      else if code c = 8 then chars [0x5C] @ ''b''
      else if code c = 12 then chars [0x5C] @ ''f''
      else if code c = 10 then chars [0x5C] @ ''n''
      else if code c = 13 then chars [0x5C] @ ''r''
      else if code c = 9 then chars [0x5C] @ ''t''
      else if code c < 0x20 \<or> c = CHR ''<'' \<or> c = CHR ''>'' \<or> c = CHR ''&'' then esc_u00 c
      else [c])"

function json_chars :: "string \<Rightarrow> string" where
  "json_chars s =
     (case s of
        [] \<Rightarrow> []
      | c # t \<Rightarrow>
          if code c < 0x80 then json_escape c @ json_chars t
          else
            (case utf8_width s of
               None \<Rightarrow> chars [0x5C] @ ''ufffd'' @ json_chars t
             | Some n \<Rightarrow>
                 (if take n s = utf8_rune 0x2028 then chars [0x5C] @ ''u2028''
                  else if take n s = utf8_rune 0x2029 then chars [0x5C] @ ''u2029''
                  else take n s) @ json_chars (drop (n - 1) t)))"
  by pat_completeness auto
termination
  by (relation "measure length") auto

declare json_chars.simps [simp del]

definition json_quote :: "string \<Rightarrow> string" where
  "json_quote s = chars [0x22] @ json_chars s @ chars [0x22]"

fun join :: "string \<Rightarrow> string list \<Rightarrow> string" where
  "join sep [] = []"
| "join sep [x] = x"
| "join sep (x # xs) = x @ sep @ join sep xs"

text \<open>The printer, with the line break at a depth and the space after a colon as
  parameters: both empty for \<open>Marshal\<close>, the indentation for \<open>SetIndent("", "  ")\<close>.\<close>

fun json_show :: "(nat \<Rightarrow> string) \<Rightarrow> string \<Rightarrow> nat \<Rightarrow> json \<Rightarrow> string" where
  "json_show nl sp d JNull = ''null''"
| "json_show nl sp d (JBool b) = (if b then ''true'' else ''false'')"
| "json_show nl sp d (JNum n) = n"
| "json_show nl sp d (JStr s) = json_quote s"
| "json_show nl sp d (JArr vs) =
     (if vs = [] then ''[]''
      else ''['' @ nl (Suc d) @ join ('','' @ nl (Suc d)) (map (json_show nl sp (Suc d)) vs) @ nl d @ '']'')"
| "json_show nl sp d (JObj kvs) =
     (if kvs = [] then ''{}''
      else ''{'' @ nl (Suc d)
        @ join ('','' @ nl (Suc d))
            (map (\<lambda>kv. json_quote (fst kv) @ '':'' @ sp @ json_show nl sp (Suc d) (snd kv)) kvs)
        @ nl d @ ''}'')"

definition json_Marshal :: "json \<Rightarrow> string" where
  "json_Marshal v = json_show (\<lambda>d. []) [] 0 v"

definition indent_nl :: "nat \<Rightarrow> string" where
  "indent_nl d = char_of (10 :: nat) # replicate (2 * d) (CHR '' '')"

text \<open>\<open>Encoder.Encode\<close> ends its output with a newline.\<close>

definition json_Encode_indent :: "json \<Rightarrow> string" where
  "json_Encode_indent v = json_show indent_nl '' '' 0 v @ [char_of (10 :: nat)]"

definition json_Encode :: "json \<Rightarrow> string" where
  "json_Encode v = json_Marshal v @ [char_of (10 :: nat)]"

definition show_int :: "int \<Rightarrow> string" where
  "show_int i = (if i < 0 then CHR ''-'' # show_nat (nat (- i)) else show_nat (nat i))"

end
