(* ===== verification/JsonRoundtrip.thy ===== *)
theory JsonRoundtrip
  imports Json
begin

text \<open>
  Reading back what the printer wrote. The values are those the source prints:
  strings of plain ASCII characters that need no escape, decimal integers, arrays
  and objects of them within the nesting limit; the line breaks and spaces of the
  printer are any white space.
\<close>

section \<open>Plain strings and integers\<close>

definition plain :: "char \<Rightarrow> bool" where
  "plain c \<longleftrightarrow> 0x20 \<le> code c \<and> code c < 0x80 \<and> code c \<noteq> 0x22 \<and> code c \<noteq> 0x5C
     \<and> c \<noteq> CHR ''<'' \<and> c \<noteq> CHR ''>'' \<and> c \<noteq> CHR ''&''"

lemma json_chars_plain: "list_all plain s \<Longrightarrow> json_chars s = s"
proof (induction s)
  case Nil
  then show ?case by (simp add: json_chars.simps)
next
  case (Cons c s)
  then show ?case
    by (subst json_chars.simps) (simp add: plain_def json_escape_def)
qed

lemma json_quote_plain: "list_all plain s \<Longrightarrow> json_quote s = chars [0x22] @ s @ chars [0x22]"
  by (simp add: json_quote_def json_chars_plain)

lemma lex_str_plain: "list_all plain s \<Longrightarrow> lex_str (s @ char_of (0x22 :: nat) # r) = Some (s, r)"
proof (induction s)
  case Nil
  then show ?case by (simp add: lex_str.simps)
next
  case (Cons c s)
  then show ?case
    by (subst lex_str.simps) (simp add: plain_def glue_def)
qed

text \<open>What may follow a number without being read into it.\<close>

definition follows :: "string \<Rightarrow> bool" where
  "follows r \<longleftrightarrow> (case r of [] \<Rightarrow> True
     | c # _ \<Rightarrow> \<not> is_dec c \<and> c \<noteq> CHR ''.'' \<and> c \<noteq> CHR ''e'' \<and> c \<noteq> CHR ''E'')"

lemma follows_frac: "follows r \<Longrightarrow> lex_frac acc r = Some (acc, r)"
  by (auto simp: follows_def lex_frac_def lex_exp_def split: list.splits)

lemma follows_takeWhile: "follows r \<Longrightarrow> takeWhile is_dec r = [] \<and> dropWhile is_dec r = r"
  by (auto simp: follows_def split: list.splits)

lemma dec_char_0: "d < 10 \<Longrightarrow> dec_char d = CHR ''0'' \<longleftrightarrow> d = 0"
proof
  assume "d < 10" and "dec_char d = CHR ''0''"
  then have "d = dec_val (CHR ''0'')"
    using dec_val_char [of d] by simp
  then show "d = 0"
    by (simp add: dec_val_def)
qed (use char_of_char [of "CHR ''0''", where ?'a = nat] in \<open>simp add: dec_char_def\<close>)

lemma list_all_dec_digits: "list_all is_dec (map dec_char (digits 10 n))"
  by (auto simp: list_all_iff digits_lt)

lemma show_nat_shape:
  "(n = 0 \<and> show_nat n = ''0'')
   \<or> (\<exists>c s. show_nat n = c # s \<and> is_dec c \<and> c \<noteq> CHR ''0'' \<and> list_all is_dec (c # s))"
proof (cases "n = 0")
  case True
  then show ?thesis by (simp add: show_nat_def)
next
  case False
  then obtain d ds where d: "digits 10 n = d # ds" "0 < d"
    using hd_digits_pos [of 10 n] by (cases "digits 10 n") auto
  then have "d < 10"
    using digits_lt [of d 10 n] by simp
  with d False list_all_dec_digits [of n] show ?thesis
    by (simp add: show_nat_def dec_char_0)
qed

lemma takeWhile_dec:
  "list_all is_dec s \<Longrightarrow> follows r \<Longrightarrow> takeWhile is_dec (s @ r) = s \<and> dropWhile is_dec (s @ r) = r"
  by (auto simp: follows_takeWhile list_all_iff takeWhile_append2 dropWhile_append2)

lemma lex_num_unsigned:
  assumes "follows r"
  shows "lex_num (show_nat n @ r) = Some (show_nat n, r)"
    "lex_num (CHR ''-'' # show_nat n @ r) = Some (CHR ''-'' # show_nat n, r)"
proof -
  have "lex_num (show_nat n @ r) = Some (show_nat n, r)
      \<and> lex_num (CHR ''-'' # show_nat n @ r) = Some (CHR ''-'' # show_nat n, r)"
    using show_nat_shape [of n]
  proof (elim disjE exE conjE)
    assume "n = 0" and "show_nat n = ''0''"
    then show ?thesis
      using assms by (simp add: lex_num_def follows_frac)
  next
    fix c s
    assume cs: "show_nat n = c # s" "is_dec c" "c \<noteq> CHR ''0''" "list_all is_dec (c # s)"
    then have "c \<noteq> CHR ''-''"
      by auto
    moreover have "takeWhile is_dec (c # s @ r) = c # s" "dropWhile is_dec (c # s @ r) = r"
      using takeWhile_dec [OF cs(4) assms] by simp_all
    ultimately show ?thesis
      using cs assms by (simp add: lex_num_def follows_frac)
  qed
  then show "lex_num (show_nat n @ r) = Some (show_nat n, r)"
    "lex_num (CHR ''-'' # show_nat n @ r) = Some (CHR ''-'' # show_nat n, r)"
    by blast+
qed

lemma lex_num_show_int: "follows r \<Longrightarrow> lex_num (show_int i @ r) = Some (show_int i, r)"
  by (simp add: show_int_def lex_num_unsigned)

lemma show_int_head: "\<exists>c s. show_int i = c # s \<and> (is_dec c \<or> c = CHR ''-'')"
proof (cases "i < 0")
  case True
  then show ?thesis by (simp add: show_int_def)
next
  case False
  with show_nat_shape [of "nat i"] show ?thesis
    by (auto simp: show_int_def is_dec_def)
qed

section \<open>Tokens\<close>

lemma dropWhile_spaces: "list_all is_space w \<Longrightarrow> dropWhile is_space (w @ s) = dropWhile is_space s"
  by (induction w) simp_all

lemma json_read_spaces: "list_all is_space w \<Longrightarrow> json_read ph st (w @ s) = json_read ph st s"
  by (subst (1 2) json_read.simps) (simp add: lex_token_def dropWhile_spaces)

lemma lex_token_punct:
  "lex_token (CHR ''{'' # s) = Some (TLBrace, s)" "lex_token (CHR ''}'' # s) = Some (TRBrace, s)"
  "lex_token (CHR ''['' # s) = Some (TLBrack, s)" "lex_token (CHR '']'' # s) = Some (TRBrack, s)"
  "lex_token (CHR '':'' # s) = Some (TColon, s)" "lex_token (CHR '','' # s) = Some (TComma, s)"
  by (simp_all add: lex_token_def is_space_def)

lemma quote_char: "char_of (34 :: nat) = CHR 0x22"
  using char_of_char [of "CHR 0x22", where ?'a = nat] by simp

lemma newline_char: "char_of (10 :: nat) = CHR 0x0A"
  using char_of_char [of "CHR 0x0A", where ?'a = nat] by simp

lemma lex_token_str:
  "list_all plain s \<Longrightarrow> lex_token (json_quote s @ r) = Some (TVal (JStr s), r)"
  using lex_str_plain [of s r]
  by (simp add: json_quote_plain lex_token_def is_space_def chars_def quote_char)

lemma lex_token_num:
  assumes "follows r"
  shows "lex_token (show_int i @ r) = Some (TVal (JNum (show_int i)), r)"
proof -
  obtain c s where i: "show_int i = c # s" and c: "is_dec c \<or> c = CHR ''-''"
    using show_int_head by blast
  then have k: "48 \<le> code c \<and> code c \<le> 57 \<or> code c = 45"
    by (auto simp: is_dec_def)
  then have "\<not> is_space c" "code c \<noteq> 0x22"
    by (auto simp: is_space_def)
  moreover have "c \<notin> set ''{}[]:,tfn''"
    using k by auto
  ultimately show ?thesis
    using lex_num_show_int [OF assms, of i] by (simp add: lex_token_def i)
qed

lemma lex_token_word:
  "lex_token (''null'' @ r) = Some (TVal JNull, r)"
  "lex_token (''true'' @ r) = Some (TVal (JBool True), r)"
  "lex_token (''false'' @ r) = Some (TVal (JBool False), r)"
  by (simp_all add: lex_token_def is_space_def)

section \<open>Values\<close>

text \<open>The values that are printed: plain strings, integers, nesting of at most \<open>n\<close>.\<close>

fun printable :: "nat \<Rightarrow> json \<Rightarrow> bool" where
  "printable n JNull = True"
| "printable n (JBool b) = True"
| "printable n (JNum x) = (\<exists>i. x = show_int i)"
| "printable n (JStr s) = list_all plain s"
| "printable n (JArr vs) = (0 < n \<and> list_all (printable (n - 1)) vs)"
| "printable n (JObj kvs) =
     (0 < n \<and> list_all (\<lambda>kv. list_all plain (fst kv) \<and> printable (n - 1) (snd kv)) kvs)"

text \<open>Where reading goes on after a value.\<close>

definition after :: "json \<Rightarrow> frame list \<Rightarrow> string \<Rightarrow> (json \<times> string) option" where
  "after v st r = (case give v st of Inl v \<Rightarrow> Some (v, r) | Inr (ph, st') \<Rightarrow> json_read ph st' r)"

lemma json_read_token:
  assumes "lex_token s = Some (t, r)"
  shows "json_read ph st s = (case json_step ph st t of
      None \<Rightarrow> None | Some (Inl v) \<Rightarrow> Some (v, r) | Some (Inr (ph', st')) \<Rightarrow> json_read ph' st' r)"
  by (subst json_read.simps) (simp add: assms)

lemma json_step_val: "ph = PValue \<or> ph = PFirstElem \<Longrightarrow> json_step ph st (TVal v) = Some (give v st)"
  by (cases st rule: list.exhaust; cases "hd st") auto

lemma json_read_val:
  "ph = PValue \<or> ph = PFirstElem \<Longrightarrow> lex_token s = Some (TVal v, r) \<Longrightarrow> json_read ph st s = after v st r"
  by (simp add: json_read_token json_step_val after_def)

lemma follows_spaces: "list_all is_space w \<Longrightarrow> follows (c # s) \<Longrightarrow> follows (w @ c # s)"
  by (cases w) (auto simp: follows_def is_space_def is_dec_def)

lemma follows_punct: "follows (CHR '','' # s)" "follows (CHR '']'' # s)" "follows (CHR ''}'' # s)"
  by (simp_all add: follows_def is_dec_def)

lemma json_read_TComma:
  "json_read PEnd (FArr vs # st) (CHR '','' # s) = json_read PValue (FArr vs # st) s"
  "json_read PEnd (FObj kvs k # st) (CHR '','' # s) = json_read PKey (FObj kvs k # st) s"
  by (simp_all add: json_read_token [OF lex_token_punct(6)])

lemma json_read_close:
  "ph = PEnd \<or> ph = PFirstElem \<Longrightarrow> json_read ph (FArr vs # st) (CHR '']'' # s) = after (JArr vs) st s"
  "ph = PEnd \<or> ph = PFirstKey \<Longrightarrow> json_read ph (FObj kvs k # st) (CHR ''}'' # s) = after (JObj kvs) st s"
  by (auto simp: json_read_token [OF lex_token_punct(4)] json_read_token [OF lex_token_punct(2)] after_def)

lemma json_step_open:
  assumes "ph = PValue \<or> ph = PFirstElem" and "length st < maxNestingDepth"
  shows "json_step ph st TLBrack = Some (Inr (PFirstElem, FArr [] # st))"
    "json_step ph st TLBrace = Some (Inr (PFirstKey, FObj [] [] # st))"
  using assms by (cases st; cases "hd st"; auto simp: open_frame_def)+

lemma json_read_open:
  assumes "ph = PValue \<or> ph = PFirstElem" and "length st < maxNestingDepth"
  shows "json_read ph st (CHR ''['' # s) = json_read PFirstElem (FArr [] # st) s"
    "json_read ph st (CHR ''{'' # s) = json_read PFirstKey (FObj [] [] # st) s"
  using json_step_open [OF assms]
  by (simp_all add: json_read_token [OF lex_token_punct(3)] json_read_token [OF lex_token_punct(1)])

lemma json_read_key:
  assumes "ph = PFirstKey \<or> ph = PKey" and "list_all plain key" and "list_all is_space sp"
  shows "json_read ph (FObj kvs k # st) (json_quote key @ CHR '':'' # sp @ s)
    = json_read PValue (FObj kvs key # st) s"
  using assms(1)
  by (auto simp: json_read_token [OF lex_token_str [OF assms(2)]]
      json_read_token [OF lex_token_punct(5)] json_read_spaces [OF assms(3)])

text \<open>The elements of an array and the members of an object, given that each is read
  back.\<close>

lemma json_read_elems:
  assumes "\<And>v ph st r. v \<in> set (x # xs) \<Longrightarrow> ph = PValue \<or> ph = PFirstElem \<Longrightarrow> follows r \<Longrightarrow>
      length st = k \<Longrightarrow> json_read ph st (f v @ r) = after v st r"
    and "ph = PValue \<or> ph = PFirstElem" and "list_all is_space w" and "list_all is_space w'"
    and "Suc (length st) = k"
  shows "json_read ph (FArr acc # st) (join (CHR '','' # w) (map f (x # xs)) @ w' @ CHR '']'' # r)
    = after (JArr (acc @ x # xs)) st r"
  using assms
proof (induction xs arbitrary: x ph acc)
  case Nil
  then show ?case
    by (simp add: after_def [of x] follows_spaces follows_punct json_read_spaces json_read_close)
next
  case (Cons y ys)
  have "json_read ph (FArr acc # st) (join (CHR '','' # w) (map f (x # y # ys)) @ w' @ CHR '']'' # r)
    = json_read PValue (FArr (acc @ [x]) # st) (join (CHR '','' # w) (map f (y # ys)) @ w' @ CHR '']'' # r)"
    using Cons.prems by (simp add: after_def [of x] follows_punct json_read_TComma json_read_spaces)
  also have "\<dots> = after (JArr ((acc @ [x]) @ y # ys)) st r"
    using Cons.prems by (intro Cons.IH) simp_all
  finally show ?case
    by simp
qed

lemma json_read_members:
  assumes "\<And>v st r. v \<in> snd ` set (x # xs) \<Longrightarrow> follows r \<Longrightarrow>
      length st = k \<Longrightarrow> json_read PValue st (f v @ r) = after v st r"
    and "list_all (\<lambda>kv. list_all plain (fst kv)) (x # xs)" and "list_all is_space sp"
    and "ph = PFirstKey \<or> ph = PKey" and "list_all is_space w" and "list_all is_space w'"
    and "Suc (length st) = k"
  shows "json_read ph (FObj acc key # st)
      (join (CHR '','' # w) (map (\<lambda>kv. json_quote (fst kv) @ CHR '':'' # sp @ f (snd kv)) (x # xs))
       @ w' @ CHR ''}'' # r)
    = after (JObj (acc @ x # xs)) st r"
  using assms
proof (induction xs arbitrary: x ph acc key)
  case Nil
  then show ?case
    by (simp add: json_read_key after_def [of "snd x"] follows_spaces follows_punct json_read_spaces json_read_close)
next
  case (Cons y ys)
  let ?m = "\<lambda>kv. json_quote (fst kv) @ CHR '':'' # sp @ f (snd kv)"
  have "json_read ph (FObj acc key # st) (join (CHR '','' # w) (map ?m (x # y # ys)) @ w' @ CHR ''}'' # r)
    = json_read PKey (FObj (acc @ [x]) [] # st) (join (CHR '','' # w) (map ?m (y # ys)) @ w' @ CHR ''}'' # r)"
    using Cons.prems
    by (simp add: json_read_key after_def [of "snd x"] follows_punct json_read_TComma json_read_spaces)
  also have "\<dots> = after (JObj ((acc @ [x]) @ y # ys)) st r"
    using Cons.prems by (intro Cons.IH) simp_all
  finally show ?case
    by simp
qed

lemma json_read_array:
  assumes nl: "\<And>d. list_all is_space (nl d)" and "length st < maxNestingDepth" and "ph = PValue \<or> ph = PFirstElem"
    and elems: "\<And>v ph' st' r'. v \<in> set vs \<Longrightarrow> ph' = PValue \<or> ph' = PFirstElem \<Longrightarrow> follows r' \<Longrightarrow>
      length st' = Suc (length st) \<Longrightarrow> json_read ph' st' (json_show nl sp (Suc d) v @ r') = after v st' r'"
  shows "json_read ph st (json_show nl sp d (JArr vs) @ r) = after (JArr vs) st r"
proof (cases vs)
  case Nil
  with assms(2,3) show ?thesis
    by (simp add: json_read_open json_read_close)
next
  case (Cons x xs)
  have "json_read PFirstElem (FArr [] # st)
      (join (CHR '','' # nl (Suc d)) (map (json_show nl sp (Suc d)) (x # xs)) @ nl d @ CHR '']'' # r)
    = after (JArr ([] @ x # xs)) st r"
    by (rule json_read_elems [where k = "Suc (length st)"]) (use elems Cons nl in simp_all)
  with Cons assms(2,3) show ?thesis
    by (simp add: json_read_open json_read_spaces [OF nl])
qed

lemma json_read_object:
  assumes nl: "\<And>d. list_all is_space (nl d)" and "length st < maxNestingDepth" and "ph = PValue \<or> ph = PFirstElem"
    and sp: "list_all is_space sp" and keys: "list_all (\<lambda>kv. list_all plain (fst kv)) kvs"
    and members: "\<And>v st' r'. v \<in> snd ` set kvs \<Longrightarrow> follows r' \<Longrightarrow> length st' = Suc (length st) \<Longrightarrow>
      json_read PValue st' (json_show nl sp (Suc d) v @ r') = after v st' r'"
  shows "json_read ph st (json_show nl sp d (JObj kvs) @ r) = after (JObj kvs) st r"
proof (cases kvs)
  case Nil
  with assms(2,3) show ?thesis
    by (simp add: json_read_open json_read_close)
next
  case (Cons x xs)
  have "json_read PFirstKey (FObj [] [] # st)
      (join (CHR '','' # nl (Suc d))
        (map (\<lambda>kv. json_quote (fst kv) @ CHR '':'' # sp @ json_show nl sp (Suc d) (snd kv)) (x # xs))
       @ nl d @ CHR ''}'' # r)
    = after (JObj ([] @ x # xs)) st r"
    by (rule json_read_members [where k = "Suc (length st)"]) (use members keys Cons nl sp in simp_all)
  with Cons assms(2,3) show ?thesis
    by (simp add: json_read_open json_read_spaces [OF nl])
qed

lemma json_read_show:
  assumes nl: "\<And>d. list_all is_space (nl d)" and sp: "list_all is_space sp"
  shows "printable n v \<Longrightarrow> follows r \<Longrightarrow> length st + n \<le> maxNestingDepth \<Longrightarrow>
    ph = PValue \<or> ph = PFirstElem \<Longrightarrow> json_read ph st (json_show nl sp d v @ r) = after v st r"
proof (induction v arbitrary: n r st ph d)
  case (JNum x)
  then show ?case
    by (auto intro!: json_read_val lex_token_num)
next
  case (JStr s)
  then show ?case
    by (auto intro!: json_read_val lex_token_str)
next
  case (JArr vs)
  show ?case
  proof (rule json_read_array [OF nl])
    fix v ph' and st' :: "frame list" and r'
    assume "v \<in> set vs" "ph' = PValue \<or> ph' = PFirstElem" "follows r'" "length st' = Suc (length st)"
    then show "json_read ph' st' (json_show nl sp (Suc d) v @ r') = after v st' r'"
      using JArr.prems by (intro JArr.IH [where n = "n - 1"]) (auto simp: list_all_iff)
  qed (use JArr.prems in auto)
next
  case (JObj kvs)
  show ?case
  proof (rule json_read_object [OF nl _ _ sp])
    fix v and st' :: "frame list" and r'
    assume "v \<in> snd ` set kvs" "follows r'" "length st' = Suc (length st)"
    then show "json_read PValue st' (json_show nl sp (Suc d) v @ r') = after v st' r'"
      using JObj.prems by (auto intro!: JObj.IH [where n = "n - 1"] simp: list_all_iff prod_set_simps snds.simps)
  qed (use JObj.prems in \<open>auto simp: list_all_iff\<close>)
qed (auto intro!: json_read_val simp: lex_token_word [simplified])

lemma json_first_show:
  assumes "\<And>d. list_all is_space (nl d)" and "list_all is_space sp"
    and "printable maxNestingDepth v" and "follows r"
  shows "json_decode_first (json_show nl sp d v @ r) = Some (v, r)"
  using json_read_show [OF assms(1,2,3,4), of "[]" PValue]
  by (simp add: json_decode_first_def after_def)

lemma list_all_indent_nl: "list_all is_space (indent_nl d)"
  by (simp add: indent_nl_def is_space_def list_all_iff)

text \<open>\<open>Unmarshal\<close> reads what \<open>Marshal\<close> printed, \<open>Decode\<close> what an indenting encoder
  printed, whatever white space and further bytes follow.\<close>

lemma json_whole_Marshal: "printable maxNestingDepth v \<Longrightarrow> json_whole (json_Marshal v) = Some v"
  using json_first_show [of "\<lambda>d. []" "[]" v "[]" 0]
  by (simp add: json_whole_def json_Marshal_def follows_def)

lemma json_first_Encode_indent:
  "printable maxNestingDepth v \<Longrightarrow>
   json_decode_first (json_Encode_indent v @ r) = Some (v, char_of (10 :: nat) # r)"
  using json_first_show [of indent_nl "'' ''" v "char_of (10 :: nat) # r" 0]
  by (simp add: json_Encode_indent_def list_all_indent_nl is_space_def follows_def is_dec_def newline_char)

end
