(* ===== verification/JsonStruct.thy ===== *)
theory JsonStruct
  imports JsonRoundtrip
begin

text \<open>
  Decoding a JSON value into a Go struct, as \<open>encoding/json\<close> does it: members are
  applied in the order of the text, a later duplicate on top of an earlier one; a
  key selects the field of that exact name, or else the one that equals it under
  simple Unicode case folding; \<open>null\<close> leaves a scalar or a struct as it is; a value
  of the wrong type, or a number outside the field's range, makes the whole decoding
  fail, and so does an unknown key after \<open>DisallowUnknownFields\<close>. A failed decoding
  is \<open>None\<close>: the source never looks at the half-filled struct.
\<close>

definition upper :: "char \<Rightarrow> char" where
  "upper c = (if 97 \<le> code c \<and> code c \<le> 122 then char_of (code c - 32) else c)"

lemma strip_prefix_length: "strip_prefix p s = Some r \<Longrightarrow> length s = length p + length r"
  by (induction p s rule: strip_prefix.induct) (auto split: if_splits)

text \<open>\<open>foldName\<close> as far as it can meet an ASCII name: letters go to upper case, and
  the two runes that fold to an ASCII letter are the Kelvin sign and the long s.\<close>

function fold_name :: "string \<Rightarrow> string" where
  "fold_name s =
     (case strip_prefix (utf8_rune 0x212A) s of
        Some r \<Rightarrow> CHR ''K'' # fold_name r
      | None \<Rightarrow>
     (case strip_prefix (utf8_rune 0x17F) s of
        Some r \<Rightarrow> CHR ''S'' # fold_name r
      | None \<Rightarrow>
     (case s of [] \<Rightarrow> [] | c # t \<Rightarrow> upper c # fold_name t)))"
  by pat_completeness auto
termination
  by (relation "measure length") (auto dest!: strip_prefix_length simp: utf8_rune_def chars_def)

declare fold_name.simps [simp del]

type_synonym 'a field_setter = "json \<Rightarrow> 'a \<Rightarrow> 'a option"

fun lookup_by :: "('k \<Rightarrow> bool) \<Rightarrow> ('k \<times> 'v) list \<Rightarrow> 'v option" where
  "lookup_by P [] = None"
| "lookup_by P ((k, v) # kvs) = (if P k then Some v else lookup_by P kvs)"

definition field_for :: "(string \<times> 'a field_setter) list \<Rightarrow> string \<Rightarrow> 'a field_setter option" where
  "field_for fs key =
     (case lookup_by (\<lambda>n. n = key) fs of
        Some f \<Rightarrow> Some f
      | None \<Rightarrow> lookup_by (\<lambda>n. fold_name n = fold_name key) fs)"

fun set_members ::
  "bool \<Rightarrow> (string \<times> 'a field_setter) list \<Rightarrow> (string \<times> json) list \<Rightarrow> 'a \<Rightarrow> 'a option" where
  "set_members strict fs [] x = Some x"
| "set_members strict fs ((key, v) # kvs) x =
     (case field_for fs key of
        None \<Rightarrow> if strict then None else set_members strict fs kvs x
      | Some f \<Rightarrow> (case f v x of None \<Rightarrow> None | Some y \<Rightarrow> set_members strict fs kvs y))"

definition decode_struct :: "bool \<Rightarrow> (string \<times> 'a field_setter) list \<Rightarrow> 'a field_setter" where
  "decode_struct strict fs v x =
     (case v of JNull \<Rightarrow> Some x | JObj kvs \<Rightarrow> set_members strict fs kvs x | _ \<Rightarrow> None)"

text \<open>Setters for the field types of the source: \<open>string\<close>, signed and unsigned
  integers of a width.\<close>

definition set_string :: "(string \<Rightarrow> 'a \<Rightarrow> 'a) \<Rightarrow> 'a field_setter" where
  "set_string upd v x = (case v of JNull \<Rightarrow> Some x | JStr s \<Rightarrow> Some (upd s x) | _ \<Rightarrow> None)"

definition set_int64 :: "(int \<Rightarrow> 'a \<Rightarrow> 'a) \<Rightarrow> 'a field_setter" where
  "set_int64 upd v x =
     (case v of JNull \<Rightarrow> Some x
      | JNum n \<Rightarrow> map_option (\<lambda>i. upd i x) (strconv_Atoi n)
      | _ \<Rightarrow> None)"

definition set_uint :: "nat \<Rightarrow> (nat \<Rightarrow> 'a \<Rightarrow> 'a) \<Rightarrow> 'a field_setter" where
  "set_uint bits upd v x =
     (case v of JNull \<Rightarrow> Some x
      | JNum n \<Rightarrow>
          (case strconv_ParseUint64 n of
             None \<Rightarrow> None
           | Some k \<Rightarrow> if unat k < 2 ^ bits then Some (upd (unat k) x) else None)
      | _ \<Rightarrow> None)"

section \<open>Reading back integers\<close>

lemma signed_digits_show_int: "signed_digits (show_int i) = Some i"
proof (cases "i < 0")
  case True
  then show ?thesis
    by (simp add: show_int_def signed_digits_def)
next
  case False
  then show ?thesis
    using show_nat_shape [of "nat i"] dec_digits_show_nat [of "nat i"]
    by (elim disjE exE conjE) (auto simp: show_int_def signed_digits_def simp del: dec_digits_show_nat)
qed

lemma set_int64_show:
  "in_int64 i \<Longrightarrow> set_int64 upd (JNum (show_int i)) x = Some (upd i x)"
  by (simp add: set_int64_def strconv_Atoi_def signed_digits_show_int)

lemma in_int64_sint [simp]: "in_int64 (sint (w :: i64))"
  using sint_greater_eq [of w] sint_less [of w] by (simp add: in_int64_def)

lemma show_int_nat: "show_int (int n) = show_nat n"
  by (simp add: show_int_def)

lemma set_uint_show:
  "k < 2 ^ bits \<Longrightarrow> bits \<le> 64 \<Longrightarrow> set_uint bits upd (JNum (show_int (int k))) x = Some (upd k x)"
proof -
  assume k: "k < 2 ^ bits" and bits: "bits \<le> 64"
  have "(2 :: nat) ^ bits \<le> 2 ^ 64"
    using bits by (intro power_increasing) simp_all
  with k have "k < 2 ^ 64"
    by (rule less_le_trans)
  then show ?thesis
    using k by (simp add: set_uint_def show_int_nat strconv_ParseUint64_def unat_of_nat take_bit_eq_mod)
qed

lemma plain_hex: "list_all plain (hex_EncodeToString bs)"
proof -
  have "\<forall>d < 16. plain (hex_digits ! d)"
    by code_simp
  then have "plain (hex_digits ! (unat b div 16))" "plain (hex_digits ! (unat b mod 16))" for b :: byte
    using unat_byte_less [of b] by (simp_all add: less_mult_imp_div_less)
  then show ?thesis
    by (induction bs) (simp_all add: hex_byte_def)
qed

end
