(* ===== verification/Base58.thy ===== *)
theory Base58
  imports GoNum
begin

text \<open>
  \<open>gate/base58.go\<close>: the Bitcoin/Solana address encoding. The decoder is shown to
  be the inverse of the encoder on every byte string, and the encoder the inverse
  of the decoder on every string the decoder accepts, so an address has exactly
  one spelling.
\<close>

definition b58Alphabet :: string where
  "b58Alphabet = ''123456789ABCDEFGHJKLMNPQRSTUVWXYZabcdefghijkmnopqrstuvwxyz''"

text \<open>The lookup table: 256 entries of \<open>-1\<close>, then one store per alphabet position.\<close>

definition b58Index :: "int list" where
  "b58Index =
     fold (\<lambda>i idx. idx[of_char (b58Alphabet ! i) := int i])
       [0..<length b58Alphabet] (replicate 256 (- 1))"

fun b58_value :: "string \<Rightarrow> nat \<Rightarrow> nat option" where
  "b58_value [] n = Some n"
| "b58_value (c # s) n =
     (let v = b58Index ! of_char c
      in if v < 0 then None else b58_value s (n * 58 + nat v))"

definition decodeBase58 :: "string \<Rightarrow> goerror + bytes" where
  "decodeBase58 s = (case b58_value s 0 of
       None \<Rightarrow> Inl (Sentinel errBadBase58)
     | Some n \<Rightarrow>
         let body = big_Bytes n;
             zeros = length (takeWhile (\<lambda>c. c = CHR ''1'') s)
         in Inr (replicate zeros 0 @ body))"

definition decodePubkey32 :: "string \<Rightarrow> goerror + bytes" where
  "decodePubkey32 s = (case decodeBase58 s of
       Inl e \<Rightarrow> Inl e
     | Inr raw \<Rightarrow> if length raw \<noteq> 32 then Inl (Sentinel ErrBadPubkey) else Inr raw)"

text \<open>The encoder's loop appends the least significant digit first.\<close>

fun b58_rev :: "nat \<Rightarrow> string" where
  "b58_rev n = (if n = 0 then [] else (b58Alphabet ! (n mod 58)) # b58_rev (n div 58))"

declare b58_rev.simps [simp del]

definition EncodeBase58 :: "bytes \<Rightarrow> string" where
  "EncodeBase58 b =
     (let zeros = length (takeWhile (\<lambda>x. x = 0) b);
          n = big_SetBytes b
      in rev (b58_rev n @ replicate zeros (CHR ''1'')))"

section \<open>The alphabet and its index\<close>

lemma length_b58Alphabet [simp]: "length b58Alphabet = 58"
  by (simp add: b58Alphabet_def)

lemma distinct_b58Alphabet: "distinct b58Alphabet"
  by (simp add: b58Alphabet_def)

lemma b58Alphabet_0 [simp]: "b58Alphabet ! 0 = CHR ''1''"
  by (simp add: b58Alphabet_def)

lemma length_fold_store:
  "length (fold (\<lambda>i idx. idx[f i := g i]) is t) = length t"
  by (induction "is" arbitrary: t) simp_all

lemma fold_store_nth:
  assumes "inj_on f (set is)" and "distinct is" and "k < length t"
  shows "fold (\<lambda>i idx. idx[f i := g i]) is t ! k =
    (if k \<in> f ` set is then g (the_inv_into (set is) f k) else t ! k)"
  using assms
proof (induction "is" rule: rev_induct)
  case Nil
  then show ?case by simp
next
  case (snoc i "is")
  have inj: "inj_on f (set is)" and i: "i \<notin> set is"
    using snoc.prems by (auto simp: inj_on_def)
  have fi: "f i \<notin> f ` set is"
    using snoc.prems(1) i by (auto simp: inj_on_def)
  have inv: "the_inv_into (set (is @ [i])) f (f j) = j" if "j \<in> set (is @ [i])" for j
    using snoc.prems(1) that by (simp add: the_inv_into_f_f)
  have inv': "the_inv_into (set is) f (f j) = j" if "j \<in> set is" for j
    using inj that by (simp add: the_inv_into_f_f)
  show ?case
  proof (cases "k = f i")
    case True
    with snoc.prems(3) inv [of i] show ?thesis
      by (simp add: length_fold_store)
  next
    case False
    show ?thesis
    proof (cases "k \<in> f ` set is")
      case True
      then obtain j where "j \<in> set is" and "k = f j"
        by auto
      with snoc False inj inv [of j] inv' [of j] show ?thesis
        by simp
    next
      case notin: False
      with snoc False inj show ?thesis
        by simp
    qed
  qed
qed

lemma inj_b58Alphabet_code: "inj_on (\<lambda>i. of_char (b58Alphabet ! i) :: nat) {0..<58}"
  by (rule inj_onI) (simp add: nth_eq_iff_index_eq distinct_b58Alphabet)

lemma b58Index_alphabet [simp]:
  assumes "i < 58"
  shows "b58Index ! of_char (b58Alphabet ! i) = int i"
proof -
  let ?f = "\<lambda>i. of_char (b58Alphabet ! i) :: nat"
  have "?f i < length (replicate 256 (- 1 :: int))"
    by simp
  then have "b58Index ! ?f i = int (the_inv_into {0..<58} ?f (?f i))"
    using assms inj_b58Alphabet_code by (simp add: b58Index_def fold_store_nth)
  also have "the_inv_into {0..<58} ?f (?f i) = i"
    using assms by (intro the_inv_into_f_f [OF inj_b58Alphabet_code]) simp
  finally show ?thesis .
qed

lemma b58Index_other:
  assumes "c \<notin> set b58Alphabet"
  shows "b58Index ! of_char c = - 1"
proof -
  have "of_char c \<notin> (\<lambda>i. of_char (b58Alphabet ! i) :: nat) ` {0..<58}"
    using assms by (auto simp: in_set_conv_nth)
  then show ?thesis
    using inj_b58Alphabet_code by (simp add: b58Index_def fold_store_nth)
qed

section \<open>Values of base-58 strings\<close>

definition b58_digit :: "char \<Rightarrow> nat" where
  "b58_digit c = nat (b58Index ! of_char c)"

lemma b58_digit_alphabet [simp]: "i < 58 \<Longrightarrow> b58_digit (b58Alphabet ! i) = i"
  by (simp add: b58_digit_def)

lemma b58_digit_bound: "c \<in> set b58Alphabet \<Longrightarrow> b58_digit c < 58"
  by (auto simp: in_set_conv_nth)

lemma b58Alphabet_digit: "c \<in> set b58Alphabet \<Longrightarrow> b58Alphabet ! b58_digit c = c"
  by (auto simp: in_set_conv_nth)

lemma b58_digit_eq_0: "c \<in> set b58Alphabet \<Longrightarrow> b58_digit c = 0 \<longleftrightarrow> c = CHR ''1''"
  by (metis b58Alphabet_0 b58Alphabet_digit b58_digit_alphabet zero_less_numeral)

lemma b58_value_eq:
  "b58_value s n = (if set s \<subseteq> set b58Alphabet
     then Some (foldl (\<lambda>a d. a * 58 + d) n (map b58_digit s)) else None)"
proof (induction s arbitrary: n)
  case Nil
  then show ?case by simp
next
  case (Cons c s)
  show ?case
  proof (cases "c \<in> set b58Alphabet")
    case True
    then obtain i where "i < 58" and c: "c = b58Alphabet ! i"
      by (auto simp: in_set_conv_nth)
    then have "b58Index ! of_char c = int i" and "b58_digit c = i"
      by simp_all
    with Cons True show ?thesis
      by simp
  next
    case False
    then show ?thesis
      by (simp add: b58Index_other)
  qed
qed

lemma b58_value_Some_iff:
  "b58_value s 0 = Some n \<longleftrightarrow> set s \<subseteq> set b58Alphabet \<and> n = undigits 58 (map b58_digit s)"
  by (auto simp: b58_value_eq undigits_def)

lemma b58_rev_eq: "b58_rev n = rev (map (\<lambda>d. b58Alphabet ! d) (digits 58 n))"
proof (induction n rule: b58_rev.induct)
  case (1 n)
  then show ?case
    by (subst b58_rev.simps) (simp add: digits_step)
qed

lemma EncodeBase58_eq:
  "EncodeBase58 b = replicate (length (takeWhile (\<lambda>x. x = 0) b)) (CHR ''1'')
     @ map (\<lambda>d. b58Alphabet ! d) (digits 58 (big_SetBytes b))"
  by (simp add: EncodeBase58_def b58_rev_eq)

lemma set_EncodeBase58: "set (EncodeBase58 b) \<subseteq> set b58Alphabet"
proof -
  have "CHR ''1'' \<in> set b58Alphabet"
    by (simp add: b58Alphabet_def)
  moreover have "b58Alphabet ! d \<in> set b58Alphabet" if "d \<in> set (digits 58 n)" for d n
    using digits_lt [OF that] by simp
  ultimately show ?thesis
    by (auto simp: EncodeBase58_eq)
qed

lemma map_digit_alphabet: "map (b58_digit \<circ> (!) b58Alphabet) (digits 58 n) = digits 58 n"
  by (intro map_idI) (simp add: digits_lt)

lemma b58_digit_one [simp]: "b58_digit (CHR ''1'') = 0"
  using b58_digit_alphabet [of 0] by simp

lemma takeWhile_ones_digits:
  "takeWhile (\<lambda>c. c = CHR ''1'') (map (\<lambda>d. b58Alphabet ! d) (digits 58 n)) = []"
proof (cases "n = 0")
  case False
  then obtain d ds where d: "digits 58 n = d # ds" "0 < d"
    using hd_digits_pos [of 58 n] by (cases "digits 58 n") auto
  then have "d < 58"
    using digits_lt [of d 58 n] by simp
  with d(2) have "b58Alphabet ! d \<noteq> b58Alphabet ! 0"
    by (simp only: nth_eq_iff_index_eq distinct_b58Alphabet length_b58Alphabet)
  with d(1) show ?thesis by simp
qed simp

section \<open>Round trips\<close>

lemma takeWhile_replicate_append:
  "takeWhile P (replicate k x @ ys) =
     (if P x then replicate k x @ takeWhile P ys else if k = 0 then takeWhile P ys else [])"
  by (induction k) auto

lemma decode_EncodeBase58 [simp]: "decodeBase58 (EncodeBase58 b) = Inr b"
proof -
  let ?z = "length (takeWhile (\<lambda>x. x = 0) b)" and ?n = "big_SetBytes b"
  have "map b58_digit (EncodeBase58 b) = replicate ?z 0 @ digits 58 ?n"
    by (simp add: EncodeBase58_eq map_digit_alphabet)
  then have "b58_value (EncodeBase58 b) 0 = Some ?n"
    by (simp add: b58_value_Some_iff set_EncodeBase58)
  moreover have "length (takeWhile (\<lambda>c. c = CHR ''1'') (EncodeBase58 b)) = ?z"
    by (simp add: EncodeBase58_eq takeWhile_replicate_append takeWhile_ones_digits)
  ultimately show ?thesis
    by (simp add: decodeBase58_def big_Bytes_SetBytes takeWhile_dropWhile_zeros)
qed

lemma map_alphabet_digit: "set s \<subseteq> set b58Alphabet \<Longrightarrow> map ((!) b58Alphabet \<circ> b58_digit) s = s"
  by (intro map_idI) (auto simp: b58Alphabet_digit)

lemma dropWhile_ones_digits:
  assumes "set s \<subseteq> set b58Alphabet"
  shows "map (\<lambda>d. b58Alphabet ! d) (dropWhile (\<lambda>d. d = 0) (map b58_digit s))
    = dropWhile (\<lambda>c. c = CHR ''1'') s"
  using assms
  by (induction s) (auto simp: b58_digit_eq_0 b58Alphabet_digit map_alphabet_digit)

lemma takeWhile_zero_big_Bytes [simp]: "takeWhile (\<lambda>x. x = 0) (big_Bytes n) = []"
proof (cases "n = 0")
  case False
  with hd_big_Bytes [of n] show ?thesis
    by (cases "big_Bytes n") auto
qed simp

lemma EncodeBase58_decode: "decodeBase58 s = Inr b \<Longrightarrow> EncodeBase58 b = s"
proof -
  assume "decodeBase58 s = Inr b"
  then obtain n where n: "b58_value s 0 = Some n"
    and b: "b = replicate (length (takeWhile (\<lambda>c. c = CHR ''1'') s)) 0 @ big_Bytes n"
    by (auto simp: decodeBase58_def Let_def split: option.splits)
  from n have s: "set s \<subseteq> set b58Alphabet" and n_eq: "n = undigits 58 (map b58_digit s)"
    by (simp_all add: b58_value_Some_iff)
  have "digits 58 n = dropWhile (\<lambda>d. d = 0) (map b58_digit s)"
    unfolding n_eq using s by (intro digits_undigits) (auto simp: b58_digit_bound)
  moreover have "big_SetBytes b = n"
    by (simp add: b big_SetBytes_def)
  moreover have "length (takeWhile (\<lambda>x. x = 0) b) = length (takeWhile (\<lambda>c. c = CHR ''1'') s)"
    by (simp add: b takeWhile_replicate_append)
  ultimately show ?thesis
    by (simp add: EncodeBase58_eq dropWhile_ones_digits s takeWhile_dropWhile_zeros)
qed

text \<open>C31. Base-58 decoding is exactly the inverse of encoding: \<open>decodeBase58\<close>
  succeeds with \<open>b\<close> on the string \<open>EncodeBase58 b\<close> and on no other, so every byte
  string has exactly one accepted spelling, leading zero bytes included.\<close>

theorem decodeBase58_iff: "decodeBase58 s = Inr b \<longleftrightarrow> s = EncodeBase58 b"
  using EncodeBase58_decode by auto

lemma decodePubkey32_Inr_iff:
  "decodePubkey32 s = Inr pk \<longleftrightarrow> length pk = 32 \<and> s = EncodeBase58 pk"
  by (auto simp: decodePubkey32_def EncodeBase58_decode split: sum.splits if_splits)

end
