(* ===== verification/Sha256.thy ===== *)
theory Sha256
  imports Prelude
begin

text \<open>
  \<open>crypto/sha256\<close> as FIPS 180-4 defines it, executable on byte lists. The source
  feeds a hash piecewise with \<open>h.Write\<close> and reads it with \<open>h.Sum(nil)\<close>; the
  result is the digest of the concatenation, so every use in the model is
  \<open>sha256\<close> of an appended byte list.

  Properties that rest on collision resistance are stated as reductions: equal
  digests give equal inputs or a \<open>collision\<close> of two inputs the statement names.
\<close>

unbundle bit_operations_syntax

definition sha256_K :: "u32 list" where
  "sha256_K =
    [1116352408, 1899447441, 3049323471, 3921009573,
     961987163, 1508970993, 2453635748, 2870763221,
     3624381080, 310598401, 607225278, 1426881987,
     1925078388, 2162078206, 2614888103, 3248222580,
     3835390401, 4022224774, 264347078, 604807628,
     770255983, 1249150122, 1555081692, 1996064986,
     2554220882, 2821834349, 2952996808, 3210313671,
     3336571891, 3584528711, 113926993, 338241895,
     666307205, 773529912, 1294757372, 1396182291,
     1695183700, 1986661051, 2177026350, 2456956037,
     2730485921, 2820302411, 3259730800, 3345764771,
     3516065817, 3600352804, 4094571909, 275423344,
     430227734, 506948616, 659060556, 883997877,
     958139571, 1322822218, 1537002063, 1747873779,
     1955562222, 2024104815, 2227730452, 2361852424,
     2428436474, 2756734187, 3204031479, 3329325298]"

definition rotr32 :: "nat \<Rightarrow> u32 \<Rightarrow> u32" where
  "rotr32 n x = drop_bit n x OR push_bit (32 - n) x"

definition sha_ch :: "u32 \<Rightarrow> u32 \<Rightarrow> u32 \<Rightarrow> u32" where
  "sha_ch x y z = (x AND y) XOR (NOT x AND z)"

definition sha_maj :: "u32 \<Rightarrow> u32 \<Rightarrow> u32 \<Rightarrow> u32" where
  "sha_maj x y z = (x AND y) XOR (x AND z) XOR (y AND z)"

definition sha_SIGMA0 :: "u32 \<Rightarrow> u32" where
  "sha_SIGMA0 x = rotr32 2 x XOR rotr32 13 x XOR rotr32 22 x"

definition sha_SIGMA1 :: "u32 \<Rightarrow> u32" where
  "sha_SIGMA1 x = rotr32 6 x XOR rotr32 11 x XOR rotr32 25 x"

definition sha_sigma0 :: "u32 \<Rightarrow> u32" where
  "sha_sigma0 x = rotr32 7 x XOR rotr32 18 x XOR drop_bit 3 x"

definition sha_sigma1 :: "u32 \<Rightarrow> u32" where
  "sha_sigma1 x = rotr32 17 x XOR rotr32 19 x XOR drop_bit 10 x"

text \<open>The message schedule, newest word first: \<open>W(t-2)\<close> is at index 1.\<close>

fun sha256_schedule :: "nat \<Rightarrow> u32 list \<Rightarrow> u32 list" where
  "sha256_schedule 0 ws = ws"
| "sha256_schedule (Suc n) ws =
     sha256_schedule n
       ((sha_sigma1 (ws ! 1) + ws ! 6 + sha_sigma0 (ws ! 14) + ws ! 15) # ws)"

type_synonym sha_state = "u32 \<times> u32 \<times> u32 \<times> u32 \<times> u32 \<times> u32 \<times> u32 \<times> u32"

definition sha256_init :: sha_state where
  "sha256_init =
    (1779033703, 3144134277, 1013904242, 2773480762,
     1359893119, 2600822924, 528734635, 1541459225)"

fun sha256_round :: "sha_state \<Rightarrow> u32 \<Rightarrow> u32 \<Rightarrow> sha_state" where
  "sha256_round (a, b, c, d, e, f, g, h) k w =
     (let t1 = h + sha_SIGMA1 e + sha_ch e f g + k + w;
          t2 = sha_SIGMA0 a + sha_maj a b c
      in (t1 + t2, a, b, c, d + t1, e, f, g))"

fun sha256_rounds :: "sha_state \<Rightarrow> u32 list \<Rightarrow> u32 list \<Rightarrow> sha_state" where
  "sha256_rounds s (k # ks) (w # ws) = sha256_rounds (sha256_round s k w) ks ws"
| "sha256_rounds s _ _ = s"

fun words_be :: "bytes \<Rightarrow> u32 list" where
  "words_be (a # b # c # d # xs) =
     (push_bit 24 (ucast a) OR push_bit 16 (ucast b) OR push_bit 8 (ucast c) OR ucast d)
     # words_be xs"
| "words_be _ = []"

fun sha_state_add :: "sha_state \<Rightarrow> sha_state \<Rightarrow> sha_state" where
  "sha_state_add (a, b, c, d, e, f, g, h) (a', b', c', d', e', f', g', h') =
     (a + a', b + b', c + c', d + d', e + e', f + f', g + g', h + h')"

definition sha256_compress :: "sha_state \<Rightarrow> bytes \<Rightarrow> sha_state" where
  "sha256_compress s blk =
     sha_state_add s
       (sha256_rounds s sha256_K (rev (sha256_schedule 48 (rev (words_be blk)))))"

function sha256_blocks :: "sha_state \<Rightarrow> bytes \<Rightarrow> sha_state" where
  "sha256_blocks s bs =
     (if length bs < 64 then s
      else sha256_blocks (sha256_compress s (take 64 bs)) (drop 64 bs))"
  by pat_completeness auto
termination
  by (relation "measure (length \<circ> snd)") auto

declare sha256_blocks.simps [simp del]

definition u64_be :: "u64 \<Rightarrow> bytes" where
  "u64_be w = rev (le64 w)"

definition u32_be :: "u32 \<Rightarrow> bytes" where
  "u32_be w = [ucast (drop_bit 24 w), ucast (drop_bit 16 w), ucast (drop_bit 8 w), ucast w]"

definition sha256_pad :: "bytes \<Rightarrow> bytes" where
  "sha256_pad m =
     m @ [0x80] @ replicate ((119 - length m mod 64) mod 64) 0
     @ u64_be (word_of_nat (8 * length m))"

fun sha_state_bytes :: "sha_state \<Rightarrow> bytes" where
  "sha_state_bytes (a, b, c, d, e, f, g, h) =
     u32_be a @ u32_be b @ u32_be c @ u32_be d @ u32_be e @ u32_be f @ u32_be g @ u32_be h"

definition sha256 :: "bytes \<Rightarrow> bytes" where
  "sha256 m = sha_state_bytes (sha256_blocks sha256_init (sha256_pad m))"

lemma length_sha_state_bytes [simp]: "length (sha_state_bytes s) = 32"
  by (cases s rule: sha_state_bytes.cases) (simp add: u32_be_def)

lemma length_sha256 [simp]: "length (sha256 m) = 32"
  by (simp add: sha256_def)

text \<open>The padded message is a whole number of blocks, so no byte is left unhashed.\<close>

lemma length_sha256_pad: "64 dvd length (sha256_pad m)"
proof -
  define q r where "q = length m div 64" and "r = length m mod 64"
  then have m: "length m = 64 * q + r" and r: "r < 64"
    by simp_all
  have "length (sha256_pad m) = length m + 9 + (119 - length m mod 64) mod 64"
    by (simp add: sha256_pad_def u64_be_def)
  also have "\<dots> = 64 * q + r + 9 + (119 - r) mod 64"
    using r by (simp add: m)
  also have "\<dots> = 64 * (if r < 56 then q + 1 else q + 2)"
  proof (cases "r < 56")
    case True
    then have "(119 - r) mod 64 = 55 - r"
      by (subst le_mod_geq) simp_all
    with True show ?thesis by simp
  next
    case False
    with r show ?thesis by simp
  qed
  finally show ?thesis
    by simp
qed

section \<open>Collisions\<close>

definition collision :: "bytes \<Rightarrow> bytes \<Rightarrow> bool" where
  "collision a b \<longleftrightarrow> a \<noteq> b \<and> sha256 a = sha256 b"

lemma sha256_eqD: "sha256 a = sha256 b \<Longrightarrow> a = b \<or> collision a b"
  by (auto simp: collision_def)

section \<open>The constants\<close>

text \<open>The round constants and the initial state are the first 32 bits of the fractional
  parts of the cube and square roots of the first primes.\<close>

definition int_root :: "nat \<Rightarrow> nat \<Rightarrow> nat" where
  "int_root k p = length (filter (\<lambda>a. a ^ k \<le> p) [1, 2, 3, 4, 5, 6, 7])"

definition root_bits :: "nat \<Rightarrow> nat \<Rightarrow> nat \<Rightarrow> bool" where
  "root_bits k p f \<longleftrightarrow> f < 2 ^ 32 \<and>
     (let r = int_root k p * 2 ^ 32 + f in r ^ k \<le> p * 2 ^ (32 * k) \<and> p * 2 ^ (32 * k) < (r + 1) ^ k)"

definition first_primes :: "nat list" where
  "first_primes =
    [2, 3, 5, 7, 11, 13, 17, 19, 23, 29, 31, 37, 41, 43, 47, 53,
     59, 61, 67, 71, 73, 79, 83, 89, 97, 101, 103, 107, 109, 113, 127, 131,
     137, 139, 149, 151, 157, 163, 167, 173, 179, 181, 191, 193, 197, 199, 211, 223,
     227, 229, 233, 239, 241, 251, 257, 263, 269, 271, 277, 281, 283, 293, 307, 311]"

lemma sha256_K_roots: "list_all2 (root_bits 3) first_primes (map unat sha256_K)"
  by (simp add: first_primes_def sha256_K_def root_bits_def int_root_def)

lemma sha256_init_roots:
  "list_all2 (root_bits 2) (take 8 first_primes)
     (case sha256_init of (a, b, c, d, e, f, g, h) \<Rightarrow> map unat [a, b, c, d, e, f, g, h])"
  by (simp add: first_primes_def sha256_init_def root_bits_def int_root_def)

end
