(* ===== verification/Binding.thy ===== *)
theory Binding
  imports Base58 Sha256
begin

text \<open>
  \<open>gate/binding.go\<close>: the trust-boundary canonicalizer. A payment and a nonce are
  turned into a fixed-width, domain-separated byte string whose SHA-256 digest is
  the intent binding. Shown here: the amount encoding is exact on the whole u128
  range and refuses everything else; a binding is produced exactly for
  well-formed allowlisted payments; and equal bindings are bindings of the same
  payment, up to a SHA-256 collision of two named inputs.
\<close>

definition DomainTagX402 :: string where
  "DomainTagX402 = ''spt-txn/x402-payment/v1''"

definition LayoutVersion :: byte where
  "LayoutVersion = 1"

record Allowlist =
  al_Schemes :: "string \<rightharpoonup> byte"
  al_Networks :: "string \<rightharpoonup> byte"

record PaymentRequirements =
  pr_Scheme :: string
  pr_Network :: string
  pr_Asset :: string
  pr_PayTo :: string
  pr_MaxAmountRequired :: string
  pr_Resource :: string

definition amount16LE :: "int \<Rightarrow> goerror + bytes" where
  "amount16LE a =
     (if a < 0 then Inl (Sentinel ErrAmountNegative)
      else if 128 < big_BitLen (nat \<bar>a\<bar>) then Inl (Sentinel ErrAmountOverflow)
      else
        let be = big_Bytes (nat \<bar>a\<bar>)
        in Inr (rev be @ replicate (16 - length be) 0))"

text \<open>The bytes written to the hash, in the order of the \<open>h.Write\<close> calls.\<close>

definition binding_preimage ::
  "byte \<Rightarrow> byte \<Rightarrow> bytes \<Rightarrow> bytes \<Rightarrow> bytes \<Rightarrow> string \<Rightarrow> bytes \<Rightarrow> bytes" where
  "binding_preimage schemeTag networkTag asset payTo amt resource nonce =
     bytes_of DomainTagX402 @ [0x00] @ [LayoutVersion] @ [schemeTag] @ [networkTag]
     @ asset @ payTo @ amt @ sha256 (bytes_of resource) @ nonce"

definition computeBindingRaw ::
  "byte \<Rightarrow> byte \<Rightarrow> bytes \<Rightarrow> bytes \<Rightarrow> int \<Rightarrow> string \<Rightarrow> bytes \<Rightarrow> bytes \<times> goerror option" where
  "computeBindingRaw schemeTag networkTag asset payTo amount resource nonce =
     (case amount16LE amount of
        Inl e \<Rightarrow> (zero32, Some e)
      | Inr amt \<Rightarrow>
          (sha256 (binding_preimage schemeTag networkTag asset payTo amt resource nonce), None))"

definition ComputeBinding ::
  "Allowlist \<Rightarrow> PaymentRequirements \<Rightarrow> bytes \<Rightarrow> bytes \<times> goerror option" where
  "ComputeBinding al pr nonce =
     (case al_Schemes al (pr_Scheme pr) of
        None \<Rightarrow> (zero32, Some (Sentinel ErrUnknownScheme))
      | Some schemeTag \<Rightarrow>
     (case al_Networks al (pr_Network pr) of
        None \<Rightarrow> (zero32, Some (Sentinel ErrUnknownNetwork))
      | Some networkTag \<Rightarrow>
     (case decodePubkey32 (pr_Asset pr) of
        Inl e \<Rightarrow> (zero32, Some e)
      | Inr asset \<Rightarrow>
     (case decodePubkey32 (pr_PayTo pr) of
        Inl e \<Rightarrow> (zero32, Some e)
      | Inr payTo \<Rightarrow>
     (case big_SetString10 (pr_MaxAmountRequired pr) of
        None \<Rightarrow> (zero32, Some (Sentinel ErrBadAmount))
      | Some amount \<Rightarrow>
          computeBindingRaw schemeTag networkTag asset payTo amount (pr_Resource pr) nonce)))))"

section \<open>Amounts\<close>

text \<open>The number a little-endian byte string denotes.\<close>

definition le_value :: "bytes \<Rightarrow> nat" where
  "le_value bs = big_SetBytes (rev bs)"

lemma amount16LE_Inr:
  assumes "0 \<le> a" and "a < 2 ^ 128"
  shows "\<exists>bs. amount16LE a = Inr bs \<and> length bs = 16 \<and> int (le_value bs) = a"
proof -
  let ?n = "nat \<bar>a\<bar>"
  have n: "?n < 2 ^ 128"
    using assms by (simp add: nat_less_iff)
  then have len: "length (big_Bytes ?n) \<le> 16"
    by (simp add: length_big_Bytes length_digits_le)
  from n have "\<not> 128 < big_BitLen ?n"
    by (simp add: big_BitLen_le_iff not_less)
  with assms(1) have "amount16LE a = Inr (rev (big_Bytes ?n) @ replicate (16 - length (big_Bytes ?n)) 0)"
    by (simp add: amount16LE_def Let_def)
  moreover have "le_value (rev (big_Bytes ?n) @ replicate k 0) = ?n" for k
    by (simp add: le_value_def big_SetBytes_def)
  ultimately show ?thesis
    using assms(1) len by auto
qed

lemma amount16LE_Inl:
  "a < 0 \<Longrightarrow> amount16LE a = Inl (Sentinel ErrAmountNegative)"
  "2 ^ 128 \<le> a \<Longrightarrow> amount16LE a = Inl (Sentinel ErrAmountOverflow)"
proof -
  show "a < 0 \<Longrightarrow> amount16LE a = Inl (Sentinel ErrAmountNegative)"
    by (simp add: amount16LE_def)
  assume a: "2 ^ 128 \<le> a"
  then have "\<not> nat \<bar>a\<bar> < 2 ^ 128"
    by (simp add: nat_less_iff)
  then have "128 < big_BitLen (nat \<bar>a\<bar>)"
    using big_BitLen_le_iff [of "nat \<bar>a\<bar>" 128] by (simp add: not_le)
  with a show "amount16LE a = Inl (Sentinel ErrAmountOverflow)"
    by (simp add: amount16LE_def)
qed

lemma amount16LE_InrD:
  assumes "amount16LE a = Inr bs"
  shows "0 \<le> a" "a < 2 ^ 128" "length bs = 16" "int (le_value bs) = a"
proof -
  show "0 \<le> a"
    using assms amount16LE_Inl(1) [of a] by (cases "a < 0") auto
  moreover show "a < 2 ^ 128"
    using assms amount16LE_Inl(2) [of a] by (cases "2 ^ 128 \<le> a") auto
  ultimately show "length bs = 16" "int (le_value bs) = a"
    using amount16LE_Inr [of a] assms by auto
qed

text \<open>\<open>amount16LE\<close> never truncates: the 16 bytes it returns denote exactly the
  amount, it returns them for every amount of the u128 range, and outside that
  range it refuses with the error of the side on which the amount lies.\<close>

lemma amount16LE_exact:
  "case amount16LE a of
     Inl e \<Rightarrow> (if a < 0 then e = Sentinel ErrAmountNegative
               else 2 ^ 128 \<le> a \<and> e = Sentinel ErrAmountOverflow)
   | Inr bs \<Rightarrow> 0 \<le> a \<and> a < 2 ^ 128 \<and> length bs = 16 \<and> int (le_value bs) = a"
proof (cases "amount16LE a")
  case (Inl e)
  then show ?thesis
    using amount16LE_Inr [of a] amount16LE_Inl [of a] by (cases "a < 0"; cases "2 ^ 128 \<le> a") auto
next
  case (Inr bs)
  then show ?thesis
    using amount16LE_InrD [of a bs] by simp
qed

section \<open>The layout\<close>

lemma length_DomainTagX402 [simp]: "length DomainTagX402 = 23"
  by (simp add: DomainTagX402_def)

lemma length_binding_preimage [layout_simps]:
  "length asset = 32 \<Longrightarrow> length payTo = 32 \<Longrightarrow> length amt = 16 \<Longrightarrow> length nonce = 32 \<Longrightarrow>
   length (binding_preimage st nt asset payTo amt resource nonce) = 171"
  by (simp add: binding_preimage_def)

text \<open>Fixed widths make the layout injective in every field.\<close>

lemma binding_preimage_eqD:
  assumes "binding_preimage st nt asset payTo amt resource nonce
      = binding_preimage st' nt' asset' payTo' amt' resource' nonce'"
    and "length asset = 32" "length asset' = 32" "length payTo = 32" "length payTo' = 32"
    and "length amt = 16" "length amt' = 16"
  shows "st = st' \<and> nt = nt' \<and> asset = asset' \<and> payTo = payTo' \<and> amt = amt'
    \<and> sha256 (bytes_of resource) = sha256 (bytes_of resource') \<and> nonce = nonce'"
  using assms by (simp add: binding_preimage_def layout_simps)

lemma amount16LE_inj: "amount16LE a = Inr bs \<Longrightarrow> amount16LE a' = Inr bs \<Longrightarrow> a = a'"
  using amount16LE_InrD(4) by metis

section \<open>When a binding exists\<close>

text \<open>The payments that can be bound: allowlisted, with two 32-byte addresses and a
  base-10 amount of the u128 range.\<close>

definition bindable :: "Allowlist \<Rightarrow> PaymentRequirements \<Rightarrow> bool" where
  "bindable al pr \<longleftrightarrow>
     al_Schemes al (pr_Scheme pr) \<noteq> None \<and> al_Networks al (pr_Network pr) \<noteq> None
     \<and> (\<exists>asset. length asset = 32 \<and> pr_Asset pr = EncodeBase58 asset)
     \<and> (\<exists>payTo. length payTo = 32 \<and> pr_PayTo pr = EncodeBase58 payTo)
     \<and> (\<exists>a. big_SetString10 (pr_MaxAmountRequired pr) = Some a \<and> 0 \<le> a \<and> a < 2 ^ 128)"

text \<open>The input of the outer hash, where \<open>ComputeBinding\<close> reaches it.\<close>

definition binding_input :: "Allowlist \<Rightarrow> PaymentRequirements \<Rightarrow> bytes \<Rightarrow> bytes option" where
  "binding_input al pr nonce =
     (case (al_Schemes al (pr_Scheme pr), al_Networks al (pr_Network pr),
            decodePubkey32 (pr_Asset pr), decodePubkey32 (pr_PayTo pr),
            map_option amount16LE (big_SetString10 (pr_MaxAmountRequired pr))) of
        (Some st, Some nt, Inr asset, Inr payTo, Some (Inr amt)) \<Rightarrow>
          Some (binding_preimage st nt asset payTo amt (pr_Resource pr) nonce)
      | _ \<Rightarrow> None)"

lemma ComputeBinding_input:
  "(\<exists>p. binding_input al pr nonce = Some p \<and> ComputeBinding al pr nonce = (sha256 p, None))
   \<or> binding_input al pr nonce = None \<and> (\<exists>e. ComputeBinding al pr nonce = (zero32, Some e))"
  by (auto simp: binding_input_def ComputeBinding_def computeBindingRaw_def
      split: option.splits sum.splits)

lemma ComputeBinding_None_iff:
  "ComputeBinding al pr nonce = (b, None)
     \<longleftrightarrow> (\<exists>p. binding_input al pr nonce = Some p \<and> b = sha256 p)"
  using ComputeBinding_input [of al pr nonce] by auto

lemma length_ComputeBinding [simp]: "length (fst (ComputeBinding al pr nonce)) = 32"
  using ComputeBinding_input [of al pr nonce] by auto

lemma binding_input_SomeE:
  assumes "binding_input al pr nonce = Some p"
  obtains st nt asset payTo a amt where
    "al_Schemes al (pr_Scheme pr) = Some st" "al_Networks al (pr_Network pr) = Some nt"
    "pr_Asset pr = EncodeBase58 asset" "length asset = 32"
    "pr_PayTo pr = EncodeBase58 payTo" "length payTo = 32"
    "big_SetString10 (pr_MaxAmountRequired pr) = Some a"
    "amount16LE a = Inr amt" "length amt = 16"
    "p = binding_preimage st nt asset payTo amt (pr_Resource pr) nonce"
proof -
  from assms obtain st nt asset payTo a amt where
    "al_Schemes al (pr_Scheme pr) = Some st" "al_Networks al (pr_Network pr) = Some nt"
    "decodePubkey32 (pr_Asset pr) = Inr asset" "decodePubkey32 (pr_PayTo pr) = Inr payTo"
    "big_SetString10 (pr_MaxAmountRequired pr) = Some a" "amount16LE a = Inr amt"
    "p = binding_preimage st nt asset payTo amt (pr_Resource pr) nonce"
    by (auto simp: binding_input_def split: option.splits sum.splits)
  then show thesis
    using that amount16LE_InrD(3) by (simp add: decodePubkey32_Inr_iff)
qed

lemma binding_input_bindable: "binding_input al pr nonce \<noteq> None \<longleftrightarrow> bindable al pr"
proof
  assume "binding_input al pr nonce \<noteq> None"
  then obtain p where "binding_input al pr nonce = Some p"
    by auto
  then show "bindable al pr"
    by (rule binding_input_SomeE) (auto simp: bindable_def dest: amount16LE_InrD(1,2))
next
  assume b: "bindable al pr"
  then obtain a where a: "big_SetString10 (pr_MaxAmountRequired pr) = Some a"
    "0 \<le> a" "a < 2 ^ 128"
    by (auto simp: bindable_def)
  then obtain amt where "amount16LE a = Inr amt"
    using amount16LE_Inr by blast
  moreover obtain asset payTo where "decodePubkey32 (pr_Asset pr) = Inr asset"
    "decodePubkey32 (pr_PayTo pr) = Inr payTo"
    using b by (auto simp: bindable_def decodePubkey32_Inr_iff)
  ultimately show "binding_input al pr nonce \<noteq> None"
    using a b by (auto simp: binding_input_def bindable_def)
qed

text \<open>C30. \<open>ComputeBinding\<close> fails closed: it succeeds exactly on the bindable
  payments, and every failure carries an error and the all-zero binding.\<close>

theorem ComputeBinding_fail_closed:
  "(snd (ComputeBinding al pr nonce) = None \<longleftrightarrow> bindable al pr)
   \<and> (bindable al pr \<or> fst (ComputeBinding al pr nonce) = zero32)"
  using ComputeBinding_input [of al pr nonce] binding_input_bindable [of al pr nonce] by auto

text \<open>C8. The binding pins the payment. If two calls, possibly under different
  allowlists, return the same binding, then scheme and network tag, asset,
  recipient, amount, resource and nonce agree, or one of two concrete pairs of
  byte strings (the two resources, the two hash inputs) is a SHA-256 collision.\<close>

theorem ComputeBinding_binds:
  assumes 1: "ComputeBinding al pr n = (b, None)"
    and 2: "ComputeBinding al' pr' n' = (b, None)"
  shows "al_Schemes al (pr_Scheme pr) = al_Schemes al' (pr_Scheme pr')
      \<and> al_Networks al (pr_Network pr) = al_Networks al' (pr_Network pr')
      \<and> pr_Asset pr = pr_Asset pr' \<and> pr_PayTo pr = pr_PayTo pr'
      \<and> big_SetString10 (pr_MaxAmountRequired pr) = big_SetString10 (pr_MaxAmountRequired pr')
      \<and> pr_Resource pr = pr_Resource pr' \<and> n = n'
    \<or> collision (bytes_of (pr_Resource pr)) (bytes_of (pr_Resource pr'))
    \<or> collision (the (binding_input al pr n)) (the (binding_input al' pr' n'))"
proof -
  from 1 obtain p where p: "binding_input al pr n = Some p" "b = sha256 p"
    by (auto simp: ComputeBinding_None_iff)
  from 2 obtain p' where p': "binding_input al' pr' n' = Some p'" "b = sha256 p'"
    by (auto simp: ComputeBinding_None_iff)
  from p(2) p'(2) have "p = p' \<or> collision p p'"
    by (intro sha256_eqD) simp
  then show ?thesis
  proof
    assume "collision p p'"
    with p(1) p'(1) show ?thesis by simp
  next
    assume eq: "p = p'"
    from p(1) obtain st nt asset payTo a amt where f:
      "al_Schemes al (pr_Scheme pr) = Some st" "al_Networks al (pr_Network pr) = Some nt"
      "pr_Asset pr = EncodeBase58 asset" "length asset = 32"
      "pr_PayTo pr = EncodeBase58 payTo" "length payTo = 32"
      "big_SetString10 (pr_MaxAmountRequired pr) = Some a"
      "amount16LE a = Inr amt" "length amt = 16"
      "p = binding_preimage st nt asset payTo amt (pr_Resource pr) n"
      by (rule binding_input_SomeE)
    from p'(1) obtain st' nt' asset' payTo' a' amt' where f':
      "al_Schemes al' (pr_Scheme pr') = Some st'" "al_Networks al' (pr_Network pr') = Some nt'"
      "pr_Asset pr' = EncodeBase58 asset'" "length asset' = 32"
      "pr_PayTo pr' = EncodeBase58 payTo'" "length payTo' = 32"
      "big_SetString10 (pr_MaxAmountRequired pr') = Some a'"
      "amount16LE a' = Inr amt'" "length amt' = 16"
      "p' = binding_preimage st' nt' asset' payTo' amt' (pr_Resource pr') n'"
      by (rule binding_input_SomeE)
    from eq f f' have fields: "st = st' \<and> nt = nt' \<and> asset = asset' \<and> payTo = payTo' \<and> amt = amt'
        \<and> sha256 (bytes_of (pr_Resource pr)) = sha256 (bytes_of (pr_Resource pr')) \<and> n = n'"
      by (intro binding_preimage_eqD) simp_all
    then have "a = a'"
      using f(8) f'(8) amount16LE_inj by blast
    with fields f f' show ?thesis
      using sha256_eqD [of "bytes_of (pr_Resource pr)" "bytes_of (pr_Resource pr')"] by auto
  qed
qed

text \<open>A sample deployment and payment, with a parameter for the spelling of the amount.\<close>

definition sample_allowlist :: Allowlist where
  "sample_allowlist = \<lparr>al_Schemes = [''exact'' \<mapsto> 1], al_Networks = [''solana:devnet'' \<mapsto> 2]\<rparr>"

definition sample_payment :: "string \<Rightarrow> PaymentRequirements" where
  "sample_payment amount =
     \<lparr>pr_Scheme = ''exact'', pr_Network = ''solana:devnet'',
      pr_Asset = EncodeBase58 (replicate 32 0x11), pr_PayTo = EncodeBase58 (replicate 32 0x22),
      pr_MaxAmountRequired = amount, pr_Resource = ''https://api.example.com/resource''\<rparr>"

lemma SetString10_samples:
  "big_SetString10 ''1000000'' = Some 1000000" "big_SetString10 ''+01000000'' = Some 1000000"
  by (simp_all add: big_SetString10_def signed_digits_def dec_digits_def is_dec_def dec_val_def
      undigits_def)

lemma sample_payment_sel [simp]:
  "pr_Scheme (sample_payment a) = ''exact''" "pr_Network (sample_payment a) = ''solana:devnet''"
  "pr_Asset (sample_payment a) = EncodeBase58 (replicate 32 0x11)"
  "pr_PayTo (sample_payment a) = EncodeBase58 (replicate 32 0x22)"
  "pr_MaxAmountRequired (sample_payment a) = a"
  "pr_Resource (sample_payment a) = ''https://api.example.com/resource''"
  by (simp_all add: sample_payment_def)

lemma sample_bindable:
  "bindable sample_allowlist (sample_payment ''1000000'')"
  "bindable sample_allowlist (sample_payment ''+01000000'')"
  unfolding bindable_def sample_payment_sel SetString10_samples
  by (simp_all add: sample_allowlist_def) (metis length_replicate)+

lemma sample_input:
  "binding_input sample_allowlist (sample_payment ''+01000000'') n
     = binding_input sample_allowlist (sample_payment ''1000000'') n"
  unfolding binding_input_def sample_payment_sel SetString10_samples ..

theorem ComputeBinding_binds_witness:
  "big_SetString10 ''1000000'' = big_SetString10 ''+01000000''
    \<or> collision (bytes_of ''https://api.example.com/resource'')
        (bytes_of ''https://api.example.com/resource'')
    \<or> collision (the (binding_input sample_allowlist (sample_payment ''1000000'') zero32))
        (the (binding_input sample_allowlist (sample_payment ''+01000000'') zero32))"
proof -
  obtain p where p: "binding_input sample_allowlist (sample_payment ''1000000'') zero32 = Some p"
    using sample_bindable(1) binding_input_bindable by blast
  then have "ComputeBinding sample_allowlist (sample_payment ''1000000'') zero32 = (sha256 p, None)"
    and "ComputeBinding sample_allowlist (sample_payment ''+01000000'') zero32 = (sha256 p, None)"
    by (simp_all add: ComputeBinding_None_iff sample_input)
  from ComputeBinding_binds [OF this] show ?thesis
    by auto
qed

end
