(* ===== verification/Gate.thy ===== *)
theory Gate
  imports Binding
begin

text \<open>
  \<open>gate/gate.go\<close> and \<open>gate/mem_spendlog.go\<close>: the decision function and the
  in-memory spend log. The two interfaces the gate calls are functions on an
  abstract world \<open>'w\<close>: a policy and a spend log each take the world and return
  their error (\<open>None\<close> for nil) and the world after the call. The locale
  \<open>spend_store\<close> states what \<open>SpendLog\<close> promises, \<open>gate_env\<close> adds a policy that
  does not unspend nonces; the single-use lemmas are proved there once and
  \<open>MemSpendLog\<close> is shown to provide the contract.
\<close>

datatype DecisionClass = Allow | DenyViolation | DenyUnavailable | UnmappedClass int

fun DecisionClass_String :: "DecisionClass \<Rightarrow> string" where
  "DecisionClass_String Allow = ''ALLOW''"
| "DecisionClass_String DenyViolation = ''DENY_VIOLATION''"
| "DecisionClass_String DenyUnavailable = ''DENY_UNAVAILABLE''"
| "DecisionClass_String (UnmappedClass c) = ''UNKNOWN''"

record Token =
  tok_Nonce :: bytes
  tok_Expiry :: time

type_synonym 'w PolicyVerifier = "PaymentRequirements \<Rightarrow> Token \<Rightarrow> 'w \<Rightarrow> goerror option \<times> 'w"

type_synonym 'w SpendLog = "bytes \<Rightarrow> 'w \<Rightarrow> goerror option \<times> 'w"

text \<open>\<open>fmt.Errorf("%w: %v", errUnavailable, err)\<close>: the sentinel is wrapped, the
  argument is only rendered.\<close>

definition Unavailable :: "goerror option \<Rightarrow> goerror" where
  "Unavailable err =
     WrapError
       (Error (Sentinel errUnavailable) @ '': ''
        @ (case err of None \<Rightarrow> ''<nil>'' | Some e \<Rightarrow> Error e))
       [Sentinel errUnavailable]"

definition isUnavailable :: "goerror \<Rightarrow> bool" where
  "isUnavailable err = errors_Is err errUnavailable"

record Decision =
  d_Class :: DecisionClass
  d_Reason :: string
  d_Binding :: bytes

definition Evaluate ::
  "Allowlist \<Rightarrow> PaymentRequirements \<Rightarrow> Token \<Rightarrow> 'w PolicyVerifier \<Rightarrow> 'w SpendLog \<Rightarrow> time
     \<Rightarrow> 'w \<Rightarrow> Decision \<times> 'w" where
  "Evaluate al pr tok pol log now w =
     (case ComputeBinding al pr (tok_Nonce tok) of (binding, berr) \<Rightarrow>
      (case berr of
         Some err \<Rightarrow> (\<lparr>d_Class = DenyViolation, d_Reason = ''binding: '' @ Error err,
                       d_Binding = binding\<rparr>, w)
       | None \<Rightarrow>
      if \<not> IsZero (tok_Expiry tok) \<and> After now (tok_Expiry tok)
      then (\<lparr>d_Class = DenyViolation, d_Reason = ''token expired'', d_Binding = binding\<rparr>, w)
      else
      (case pol pr tok w of (perr, w1) \<Rightarrow>
      (case perr of
         Some err \<Rightarrow>
           (if isUnavailable err
            then (\<lparr>d_Class = DenyUnavailable, d_Reason = ''policy unavailable: '' @ Error err,
                   d_Binding = binding\<rparr>, w1)
            else (\<lparr>d_Class = DenyViolation, d_Reason = ''policy: '' @ Error err,
                   d_Binding = binding\<rparr>, w1))
       | None \<Rightarrow>
      (case log (tok_Nonce tok) w1 of (serr, w2) \<Rightarrow>
      (case serr of
         Some err \<Rightarrow>
           (if errors_Is err ErrReplay
            then (\<lparr>d_Class = DenyViolation, d_Reason = ''replay: nonce already spent'',
                   d_Binding = binding\<rparr>, w2)
            else (\<lparr>d_Class = DenyUnavailable,
                   d_Reason = ''spend-log unavailable: '' @ Error err,
                   d_Binding = binding\<rparr>, w2))
       | None \<Rightarrow> (\<lparr>d_Class = Allow, d_Reason = ''in-scope, single-use, bound'',
                    d_Binding = binding\<rparr>, w2)))))))"

section \<open>The in-memory spend log\<close>

text \<open>\<open>map[[32]byte]struct{}\<close> is a set; the mutex makes \<open>Spend\<close> one atomic step.\<close>

record MemSpendLog =
  seen :: "bytes set"

definition NewMemSpendLog :: MemSpendLog where
  "NewMemSpendLog = \<lparr>seen = {}\<rparr>"

definition MemSpendLog_Spend :: "bytes \<Rightarrow> MemSpendLog \<Rightarrow> goerror option \<times> MemSpendLog" where
  "MemSpendLog_Spend nonce m =
     (if nonce \<in> seen m then (Some (Sentinel ErrReplay), m)
      else (None, m\<lparr>seen := insert nonce (seen m)\<rparr>))"

section \<open>Outcomes of one decision\<close>

text \<open>The branches of \<open>Evaluate\<close>, by the point at which the decision is taken.\<close>

definition expired :: "Token \<Rightarrow> time \<Rightarrow> bool" where
  "expired tok now \<longleftrightarrow> \<not> IsZero (tok_Expiry tok) \<and> After now (tok_Expiry tok)"

lemma isUnavailable_Unavailable [simp]: "isUnavailable (Unavailable err)"
  by (simp add: isUnavailable_def Unavailable_def)

lemma Evaluate_binding [simp]:
  "d_Binding (fst (Evaluate al pr tok pol log now w)) = fst (ComputeBinding al pr (tok_Nonce tok))"
  by (simp add: Evaluate_def split: prod.splits option.splits)

lemma ComputeBinding_None_bindable:
  "snd (ComputeBinding al pr nonce) = None \<longleftrightarrow> bindable al pr"
  using ComputeBinding_input [of al pr nonce] binding_input_bindable [of al pr nonce] by auto

lemma Evaluate_refused:
  "\<not> bindable al pr \<or> expired tok now \<Longrightarrow>
     d_Class (fst (Evaluate al pr tok pol log now w)) = DenyViolation
     \<and> snd (Evaluate al pr tok pol log now w) = w"
  using ComputeBinding_None_bindable [of al pr "tok_Nonce tok"]
  by (auto simp: Evaluate_def expired_def split: prod.splits option.splits)

lemma Evaluate_expired:
  assumes "bindable al pr" and "expired tok now"
  shows "Evaluate al pr tok pol log now w =
    (\<lparr>d_Class = DenyViolation, d_Reason = ''token expired'', d_Binding = fst (ComputeBinding al pr (tok_Nonce tok))\<rparr>, w)"
  using assms ComputeBinding_None_bindable [of al pr "tok_Nonce tok"]
  by (auto simp: Evaluate_def expired_def split: prod.splits)

lemma Evaluate_policy:
  assumes "bindable al pr" and "\<not> expired tok now" and "pol pr tok w = (Some err, w1)"
  shows "d_Class (fst (Evaluate al pr tok pol log now w))
        = (if isUnavailable err then DenyUnavailable else DenyViolation)
     \<and> snd (Evaluate al pr tok pol log now w) = w1"
  using assms ComputeBinding_None_bindable [of al pr "tok_Nonce tok"]
  by (auto simp: Evaluate_def expired_def split: prod.splits option.splits)

lemma Evaluate_spend:
  assumes "bindable al pr" and "\<not> expired tok now" and "pol pr tok w = (None, w1)"
    and "log (tok_Nonce tok) w1 = (serr, w2)"
  shows "d_Class (fst (Evaluate al pr tok pol log now w))
        = (case serr of None \<Rightarrow> Allow
           | Some err \<Rightarrow> if errors_Is err ErrReplay then DenyViolation else DenyUnavailable)
     \<and> snd (Evaluate al pr tok pol log now w) = w2"
  using assms ComputeBinding_None_bindable [of al pr "tok_Nonce tok"]
  by (auto simp: Evaluate_def expired_def split: prod.splits option.splits)

lemmas Evaluate_branches = Evaluate_refused Evaluate_policy Evaluate_spend

lemma Evaluate_cases [consumes 1, case_names refused policy spend]:
  assumes "Evaluate al pr tok pol log now w = (d, w')"
  obtains "\<not> bindable al pr \<or> expired tok now" "d_Class d = DenyViolation" "w' = w"
  | err where "bindable al pr" "\<not> expired tok now" "pol pr tok w = (Some err, w')"
      "d_Class d = (if isUnavailable err then DenyUnavailable else DenyViolation)"
  | w1 serr where "bindable al pr" "\<not> expired tok now" "pol pr tok w = (None, w1)"
      "log (tok_Nonce tok) w1 = (serr, w')"
      "d_Class d = (case serr of None \<Rightarrow> Allow
           | Some err \<Rightarrow> if errors_Is err ErrReplay then DenyViolation else DenyUnavailable)"
proof (cases "\<not> bindable al pr \<or> expired tok now")
  case True
  with assms Evaluate_refused [OF True, of pol log w] that(1) show thesis
    by simp
next
  case False
  obtain perr w1 where pol: "pol pr tok w = (perr, w1)"
    by (cases "pol pr tok w")
  obtain serr w2 where log: "log (tok_Nonce tok) w1 = (serr, w2)"
    by (cases "log (tok_Nonce tok) w1")
  show thesis
  proof (cases perr)
    case None
    with False pol log assms Evaluate_spend [of al pr tok now pol w w1 log serr w2] that(3)
    show thesis by simp
  next
    case (Some err)
    with False pol assms Evaluate_policy [of al pr tok now pol w err w1 log] that(2)
    show thesis by simp
  qed
qed

lemma Evaluate_mapped: "d_Class (fst (Evaluate al pr tok pol log now w)) \<noteq> UnmappedClass c"
  by (cases "Evaluate al pr tok pol log now w" rule: prod.exhaust)
    (auto elim!: Evaluate_cases split: option.splits if_splits)

text \<open>C1. ALLOW is reached exactly when every check passes: the payment can be
  bound, the token has no expiry or has not passed it, the policy returns nil, and
  the spend log accepts the nonce in the world the policy left. Every other path
  denies.\<close>

theorem Evaluate_Allow_iff:
  "d_Class (fst (Evaluate al pr tok pol log now w)) = Allow \<longleftrightarrow>
     bindable al pr \<and> \<not> (\<not> IsZero (tok_Expiry tok) \<and> After now (tok_Expiry tok))
     \<and> fst (pol pr tok w) = None
     \<and> fst (log (tok_Nonce tok) (snd (pol pr tok w))) = None"
proof (cases "Evaluate al pr tok pol log now w")
  case (Pair d w')
  show ?thesis
    unfolding Pair using Pair
    by (cases rule: Evaluate_cases)
      (auto simp: expired_def split: if_splits option.splits)
qed

text \<open>C26. Attack and outage stay apart: \<open>DENY_UNAVAILABLE\<close> is answered exactly when
  the request was bindable and fresh and then the policy reported an outage, or the
  policy agreed and the spend log failed with something other than a replay. In
  particular a violation is never reported as an outage and conversely.\<close>

theorem Evaluate_DenyUnavailable_iff:
  "d_Class (fst (Evaluate al pr tok pol log now w)) = DenyUnavailable \<longleftrightarrow>
     bindable al pr \<and> \<not> expired tok now
     \<and> (case pol pr tok w of
          (Some perr, _) \<Rightarrow> isUnavailable perr
        | (None, w1) \<Rightarrow> (case fst (log (tok_Nonce tok) w1) of
              Some serr \<Rightarrow> \<not> errors_Is serr ErrReplay
            | None \<Rightarrow> False))"
proof (cases "Evaluate al pr tok pol log now w")
  case (Pair d w')
  show ?thesis
    unfolding Pair using Pair
    by (cases rule: Evaluate_cases) (auto split: if_splits option.splits)
qed

section \<open>Single use\<close>

text \<open>A run of the gate over a sequence of requests, each with its own allowlist,
  payment, token and clock reading; the result pairs each nonce with its decision.\<close>

type_synonym gate_request = "Allowlist \<times> PaymentRequirements \<times> Token \<times> time"

fun Evaluate_seq ::
  "'w PolicyVerifier \<Rightarrow> 'w SpendLog \<Rightarrow> gate_request list \<Rightarrow> 'w \<Rightarrow> (bytes \<times> Decision) list \<times> 'w" where
  "Evaluate_seq pol log [] w = ([], w)"
| "Evaluate_seq pol log ((al, pr, tok, now) # rs) w =
     (case Evaluate al pr tok pol log now w of (d, w1) \<Rightarrow>
      (case Evaluate_seq pol log rs w1 of (ds, w2) \<Rightarrow> ((tok_Nonce tok, d) # ds, w2)))"

definition allowed_nonces :: "(bytes \<times> Decision) list \<Rightarrow> bytes list" where
  "allowed_nonces ds = map fst (filter (\<lambda>(n, d). d_Class d = Allow) ds)"

lemma allowed_nonces_simps [simp]:
  "allowed_nonces [] = []"
  "allowed_nonces ((n, d) # ds) =
     (if d_Class d = Allow then n # allowed_nonces ds else allowed_nonces ds)"
  by (simp_all add: allowed_nonces_def)

text \<open>What \<open>SpendLog\<close> promises: a nil error means the nonce was not spent before and
  is from now on; no call forgets a nonce.\<close>

locale spend_store =
  fixes spend :: "'w SpendLog"
    and spent :: "'w \<Rightarrow> bytes set"
  assumes spend_nil: "spend n w = (None, w') \<Longrightarrow> n \<notin> spent w \<and> spent w' = insert n (spent w)"
    and spend_mono: "spend n w = (e, w') \<Longrightarrow> spent w \<subseteq> spent w'"
begin

lemma spend_replayed: "n \<in> spent w \<Longrightarrow> \<exists>e. fst (spend n w) = Some e"
  using spend_nil [of n w "snd (spend n w)"] by (cases "fst (spend n w)") (auto simp: prod_eq_iff)

end

text \<open>A gate environment: a spend log and a policy that does not forget nonces.\<close>

locale gate_env = spend_store +
  fixes pol :: "'a PolicyVerifier"
  assumes pol_mono: "pol pr tok w = (e, w') \<Longrightarrow> spent w \<subseteq> spent w'"
begin

lemma Evaluate_mono: "Evaluate al pr tok pol spend now w = (d, w') \<Longrightarrow> spent w \<subseteq> spent w'"
  by (erule Evaluate_cases) (blast dest: pol_mono spend_mono)+

lemma Evaluate_Allow_spends:
  assumes "Evaluate al pr tok pol spend now w = (d, w')" and "d_Class d = Allow"
  shows "tok_Nonce tok \<notin> spent w \<and> tok_Nonce tok \<in> spent w'"
  using assms
proof (cases rule: Evaluate_cases)
  case (spend w1 serr)
  with assms(2) have "serr = None"
    by (auto split: option.splits if_splits)
  with spend have "tok_Nonce tok \<notin> spent w1 \<and> tok_Nonce tok \<in> spent w'"
    by (auto dest: spend_nil)
  moreover have "spent w \<subseteq> spent w1"
    using spend(3) by (rule pol_mono)
  ultimately show ?thesis
    by auto
qed (auto split: if_splits)

lemma Evaluate_seq_single_use:
  assumes "Evaluate_seq pol spend rs w = (ds, w')"
  shows "distinct (allowed_nonces ds) \<and> set (allowed_nonces ds) \<inter> spent w = {}"
  using assms
proof (induction rs arbitrary: w w' ds)
  case Nil
  then show ?case by simp
next
  case (Cons r rs)
  obtain al pr tok now where r: "r = (al, pr, tok, now)"
    by (cases r)
  obtain d w1 where d: "Evaluate al pr tok pol spend now w = (d, w1)"
    by fastforce
  obtain ds' w2 where ds': "Evaluate_seq pol spend rs w1 = (ds', w2)"
    by fastforce
  have "ds = (tok_Nonce tok, d) # ds'"
    using Cons.prems by (simp add: r d ds')
  moreover have "distinct (allowed_nonces ds') \<and> set (allowed_nonces ds') \<inter> spent w1 = {}"
    using ds' by (rule Cons.IH)
  moreover have "spent w \<subseteq> spent w1"
    using d by (rule Evaluate_mono)
  ultimately show ?case
    using Evaluate_Allow_spends [OF d] by auto
qed

end

text \<open>A deployment with \<open>MemSpendLog\<close>: the world is the log beside whatever state the
  policy has; the policy cannot reach the log.\<close>

definition mem_spend :: "(MemSpendLog \<times> 'p) SpendLog" where
  "mem_spend n w = (case MemSpendLog_Spend n (fst w) of (e, m) \<Rightarrow> (e, (m, snd w)))"

definition beside_mem :: "'p PolicyVerifier \<Rightarrow> (MemSpendLog \<times> 'p) PolicyVerifier" where
  "beside_mem pol pr tok w = (case pol pr tok (snd w) of (e, p) \<Rightarrow> (e, (fst w, p)))"

abbreviation mem_spent :: "MemSpendLog \<times> 'p \<Rightarrow> bytes set" where
  "mem_spent w \<equiv> seen (fst w)"

lemma mem_spend_eq:
  "mem_spend n (m, p) = (if n \<in> seen m then (Some (Sentinel ErrReplay), (m, p))
     else (None, (m\<lparr>seen := insert n (seen m)\<rparr>, p)))"
  by (simp add: mem_spend_def MemSpendLog_Spend_def)

interpretation mem: gate_env mem_spend mem_spent "beside_mem pol" for pol :: "'p PolicyVerifier"
proof unfold_locales
  fix n :: bytes and w w' :: "MemSpendLog \<times> 'p" and e
  show "mem_spend n w = (None, w') \<Longrightarrow> n \<notin> mem_spent w \<and> mem_spent w' = insert n (mem_spent w)"
    by (cases w) (auto simp: mem_spend_eq split: if_splits)
  show "mem_spend n w = (e, w') \<Longrightarrow> mem_spent w \<subseteq> mem_spent w'"
    by (cases w) (auto simp: mem_spend_eq split: if_splits)
next
  fix pr tok e and w w' :: "MemSpendLog \<times> 'p"
  show "beside_mem pol pr tok w = (e, w') \<Longrightarrow> mem_spent w \<subseteq> mem_spent w'"
    by (auto simp: beside_mem_def split: prod.splits)
qed

text \<open>Single use: over any sequence of requests decided with one in-memory spend
  log and any policy, no nonce is allowed twice, and none that the log already
  held is allowed at all.\<close>

lemma MemSpendLog_single_use:
  "distinct (allowed_nonces (fst (Evaluate_seq (beside_mem pol) mem_spend rs w)))
   \<and> set (allowed_nonces (fst (Evaluate_seq (beside_mem pol) mem_spend rs w))) \<inter> seen (fst w) = {}"
  by (rule mem.Evaluate_seq_single_use) (rule surjective_pairing)

text \<open>Spend-then-allow burns a nonce exactly on ALLOW: a decision adds the token's
  nonce to the in-memory log when it allows, and leaves the log untouched on every
  denial, so a caller refused for scope, freshness or format can retry.\<close>

lemma MemSpendLog_spent_iff_Allow:
  "(case Evaluate al pr tok (beside_mem pol) mem_spend now w of (d, w') \<Rightarrow>
      seen (fst w) \<subseteq> seen (fst w')
      \<and> seen (fst w') - seen (fst w) = (if d_Class d = Allow then {tok_Nonce tok} else {}))"
proof -
  obtain d w' where Pair: "Evaluate al pr tok (beside_mem pol) mem_spend now w = (d, w')"
    by (metis prod.exhaust)
  show ?thesis
    unfolding Pair using Pair
    by (cases rule: Evaluate_cases; cases w)
      (auto simp: beside_mem_def mem_spend_eq split: prod.splits if_splits option.splits)
qed

end
