(* ===== verification/PepToken.thy ===== *)
theory PepToken
  imports JsonStruct Gate
begin

text \<open>
  The token header of \<open>gateway/pep.go\<close>: \<open>presentedToken\<close>, \<open>EncodeToken\<close>,
  \<open>parseToken\<close> and \<open>tokenFingerprint\<close>. The header is base64 of a JSON object with
  the nonce in hex and the expiry in Unix seconds.
\<close>

record presentedToken =
  pt_Nonce :: string
  pt_Expiry :: i64

definition zero_presentedToken :: presentedToken where
  "zero_presentedToken = \<lparr>pt_Nonce = [], pt_Expiry = 0\<rparr>"

definition presentedToken_json :: "presentedToken \<Rightarrow> json" where
  "presentedToken_json pt =
     JObj [(''nonce'', JStr (pt_Nonce pt)), (''expiry'', JNum (show_int (sint (pt_Expiry pt))))]"

definition presentedToken_fields :: "(string \<times> presentedToken field_setter) list" where
  "presentedToken_fields =
     [(''nonce'', set_string (\<lambda>s x. x\<lparr>pt_Nonce := s\<rparr>)),
      (''expiry'', set_int64 (\<lambda>i x. x\<lparr>pt_Expiry := word_of_int i\<rparr>))]"

definition EncodeToken :: "bytes \<Rightarrow> time \<Rightarrow> string" where
  "EncodeToken nonce expiry =
     base64_StdEncode (bytes_of (json_Marshal (presentedToken_json
       \<lparr>pt_Nonce = hex_EncodeToString nonce, pt_Expiry = Unix expiry\<rparr>)))"

definition parseToken :: "string \<Rightarrow> Token option" where
  "parseToken h =
     (if h = [] then None
      else case base64_StdDecode h of
        None \<Rightarrow> None
      | Some raw \<Rightarrow>
     (case Option.bind (json_whole (string_of raw))
             (\<lambda>v. decode_struct False presentedToken_fields v zero_presentedToken) of
        None \<Rightarrow> None
      | Some pt \<Rightarrow>
     (case hex_DecodeString (pt_Nonce pt) of
        Inl err \<Rightarrow> None
      | Inr nb \<Rightarrow>
          if length nb \<noteq> 32 then None
          else Some \<lparr>tok_Nonce = nb, tok_Expiry = time_Unix (pt_Expiry pt)\<rparr>)))"

definition tokenFingerprint :: "string \<Rightarrow> string" where
  "tokenFingerprint tok = (if tok = [] then [] else base64_RawURLEncode (sha256 (bytes_of tok)))"

lemma parseToken_SomeD:
  assumes "parseToken h = Some tok"
  shows "length (tok_Nonce tok) = 32" and "h \<noteq> []" and "\<exists>s. tok_Expiry tok = time_Unix s"
  using assms by (auto simp: parseToken_def split: if_splits option.splits sum.splits)

lemma printable_presentedToken:
  "list_all plain (pt_Nonce pt) \<Longrightarrow> printable maxNestingDepth (presentedToken_json pt)"
  by (auto simp: presentedToken_json_def maxNestingDepth_def plain_def)

lemma decode_presentedToken:
  "decode_struct False presentedToken_fields (presentedToken_json pt) x = Some pt"
  by (simp add: decode_struct_def presentedToken_json_def presentedToken_fields_def field_for_def
      set_string_def set_int64_show)

lemma parse_EncodeToken_eq:
  assumes "length nonce = 32"
  shows "parseToken (EncodeToken nonce expiry)
    = Some \<lparr>tok_Nonce = nonce, tok_Expiry = time_Unix (Unix expiry)\<rparr>"
proof -
  let ?pt = "\<lparr>pt_Nonce = hex_EncodeToString nonce, pt_Expiry = Unix expiry\<rparr>"
  have "json_whole (json_Marshal (presentedToken_json ?pt)) = Some (presentedToken_json ?pt)"
    by (rule json_whole_Marshal) (simp add: printable_presentedToken plain_hex)
  moreover have "json_Marshal (presentedToken_json ?pt) \<noteq> []"
    by (simp add: json_Marshal_def presentedToken_json_def)
  ultimately show ?thesis
    using assms by (simp add: parseToken_def EncodeToken_def decode_presentedToken)
qed

text \<open>C32. A client's header is understood by the enforcement point: for every 32-byte
  nonce and every expiry, parsing what \<open>EncodeToken\<close> wrote gives the same nonce and
  the same expiry cut down to whole seconds.\<close>

theorem parse_EncodeToken:
  assumes "length nonce = 32"
  shows "parseToken (EncodeToken nonce expiry)
    = Some \<lparr>tok_Nonce = nonce, tok_Expiry = expiry\<lparr>t_nsec := 0\<rparr>\<rparr>"
  using parse_EncodeToken_eq [OF assms, of expiry] by (simp add: time_Unix_def Unix_def)

theorem parse_EncodeToken_witness:
  "parseToken (EncodeToken (replicate 32 0xAB) \<lparr>t_sec = 63835596800, t_nsec = 999\<rparr>)
    = Some \<lparr>tok_Nonce = replicate 32 0xAB, tok_Expiry = \<lparr>t_sec = 63835596800, t_nsec = 0\<rparr>\<rparr>"
  using parse_EncodeToken [of "replicate 32 0xAB" "\<lparr>t_sec = 63835596800, t_nsec = 999\<rparr>"] by simp

text \<open>C39. The edges of the presented expiry, as the gate decides them. A header with the Unix
  second \<open>-62135596800\<close> gives a token whose expiry is the zero \<open>time.Time\<close>: \<open>Evaluate\<close> answers
  ALLOW for it at every reading of the clock, whenever the payment can be bound and the policy
  and the spend log accept. With a second count so large that \<open>time.Unix\<close> wraps around, such as
  the largest \<open>int64\<close>, \<open>Evaluate\<close> answers "token expired" at every reading from year 1 on,
  without asking the policy or the spend log.\<close>

theorem presented_expiry_edges:
  assumes "length nonce = 32" and "bindable al pr"
  shows "(\<exists>tok. parseToken (EncodeToken nonce (time_Unix (- 62135596800))) = Some tok
      \<and> (\<forall>pol sp now w. fst (pol pr tok w) = None \<and> fst (sp nonce (snd (pol pr tok w))) = None
           \<longrightarrow> d_Class (fst (Evaluate al pr tok pol sp now w)) = Allow))
    \<and> (\<exists>tok. parseToken (EncodeToken nonce (time_Unix 0x7FFFFFFFFFFFFFFF)) = Some tok
      \<and> (\<forall>pol sp now w. 0 \<le> sint (t_sec now)
           \<longrightarrow> Evaluate al pr tok pol sp now w
             = (\<lparr>d_Class = DenyViolation, d_Reason = ''token expired'', d_Binding = fst (ComputeBinding al pr nonce)\<rparr>, w)))"
proof -
  let ?zero = "\<lparr>tok_Nonce = nonce, tok_Expiry = time_Unix (Unix (time_Unix (- 62135596800)))\<rparr>"
  let ?max = "\<lparr>tok_Nonce = nonce, tok_Expiry = time_Unix (Unix (time_Unix 0x7FFFFFFFFFFFFFFF))\<rparr>"
  have "\<not> expired ?zero now" for now
    by (simp add: expired_def time_defs)
  then have zero: "d_Class (fst (Evaluate al pr ?zero pol sp now w)) = Allow"
    if "fst (pol pr ?zero w) = None" "fst (sp nonce (snd (pol pr ?zero w))) = None" for pol sp now w
    using Evaluate_spend [OF assms(2), of ?zero now pol w "snd (pol pr ?zero w)" sp None "snd (sp nonce (snd (pol pr ?zero w)))"] that
    by (simp add: prod_eq_iff)
  have "expired ?max now" if "0 \<le> sint (t_sec now)" for now
    using that by (simp add: expired_def time_defs)
  then have max: "Evaluate al pr ?max pol sp now w
      = (\<lparr>d_Class = DenyViolation, d_Reason = ''token expired'', d_Binding = fst (ComputeBinding al pr nonce)\<rparr>, w)"
    if "0 \<le> sint (t_sec now)" for pol sp now w
    using that Evaluate_expired [OF assms(2), of ?max now pol sp w] by simp
  show ?thesis
    unfolding parse_EncodeToken_eq [OF assms(1)]
    by (rule conjI; rule exI, rule conjI, rule refl, intro allI impI) (elim conjE, rule zero, assumption+, rule max)
qed


theorem presented_expiry_edges_witness:
  "\<exists>tok tok'. parseToken (EncodeToken (replicate 32 1) (time_Unix (- 62135596800))) = Some tok
      \<and> d_Class (fst (Evaluate sample_allowlist (sample_payment ''1000000'') tok (\<lambda>pr tok w. (None, w)) (\<lambda>n w. (None, w))
           (time_Unix 1700000000) ())) = Allow
      \<and> parseToken (EncodeToken (replicate 32 1) (time_Unix 0x7FFFFFFFFFFFFFFF)) = Some tok'
      \<and> d_Reason (fst (Evaluate sample_allowlist (sample_payment ''1000000'') tok' (\<lambda>pr tok w. (None, w)) (\<lambda>n w. (None, w))
           (time_Unix 1700000000) ())) = ''token expired''"
proof -
  have n: "length (replicate 32 (1 :: byte)) = 32" and year: "0 \<le> sint (t_sec (time_Unix 1700000000))"
    by (simp_all add: time_defs)
  let ?al = "sample_allowlist" and ?pr = "sample_payment ''1000000''" and ?now = "time_Unix 1700000000"
  let ?pol = "\<lambda>pr tok w. (None, w)" and ?sp = "\<lambda>n w. (None, w)"
  note edges = presented_expiry_edges [OF n sample_bindable(1)]
  obtain tok where tok: "parseToken (EncodeToken (replicate 32 1) (time_Unix (- 62135596800))) = Some tok"
    and allow: "\<forall>pol sp now w. fst (pol ?pr tok w) = None \<and> fst (sp (replicate 32 1) (snd (pol ?pr tok w))) = None
      \<longrightarrow> d_Class (fst (Evaluate ?al ?pr tok pol sp now (w :: unit))) = Allow"
    using conjunct1 [OF edges] by (elim exE conjE) (rule that)
  obtain tok' where tok': "parseToken (EncodeToken (replicate 32 1) (time_Unix 0x7FFFFFFFFFFFFFFF)) = Some tok'"
    and deny: "\<forall>pol sp now w. 0 \<le> sint (t_sec now) \<longrightarrow> Evaluate ?al ?pr tok' pol sp now (w :: unit)
      = (\<lparr>d_Class = DenyViolation, d_Reason = ''token expired'', d_Binding = fst (ComputeBinding ?al ?pr (replicate 32 1))\<rparr>, w)"
    using conjunct2 [OF edges] by (elim exE conjE) (rule that)
  have "d_Class (fst (Evaluate ?al ?pr tok ?pol ?sp ?now ())) = Allow"
    using allow [rule_format, of ?pol "()" ?sp ?now] by simp
  moreover have "d_Reason (fst (Evaluate ?al ?pr tok' ?pol ?sp ?now ())) = ''token expired''"
    using deny [rule_format, of ?now ?pol ?sp "()"] year by simp
  ultimately show ?thesis
    using tok tok' by blast
qed

end
