(* ===== verification/LogRecord.thy ===== *)
theory LogRecord
  imports Sha256 GoNum
begin

text \<open>
  \<open>translog/record.go\<close>: the record of one decision, its canonical bytes, its hash
  and its signature. \<open>crypto/ed25519\<close> is a parameter: a record of the library's
  two operations on well-sized keys. The wrappers add what the library documents
  around them: \<open>Sign\<close> panics on a private key that is not 64 bytes, \<open>Verify\<close>
  panics on a public key that is not 32 bytes and rejects a signature that is not
  64 bytes. Nothing is assumed of the scheme unless a statement says so
  (\<open>ed25519_contract\<close>).
\<close>

record ed25519 =
  ed_sign :: "bytes \<Rightarrow> bytes \<Rightarrow> bytes"
  ed_verify :: "bytes \<Rightarrow> bytes \<Rightarrow> bytes \<Rightarrow> bool"

definition ed25519_Sign :: "ed25519 \<Rightarrow> bytes \<Rightarrow> bytes \<Rightarrow> bytes outcome" where
  "ed25519_Sign ed priv msg =
     (if length priv \<noteq> 64 then Panic (''ed25519: bad private key length: '' @ show_nat (length priv))
      else Return (ed_sign ed priv msg))"

definition ed25519_Verify :: "ed25519 \<Rightarrow> bytes \<Rightarrow> bytes \<Rightarrow> bytes \<Rightarrow> bool outcome" where
  "ed25519_Verify ed pub msg sig =
     (if length pub \<noteq> 32 then Panic (''ed25519: bad public key length: '' @ show_nat (length pub))
      else Return (length sig = 64 \<and> ed_verify ed pub msg sig))"

text \<open>The documented contract of a key pair: signatures are 64 bytes and verify.\<close>

definition ed25519_contract :: "ed25519 \<Rightarrow> bytes \<Rightarrow> bytes \<Rightarrow> bool" where
  "ed25519_contract ed priv pub \<longleftrightarrow>
     length priv = 64 \<and> length pub = 32
     \<and> (\<forall>msg. length (ed_sign ed priv msg) = 64 \<and> ed_verify ed pub msg (ed_sign ed priv msg))"

definition DomainTagLogEntry :: string where
  "DomainTagLogEntry = ''spt-txn/logentry/v1''"

definition LogLayoutVersion :: byte where
  "LogLayoutVersion = 2"

text \<open>\<open>translog.Decision\<close> is a \<open>uint8\<close> with three named values.\<close>

definition tl_Allow :: byte where "tl_Allow = 0"
definition tl_DenyViolation :: byte where "tl_DenyViolation = 1"
definition tl_DenyUnavailable :: byte where "tl_DenyUnavailable = 2"

record Record =
  r_Seq :: u64
  r_Decision :: byte
  r_Binding :: bytes
  r_IssuedAt :: i64
  r_PrevHash :: bytes

text \<open>The zero value of the struct.\<close>

definition zero_Record :: Record where
  "zero_Record = \<lparr>r_Seq = 0, r_Decision = 0, r_Binding = zero32, r_IssuedAt = 0, r_PrevHash = zero32\<rparr>"

definition CanonicalBytes :: "Record \<Rightarrow> bytes" where
  "CanonicalBytes r =
     bytes_of DomainTagLogEntry @ [0x00] @ [LogLayoutVersion] @ le64 (r_Seq r) @ [r_Decision r]
     @ r_Binding r @ le64 (r_IssuedAt r) @ r_PrevHash r"

definition Hash :: "Record \<Rightarrow> bytes" where
  "Hash r = sha256 (CanonicalBytes r)"

definition Sign :: "ed25519 \<Rightarrow> bytes \<Rightarrow> Record \<Rightarrow> bytes outcome" where
  "Sign ed priv r = ed25519_Sign ed priv (CanonicalBytes r)"

definition Verify :: "ed25519 \<Rightarrow> bytes \<Rightarrow> Record \<Rightarrow> bytes \<Rightarrow> bool outcome" where
  "Verify ed pub r sig = ed25519_Verify ed pub (CanonicalBytes r) sig"

section \<open>The layout\<close>

text \<open>The arrays of a Go \<open>Record\<close> have 32 bytes each.\<close>

definition wf_record :: "Record \<Rightarrow> bool" where
  "wf_record r \<longleftrightarrow> length (r_Binding r) = 32 \<and> length (r_PrevHash r) = 32"

lemma length_DomainTagLogEntry [simp]: "length DomainTagLogEntry = 19"
  by (simp add: DomainTagLogEntry_def)

lemma length_CanonicalBytes [layout_simps]: "wf_record r \<Longrightarrow> length (CanonicalBytes r) = 102"
  by (simp add: CanonicalBytes_def wf_record_def)

lemma length_Hash [simp]: "length (Hash r) = 32"
  by (simp add: Hash_def)

lemma CanonicalBytes_inj:
  assumes "CanonicalBytes r = CanonicalBytes r'" and "wf_record r" and "wf_record r'"
  shows "r = r'"
  using assms by (auto simp: CanonicalBytes_def wf_record_def layout_simps intro: Record.equality)

lemma Hash_eqD:
  "Hash r = Hash r' \<Longrightarrow> wf_record r \<Longrightarrow> wf_record r' \<Longrightarrow>
   r = r' \<or> collision (CanonicalBytes r) (CanonicalBytes r')"
  using sha256_eqD CanonicalBytes_inj unfolding Hash_def by blast

end
