(* ===== verification/Merkle.thy ===== *)
theory Merkle
  imports Sha256
begin

text \<open>
  \<open>translog/merkle.go\<close>: the RFC 6962 Merkle tree. Go's \<open>int\<close> is a mathematical
  integer here except at the one operation that can leave the 64-bit range, the
  doubling in \<open>largestPow2Below\<close>, whose wrap-around is written out. That loop may
  run forever, so it is a partial function into \<open>option\<close> and so is everything a
  caller-supplied tree size reaches (\<open>rootFromPath\<close>, \<open>VerifyInclusion\<close>):
  \<open>None\<close> is a call that does not return.
\<close>

definition leafHash :: "bytes \<Rightarrow> bytes" where
  "leafHash data = sha256 ([0x00] @ data)"

definition nodeHash :: "bytes \<Rightarrow> bytes \<Rightarrow> bytes" where
  "nodeHash l r = sha256 ([0x01] @ l @ r)"

text \<open>\<open>k <<= 1\<close> on a 64-bit \<open>int\<close>.\<close>

definition shl1_int64 :: "int \<Rightarrow> int" where
  "shl1_int64 k = signed_take_bit 63 (2 * k)"

partial_function (option) pow2_loop :: "int \<Rightarrow> int \<Rightarrow> int option" where
  "pow2_loop n k = (if k < n then pow2_loop n (shl1_int64 k) else Some k)"

definition largestPow2Below :: "int \<Rightarrow> int option" where
  "largestPow2Below n = map_option (drop_bit 1) (pow2_loop n 1)"

text \<open>The same loop without wrap-around. On every slice length the two agree
  (\<open>largestPow2Below_eq\<close>), so the functions that only split slices use this one.\<close>

function pow2_up :: "nat \<Rightarrow> nat \<Rightarrow> nat" where
  "pow2_up n k = (if 0 < k \<and> k < n then pow2_up n (2 * k) else k)"
  by pat_completeness auto
termination
  by (relation "measure (\<lambda>(n, k). n - k)") auto

declare pow2_up.simps [simp del]

definition pow2_below :: "nat \<Rightarrow> nat" where
  "pow2_below n = pow2_up n 1 div 2"

section \<open>The split point\<close>

lemma pow2_up_spec:
  "2 ^ j < n \<Longrightarrow> \<exists>i. pow2_up n (2 ^ j) = 2 ^ Suc i \<and> 2 ^ i < n \<and> n \<le> 2 ^ Suc i"
proof (induction "n - 2 ^ j" arbitrary: j rule: less_induct)
  case less
  have step: "pow2_up n (2 ^ j) = pow2_up n (2 ^ Suc j)"
    using less.prems by (subst pow2_up.simps) simp
  show ?case
  proof (cases "2 ^ Suc j < n")
    case True
    moreover have "n - 2 ^ Suc j < n - 2 ^ j"
      using less.prems by (intro diff_less_mono2) simp_all
    ultimately show ?thesis
      using less.hyps [of "Suc j"] step by (simp del: power_Suc)
  next
    case False
    then have "pow2_up n (2 ^ Suc j) = 2 ^ Suc j"
      by (subst pow2_up.simps) simp
    with False less.prems step show ?thesis
      by (intro exI [of _ j]) simp
  qed
qed

lemma pow2_below_spec:
  assumes "2 \<le> n"
  obtains i where "pow2_below n = 2 ^ i" "2 ^ i < n" "n \<le> 2 * 2 ^ i"
  using pow2_up_spec [of 0 n] assms by (auto simp: pow2_below_def)

lemma pow2_below_bounds:
  assumes "2 \<le> n"
  shows "0 < pow2_below n" "pow2_below n < n" "n \<le> 2 * pow2_below n"
  using assms by (auto elim: pow2_below_spec)

lemma pow2_below_split:
  "n \<noteq> 0 \<Longrightarrow> n \<noteq> Suc 0 \<Longrightarrow> 0 < pow2_below n"
  "n \<noteq> 0 \<Longrightarrow> n \<noteq> Suc 0 \<Longrightarrow> pow2_below n < n"
  using pow2_below_bounds [of n] by linarith+

lemma pow2_below_le_self: "pow2_below n \<le> n"
proof (cases "2 \<le> n")
  case False
  then have "\<not> 1 < n"
    by simp
  then show ?thesis
    by (simp add: pow2_below_def pow2_up.simps)
qed (simp add: pow2_below_bounds less_imp_le)

lemma pow2_below_le: "2 \<le> n \<Longrightarrow> n \<le> 2 ^ Suc d \<Longrightarrow> pow2_below n \<le> 2 ^ d"
proof -
  assume n: "2 \<le> n" "n \<le> 2 ^ Suc d"
  obtain i where i: "pow2_below n = 2 ^ i" "2 ^ i < n"
    using n(1) by (rule pow2_below_spec)
  with n(2) have "(2 :: nat) ^ i < 2 ^ Suc d"
    by linarith
  then have "i \<le> d"
    by (simp add: power_strict_increasing_iff del: power_Suc)
  with i(1) show ?thesis
    by simp
qed

lemma shl1_int64_small: "0 \<le> k \<Longrightarrow> k < 2 ^ 62 \<Longrightarrow> shl1_int64 k = 2 * k"
  by (simp add: shl1_int64_def signed_take_bit_int_eq_self)

lemma pow2_loop_eq:
  "0 < k \<Longrightarrow> n \<le> 2 ^ 62 \<Longrightarrow> pow2_loop (int n) (int k) = Some (int (pow2_up n k))"
proof (induction n k rule: pow2_up.induct)
  case (1 n k)
  show ?case
  proof (cases "k < n")
    case True
    with "1.prems" have "int k < 2 ^ 62"
      by simp
    then have "shl1_int64 (int k) = int (2 * k)"
      by (simp add: shl1_int64_small)
    with 1 True show ?thesis
      by (simp add: pow2_loop.simps [of "int n" "int k"] pow2_up.simps [of n k])
  next
    case False
    then show ?thesis
      by (simp add: pow2_loop.simps [of "int n" "int k"] pow2_up.simps [of n k])
  qed
qed

lemma largestPow2Below_eq: "n \<le> 2 ^ 62 \<Longrightarrow> largestPow2Below (int n) = Some (int (pow2_below n))"
  using pow2_loop_eq [of 1 n]
  by (simp add: largestPow2Below_def pow2_below_def drop_bit_eq_div zdiv_int)

text \<open>\<open>largestPow2Below\<close> returns the largest power of two strictly below \<open>n\<close>, for
  every \<open>n\<close> from 2 up to \<open>2 ^ 62\<close>.\<close>

lemma largestPow2Below_correct:
  assumes "2 \<le> n" and "n \<le> 2 ^ 62"
  shows "\<exists>i. largestPow2Below n = Some (2 ^ i) \<and> 2 ^ i < n \<and> n \<le> 2 ^ Suc i"
proof -
  obtain m where n: "n = int m"
    using assms(1) nonneg_int_cases [of n] by auto
  with assms have m: "2 \<le> m" "m \<le> 2 ^ 62"
    by simp_all
  then obtain i where i: "pow2_below m = 2 ^ i" "2 ^ i < m" "m \<le> 2 * 2 ^ i"
    using pow2_below_spec by blast
  have "largestPow2Below n = Some (2 ^ i)"
    using m(2) i(1) by (simp add: n largestPow2Below_eq)
  moreover have "(2 :: int) ^ i < n"
    using i(2) by (simp add: n)
  moreover have "int m \<le> int (2 * 2 ^ i)"
    using i(3) by (simp only: of_nat_le_iff)
  then have "n \<le> 2 ^ Suc i"
    by (simp add: n)
  ultimately show ?thesis
    by blast
qed


lemma shl1_int64_powers:
  "shl1_int64 0 = 0" "shl1_int64 (- (2 ^ 63)) = 0" "shl1_int64 (2 ^ 62) = - (2 ^ 63)"
  "j < 62 \<Longrightarrow> shl1_int64 (2 ^ j) = 2 ^ Suc j"
proof -
  show "shl1_int64 0 = 0" "shl1_int64 (- (2 ^ 63)) = 0" "shl1_int64 (2 ^ 62) = - (2 ^ 63)"
    by (simp_all add: shl1_int64_def)
  assume "j < 62"
  then have "(2 :: int) ^ j < 2 ^ 62"
    by (intro power_strict_increasing) simp_all
  then show "shl1_int64 (2 ^ j) = 2 ^ Suc j"
    by (simp add: shl1_int64_small)
qed

definition overflow_orbit :: "int set" where
  "overflow_orbit = {0, - (2 ^ 63)} \<union> {2 ^ j | j. j \<le> 62}"

lemma overflow_orbit_step: "k \<in> overflow_orbit \<Longrightarrow> shl1_int64 k \<in> overflow_orbit"
proof -
  assume "k \<in> overflow_orbit"
  then consider "k = 0" | "k = - (2 ^ 63)" | "k = 2 ^ 62" | j where "j < 62" "k = 2 ^ j"
    by (auto simp: overflow_orbit_def order_le_less)
  then show ?thesis
  proof cases
    case 4
    then have "shl1_int64 k = 2 ^ Suc j" and "Suc j \<le> 62"
      by (simp_all add: shl1_int64_powers)
    then show ?thesis
      unfolding overflow_orbit_def by blast
  qed (simp_all only: shl1_int64_powers overflow_orbit_def, blast+)
qed

lemma overflow_orbit_le: "k \<in> overflow_orbit \<Longrightarrow> k \<le> 2 ^ 62"
proof -
  have "(2 :: int) ^ j \<le> 2 ^ 62" if "j \<le> 62" for j
    using that by (intro power_increasing) simp_all
  moreover assume "k \<in> overflow_orbit"
  ultimately show ?thesis
    by (auto simp: overflow_orbit_def)
qed

lemma pow2_loop_diverges:
  assumes "2 ^ 62 < n" and "k \<in> overflow_orbit"
  shows "pow2_loop n k = None"
proof (rule ccontr)
  assume "pow2_loop n k \<noteq> None"
  then obtain r where ret: "pow2_loop n k = Some r"
    by auto
  have "2 ^ 62 < n \<longrightarrow> k \<notin> overflow_orbit"
  proof (rule pow2_loop.raw_induct [where P = "\<lambda>n k r. 2 ^ 62 < n \<longrightarrow> k \<notin> overflow_orbit", OF _ ret])
    fix f n k r
    assume IH: "\<And>n k r. f n k = Some r \<Longrightarrow> 2 ^ 62 < n \<longrightarrow> k \<notin> overflow_orbit"
      and eq: "(if k < n then f n (shl1_int64 k) else Some k) = Some r"
    show "2 ^ 62 < n \<longrightarrow> k \<notin> overflow_orbit"
    proof (intro impI notI)
      assume "2 ^ 62 < n" and k: "k \<in> overflow_orbit"
      with overflow_orbit_le [OF k] eq have "f n (shl1_int64 k) = Some r"
        by (auto split: if_splits)
      with IH \<open>2 ^ 62 < n\<close> overflow_orbit_step [OF k] show False
        by blast
    qed
  qed
  with assms show False
    by blast
qed

text \<open>C40. Beyond \<open>2 ^ 62\<close> the doubling overflows before it reaches \<open>n\<close>: the counter
  becomes negative, then zero, and the loop never ends.\<close>

theorem largestPow2Below_diverges:
  assumes "2 ^ 62 < n"
  shows "largestPow2Below n = None"
proof -
  have "1 \<in> overflow_orbit"
    unfolding overflow_orbit_def by (force intro: exI [of _ 0])
  with assms show ?thesis
    by (simp only: largestPow2Below_def pow2_loop_diverges option.map)
qed

theorem largestPow2Below_diverges_witness: "largestPow2Below (2 ^ 62 + 1) = None"
  by (rule largestPow2Below_diverges) simp

section \<open>Roots, audit paths, verification\<close>

function MerkleRoot :: "bytes list \<Rightarrow> bytes" where
  "MerkleRoot leaves =
     (let n = length leaves
      in if n = 0 then sha256 []
         else if n = 1 then leafHash (leaves ! 0)
         else
           let k = pow2_below n
           in nodeHash (MerkleRoot (take k leaves)) (MerkleRoot (drop k leaves)))"
  by pat_completeness auto
termination
  by (relation "measure length") (auto simp: pow2_below_split min_less_iff_disj)

declare MerkleRoot.simps [simp del]

text \<open>\<open>auditPath\<close> is only called below a range check, never on an empty slice; there
  the source would recurse forever and the model returns the empty path.\<close>

function auditPath :: "nat \<Rightarrow> bytes list \<Rightarrow> bytes list" where
  "auditPath m ds =
     (if length ds \<le> 1 then []
      else
        let k = pow2_below (length ds)
        in if m < k then auditPath m (take k ds) @ [MerkleRoot (drop k ds)]
           else auditPath (m - k) (drop k ds) @ [MerkleRoot (take k ds)])"
  by pat_completeness auto
termination
  by (relation "measure (length \<circ> snd)")
    (auto simp: min_less_iff_disj not_le intro!: pow2_below_bounds diff_less)

declare auditPath.simps [simp del]

definition InclusionProof :: "bytes list \<Rightarrow> int \<Rightarrow> goerror + bytes list" where
  "InclusionProof leaves m =
     (if m < 0 \<or> m \<ge> int (length leaves) then Inl (Sentinel errIndexRange)
      else Inr (auditPath (nat m) leaves))"

text \<open>The outer option is termination, the inner one the source's \<open>ok\<close> flag.\<close>

function rootFromPath :: "int \<Rightarrow> int \<Rightarrow> bytes \<Rightarrow> bytes list \<Rightarrow> bytes option option" where
  "rootFromPath m n leaf path =
     (if n = 1 then (if length path \<noteq> 0 then Some None else Some (Some leaf))
      else if length path = 0 then Some None
      else
        (case largestPow2Below n of
           None \<Rightarrow> None
         | Some k \<Rightarrow>
             let sib = last path; rest = butlast path
             in if m < k
                then (case rootFromPath m k leaf rest of
                        None \<Rightarrow> None
                      | Some None \<Rightarrow> Some None
                      | Some (Some left) \<Rightarrow> Some (Some (nodeHash left sib)))
                else (case rootFromPath (m - k) (n - k) leaf rest of
                        None \<Rightarrow> None
                      | Some None \<Rightarrow> Some None
                      | Some (Some right) \<Rightarrow> Some (Some (nodeHash sib right)))))"
  by pat_completeness auto
termination
  by (relation "measure (\<lambda>(m, n, leaf, path). length path)") auto

declare rootFromPath.simps [simp del]

definition VerifyInclusion :: "bytes \<Rightarrow> bytes \<Rightarrow> int \<Rightarrow> int \<Rightarrow> bytes list \<Rightarrow> bool option" where
  "VerifyInclusion root leaf m sz path =
     (if m < 0 \<or> m \<ge> sz then Some False
      else
        (case rootFromPath m sz (leafHash leaf) path of
           None \<Rightarrow> None
         | Some got \<Rightarrow> Some (got = Some root)))"

lemma length_leafHash [simp]: "length (leafHash d) = 32"
  by (simp add: leafHash_def)

lemma length_nodeHash [simp]: "length (nodeHash l r) = 32"
  by (simp add: nodeHash_def)

lemma MerkleRoot_Nil: "MerkleRoot [] = sha256 []"
  by (simp add: MerkleRoot.simps)

lemma MerkleRoot_single: "MerkleRoot [d] = leafHash d"
  by (simp add: MerkleRoot.simps)

lemma MerkleRoot_split:
  "2 \<le> length ds \<Longrightarrow> k = pow2_below (length ds) \<Longrightarrow>
   MerkleRoot ds = nodeHash (MerkleRoot (take k ds)) (MerkleRoot (drop k ds))"
  by (subst MerkleRoot.simps) (auto simp: Let_def)

lemma length_MerkleRoot [simp]: "length (MerkleRoot ds) = 32"
  by (subst MerkleRoot.simps) (simp add: Let_def)

lemma merkle_cases [case_names Nil single split]:
  obtains "ds = []" | d where "ds = [d]"
  | k where "2 \<le> length ds" "k = pow2_below (length ds)" "0 < k" "k < length ds"
proof (cases "2 \<le> length ds")
  case True
  with that(3) pow2_below_bounds [OF True] show thesis
    by blast
next
  case False
  then have "length ds = 0 \<or> length ds = 1"
    by linarith
  with that(1,2) show thesis
    by (auto simp: length_Suc_conv)
qed

lemma merkle_induct [case_names Nil single split]:
  assumes "P []" and "\<And>d. P [d]"
    and "\<And>ds k. \<lbrakk>2 \<le> length ds; k = pow2_below (length ds); 0 < k; k < length ds;
          P (take k ds); P (drop k ds)\<rbrakk> \<Longrightarrow> P ds"
  shows "P ds"
proof (induction ds rule: length_induct)
  case (1 ds)
  show ?case
  proof (cases ds rule: merkle_cases)
    case (split k)
    with 1 show ?thesis
      by (intro assms(3) [of ds k]) simp_all
  qed (simp_all add: assms)
qed

text \<open>The reference verifier: the computation of \<open>rootFromPath\<close> on sizes for which
  the split point is computed without overflow.\<close>

function root_of_path :: "nat \<Rightarrow> nat \<Rightarrow> bytes \<Rightarrow> bytes list \<Rightarrow> bytes option" where
  "root_of_path m n leaf path =
     (if n = 1 then (if path = [] then Some leaf else None)
      else if path = [] then None
      else
        let k = pow2_below n
        in if m < k
           then map_option (\<lambda>left. nodeHash left (last path)) (root_of_path m k leaf (butlast path))
           else map_option (\<lambda>right. nodeHash (last path) right)
                  (root_of_path (m - k) (n - k) leaf (butlast path)))"
  by pat_completeness auto
termination
  by (relation "measure (\<lambda>(m, n, leaf, path). length path)") auto

declare root_of_path.simps [simp del]

lemma rootFromPath_eq:
  "n \<le> 2 ^ 62 \<Longrightarrow> rootFromPath (int m) (int n) leaf path = Some (root_of_path m n leaf path)"
proof (induction m n leaf path rule: root_of_path.induct)
  case (1 m n leaf path)
  let ?k = "pow2_below n"
  show ?case
  proof (cases "n = 1 \<or> path = []")
    case True
    then show ?thesis
      by (subst rootFromPath.simps, subst root_of_path.simps) auto
  next
    case False
    have k: "largestPow2Below (int n) = Some (int ?k)" and le: "?k \<le> n"
      using "1.prems" by (simp_all add: largestPow2Below_eq pow2_below_le_self)
    have IH1: "m < ?k \<Longrightarrow> rootFromPath (int m) (int ?k) leaf (butlast path)
        = Some (root_of_path m ?k leaf (butlast path))"
      and IH2: "\<not> m < ?k \<Longrightarrow> rootFromPath (int m - int ?k) (int n - int ?k) leaf (butlast path)
        = Some (root_of_path (m - ?k) (n - ?k) leaf (butlast path))"
      using "1.IH" "1.prems" False le by (simp_all add: of_nat_diff)
    show ?thesis
    proof (cases "m < ?k")
      case True
      with IH1 k False show ?thesis
        by (subst rootFromPath.simps, subst root_of_path.simps) (simp add: Let_def split: option.splits)
    next
      case ge: False
      with IH2 k False show ?thesis
        by (subst rootFromPath.simps, subst root_of_path.simps) (simp add: Let_def split: option.splits)
    qed
  qed
qed

lemma VerifyInclusion_eq:
  assumes "m < n" and "n \<le> 2 ^ 62"
  shows "VerifyInclusion root leaf (int m) (int n) path
    = Some (root_of_path m n (leafHash leaf) path = Some root)"
  using assms by (simp add: VerifyInclusion_def rootFromPath_eq)

section \<open>Generated proofs verify\<close>

lemma auditPath_single [simp]: "length ds \<le> 1 \<Longrightarrow> auditPath m ds = []"
  by (subst auditPath.simps) simp

lemma auditPath_split:
  "2 \<le> length ds \<Longrightarrow> k = pow2_below (length ds) \<Longrightarrow>
   auditPath m ds = (if m < k then auditPath m (take k ds) @ [MerkleRoot (drop k ds)]
     else auditPath (m - k) (drop k ds) @ [MerkleRoot (take k ds)])"
  by (subst auditPath.simps) (auto simp: Let_def)

lemma root_of_path_split:
  "2 \<le> n \<Longrightarrow> k = pow2_below n \<Longrightarrow>
   root_of_path m n leaf (path @ [sib]) =
     (if m < k then map_option (\<lambda>left. nodeHash left sib) (root_of_path m k leaf path)
      else map_option (\<lambda>right. nodeHash sib right) (root_of_path (m - k) (n - k) leaf path))"
  by (subst root_of_path.simps) (auto simp: Let_def)

lemma root_of_path_1: "root_of_path m (Suc 0) leaf path = (if path = [] then Some leaf else None)"
  by (subst root_of_path.simps) simp

lemma root_of_path_Nil: "2 \<le> n \<Longrightarrow> root_of_path m n leaf [] = None"
  by (subst root_of_path.simps) simp

lemma root_of_auditPath:
  "m < length ds \<Longrightarrow>
   root_of_path m (length ds) (leafHash (ds ! m)) (auditPath m ds) = Some (MerkleRoot ds)"
proof (induction ds arbitrary: m rule: merkle_induct)
  case Nil
  then show ?case by simp
next
  case (single d)
  then show ?case
    by (simp add: root_of_path_1 MerkleRoot_single)
next
  case (split ds k)
  show ?case
  proof (cases "m < k")
    case True
    with split.IH(1) [of m] split.hyps show ?thesis
      by (simp add: auditPath_split root_of_path_split MerkleRoot_split [of ds k])
  next
    case False
    with split.IH(2) [of "m - k"] split.hyps split.prems show ?thesis
      by (simp add: auditPath_split root_of_path_split MerkleRoot_split [of ds k])
  qed
qed

text \<open>C23. Completeness of inclusion proofs: for every leaf of every tree, the proof
  \<open>InclusionProof\<close> returns makes \<open>VerifyInclusion\<close> return true against the tree's
  root; the length bound holds for every slice that fits in memory.\<close>

theorem InclusionProof_verifies:
  assumes "length leaves \<le> 2 ^ 62" and "InclusionProof leaves m = Inr path"
  shows "VerifyInclusion (MerkleRoot leaves) (leaves ! nat m) m (int (length leaves)) path = Some True"
proof -
  from assms(2) have m: "0 \<le> m" "m < int (length leaves)" and path: "path = auditPath (nat m) leaves"
    by (auto simp: InclusionProof_def split: if_splits)
  then have "nat m < length leaves"
    by linarith
  with m assms(1) show ?thesis
    using VerifyInclusion_eq [of "nat m" "length leaves"]
    by (simp add: path root_of_auditPath)
qed

theorem InclusionProof_verifies_witness:
  "VerifyInclusion (MerkleRoot [[1], [2], [3]]) [2] 1 3 (auditPath 1 [[1], [2], [3]]) = Some True"
  using InclusionProof_verifies [of "[[1], [2], [3]]" 1 "auditPath 1 [[1], [2], [3]]"]
  by (simp add: InclusionProof_def)

text \<open>Inclusion proofs are logarithmic: a tree of at most \<open>2 ^ d\<close> leaves has audit
  paths of at most \<open>d\<close> hashes, each of 32 bytes.\<close>

lemma auditPath_length:
  assumes "length ds \<le> 2 ^ d"
  shows "length (auditPath m ds) \<le> d \<and> list_all b32 (auditPath m ds)"
  using assms
proof (induction ds arbitrary: m d rule: merkle_induct)
  case (split ds k)
  then obtain e where d: "d = Suc e"
    by (cases d) auto
  have k: "k \<le> 2 ^ e" and "length ds - k \<le> 2 ^ e"
    using split.hyps split.prems pow2_below_le [of "length ds" e] pow2_below_bounds(3) [of "length ds"]
    by (auto simp: d)
  with split.IH(1) [of e m] split.IH(2) [of e "m - k"] split.hyps show ?case
    by (simp add: auditPath_split [of ds k] d)
qed simp_all


section \<open>Roots bind their leaves\<close>

text \<open>The byte strings hashed to compute a root, and those hashed along a path.\<close>

function merkle_inputs :: "bytes list \<Rightarrow> bytes list" where
  "merkle_inputs ds =
     (if length ds = 0 then [[]]
      else if length ds = 1 then [[0x00] @ ds ! 0]
      else
        let k = pow2_below (length ds)
        in ([0x01] @ MerkleRoot (take k ds) @ MerkleRoot (drop k ds))
             # merkle_inputs (take k ds) @ merkle_inputs (drop k ds))"
  by pat_completeness auto
termination
  by (relation "measure length") (auto simp: pow2_below_split min_less_iff_disj)

declare merkle_inputs.simps [simp del]

lemma merkle_inputs_Nil: "merkle_inputs [] = [[]]"
  by (simp add: merkle_inputs.simps)

lemma merkle_inputs_single: "merkle_inputs [d] = [0x00 # d]"
  by (simp add: merkle_inputs.simps)

lemma merkle_inputs_split:
  "2 \<le> length ds \<Longrightarrow> k = pow2_below (length ds) \<Longrightarrow>
   merkle_inputs ds = (0x01 # MerkleRoot (take k ds) @ MerkleRoot (drop k ds))
     # merkle_inputs (take k ds) @ merkle_inputs (drop k ds)"
  by (subst merkle_inputs.simps) (auto simp: Let_def)

lemma MerkleRoot_input: "merkle_inputs ds \<noteq> [] \<and> MerkleRoot ds = sha256 (hd (merkle_inputs ds))"
  by (cases ds rule: merkle_cases)
    (auto simp: merkle_inputs_Nil merkle_inputs_single merkle_inputs_split
      MerkleRoot_Nil MerkleRoot_single MerkleRoot_split leafHash_def nodeHash_def)

definition colliding :: "bytes list \<Rightarrow> bytes list \<Rightarrow> bool" where
  "colliding as bs \<longleftrightarrow> (\<exists>a \<in> set as. \<exists>b \<in> set bs. collision a b)"

lemma not_colliding_hd:
  "\<not> colliding as bs \<Longrightarrow> as \<noteq> [] \<Longrightarrow> bs \<noteq> [] \<Longrightarrow> sha256 (hd as) = sha256 (hd bs) \<Longrightarrow> hd as = hd bs"
  unfolding colliding_def collision_def using hd_in_set by blast

lemma MerkleRoot_inj:
  "MerkleRoot xs = MerkleRoot ys \<Longrightarrow> \<not> colliding (merkle_inputs xs) (merkle_inputs ys) \<Longrightarrow> xs = ys"
proof (induction xs arbitrary: ys rule: merkle_induct)
  case Nil
  then have "hd (merkle_inputs ys) = []"
    using not_colliding_hd MerkleRoot_input by (metis list.sel(1) merkle_inputs_Nil)
  then show ?case
    by (cases ys rule: merkle_cases) (simp_all add: merkle_inputs_single merkle_inputs_split)
next
  case (single x)
  then have "hd (merkle_inputs ys) = 0x00 # x"
    using not_colliding_hd MerkleRoot_input by (metis list.sel(1) merkle_inputs_single)
  then show ?case
    by (cases ys rule: merkle_cases)
      (simp_all add: merkle_inputs_Nil merkle_inputs_single merkle_inputs_split)
next
  case (split xs k)
  then have hd: "hd (merkle_inputs ys) = 0x01 # MerkleRoot (take k xs) @ MerkleRoot (drop k xs)"
    using not_colliding_hd MerkleRoot_input by (metis list.sel(1) merkle_inputs_split)
  then show ?case
  proof (cases ys rule: merkle_cases)
    case (split k')
    with hd have roots: "MerkleRoot (take k xs) = MerkleRoot (take k' ys)"
      "MerkleRoot (drop k xs) = MerkleRoot (drop k' ys)"
      by (simp_all add: merkle_inputs_split layout_simps)
    have "\<not> colliding (merkle_inputs (take k xs)) (merkle_inputs (take k' ys))"
      "\<not> colliding (merkle_inputs (drop k xs)) (merkle_inputs (drop k' ys))"
      using split.prems(2) split.hyps \<open>2 \<le> length ys\<close> \<open>k' = pow2_below (length ys)\<close>
      by (auto simp: merkle_inputs_split [of xs k] merkle_inputs_split [of ys k'] colliding_def)
    with roots split.IH have "take k xs = take k' ys" "drop k xs = drop k' ys"
      by blast+
    then show ?thesis
      by (metis append_take_drop_id)
  qed (simp_all add: merkle_inputs_Nil merkle_inputs_single)
qed

text \<open>C24. The root binds the whole log: two leaf lists, of whatever lengths, with the
  same Merkle root are the same list, or two of the byte strings hashed in the two
  trees are a SHA-256 collision. No leaf can be dropped, duplicated, reordered or
  passed off as an inner node.\<close>

theorem MerkleRoot_binding:
  assumes "MerkleRoot xs = MerkleRoot ys"
  shows "xs = ys \<or> (\<exists>a \<in> set (merkle_inputs xs). \<exists>b \<in> set (merkle_inputs ys). collision a b)"
  using MerkleRoot_inj [OF assms] by (auto simp: colliding_def)

theorem MerkleRoot_binding_witness:
  "[[1], [2 :: byte]] = [[1], [2]] \<or>
     (\<exists>a \<in> set (merkle_inputs [[1], [2]]). \<exists>b \<in> set (merkle_inputs [[1], [2]]). collision a b)"
  by (rule MerkleRoot_binding) simp

section \<open>Verified proofs are proofs of the leaf\<close>

function path_inputs :: "nat \<Rightarrow> nat \<Rightarrow> bytes \<Rightarrow> bytes list \<Rightarrow> bytes list" where
  "path_inputs m n leaf path =
     (if n = 1 \<or> path = [] then [[0x00] @ leaf]
      else
        let k = pow2_below n
        in if m < k
           then (case root_of_path m k (leafHash leaf) (butlast path) of
                   None \<Rightarrow> []
                 | Some left \<Rightarrow> [[0x01] @ left @ last path])
                @ path_inputs m k leaf (butlast path)
           else (case root_of_path (m - k) (n - k) (leafHash leaf) (butlast path) of
                   None \<Rightarrow> []
                 | Some right \<Rightarrow> [[0x01] @ last path @ right])
                @ path_inputs (m - k) (n - k) leaf (butlast path))"
  by pat_completeness auto
termination
  by (relation "measure (\<lambda>(m, n, leaf, path). length path)") auto

declare path_inputs.simps [simp del]

lemma path_inputs_single: "path_inputs m (Suc 0) leaf path = [0x00 # leaf]"
  by (subst path_inputs.simps) simp

lemma path_inputs_left:
  "2 \<le> n \<Longrightarrow> k = pow2_below n \<Longrightarrow> m < k \<Longrightarrow>
   root_of_path m k (leafHash leaf) path = Some left \<Longrightarrow>
   path_inputs m n leaf (path @ [sib]) = (0x01 # left @ sib) # path_inputs m k leaf path"
  by (subst path_inputs.simps) simp

lemma path_inputs_right:
  "2 \<le> n \<Longrightarrow> k = pow2_below n \<Longrightarrow> \<not> m < k \<Longrightarrow>
   root_of_path (m - k) (n - k) (leafHash leaf) path = Some right \<Longrightarrow>
   path_inputs m n leaf (path @ [sib]) = (0x01 # sib @ right) # path_inputs (m - k) (n - k) leaf path"
  by (subst path_inputs.simps) (simp add: Let_def)

lemma length_root_of_path:
  "root_of_path m n leaf path = Some r \<Longrightarrow> length leaf = 32 \<Longrightarrow> length r = 32"
  by (subst (asm) root_of_path.simps) (auto simp: Let_def split: if_splits)

lemma nodeHash_eqD:
  assumes "nodeHash l r = nodeHash l' r'" and "length l = 32" "length l' = 32"
    and "\<not> colliding ((0x01 # l @ r) # as) ((0x01 # l' @ r') # bs)"
  shows "l = l'" "r = r'" "\<not> colliding as bs"
  using assms by (auto simp: colliding_def collision_def nodeHash_def layout_simps)

text \<open>One level down: a path that ends in the root of the tree ends, one sibling earlier, in the
  root of the half the leaf is in, and the sibling is the root of the other half.\<close>

lemma path_into_left:
  assumes "2 \<le> length ds" and "k = pow2_below (length ds)" and "m < k" and "b32 sib"
    and "root_of_path m (length ds) (leafHash leaf) (p @ [sib]) = Some (MerkleRoot ds)"
    and "\<not> colliding (path_inputs m (length ds) leaf (p @ [sib])) (merkle_inputs ds)"
  shows "root_of_path m k (leafHash leaf) p = Some (MerkleRoot (take k ds)) \<and> sib = MerkleRoot (drop k ds)
    \<and> \<not> colliding (path_inputs m k leaf p) (merkle_inputs (take k ds))"
proof -
  obtain left where left: "root_of_path m k (leafHash leaf) p = Some left" and eq: "nodeHash left sib = MerkleRoot ds"
    using assms(1-3,5) by (auto simp: root_of_path_split)
  have nc: "\<not> colliding ((0x01 # left @ sib) # path_inputs m k leaf p)
      ((0x01 # MerkleRoot (take k ds) @ MerkleRoot (drop k ds)) # merkle_inputs (take k ds) @ merkle_inputs (drop k ds))"
    using assms(6) path_inputs_left [OF assms(1-3) left, of sib] merkle_inputs_split [OF assms(1,2)] by simp
  show ?thesis
    using nodeHash_eqD [OF eq [unfolded MerkleRoot_split [OF assms(1,2)]] length_root_of_path [OF left] _ nc] left nc
    by (auto simp: colliding_def)
qed

lemma path_into_right:
  assumes "2 \<le> length ds" and "k = pow2_below (length ds)" and "\<not> m < k" and "b32 sib"
    and "root_of_path m (length ds) (leafHash leaf) (p @ [sib]) = Some (MerkleRoot ds)"
    and "\<not> colliding (path_inputs m (length ds) leaf (p @ [sib])) (merkle_inputs ds)"
  shows "root_of_path (m - k) (length ds - k) (leafHash leaf) p = Some (MerkleRoot (drop k ds)) \<and> sib = MerkleRoot (take k ds)
    \<and> \<not> colliding (path_inputs (m - k) (length ds - k) leaf p) (merkle_inputs (drop k ds))"
proof -
  obtain right where right: "root_of_path (m - k) (length ds - k) (leafHash leaf) p = Some right"
    and eq: "nodeHash sib right = MerkleRoot ds"
    using assms(1-3,5) by (auto simp: root_of_path_split)
  have nc: "\<not> colliding ((0x01 # sib @ right) # path_inputs (m - k) (length ds - k) leaf p)
      ((0x01 # MerkleRoot (take k ds) @ MerkleRoot (drop k ds)) # merkle_inputs (take k ds) @ merkle_inputs (drop k ds))"
    using assms(6) path_inputs_right [OF assms(1-3) right, of sib] merkle_inputs_split [OF assms(1,2)] by simp
  show ?thesis
    using nodeHash_eqD [OF eq [unfolded MerkleRoot_split [OF assms(1,2)]] assms(4) _ nc] right nc
    by (auto simp: colliding_def)
qed

lemma root_of_path_sound:
  "root_of_path m (length ds) (leafHash leaf) path = Some (MerkleRoot ds) \<Longrightarrow>
   m < length ds \<Longrightarrow> list_all b32 path \<Longrightarrow>
   \<not> colliding (path_inputs m (length ds) leaf path) (merkle_inputs ds) \<Longrightarrow>
   leaf = ds ! m \<and> path = auditPath m ds"
proof (induction ds arbitrary: m path rule: merkle_induct)
  case Nil
  then show ?case by simp
next
  case (single d)
  then have "path = []" and "leafHash leaf = leafHash d"
    by (simp_all add: root_of_path_1 MerkleRoot_single split: if_splits)
  with single.prems show ?case
    by (auto simp: leafHash_def colliding_def collision_def path_inputs_single merkle_inputs_single)
next
  case (split ds k)
  obtain p sib where path: "path = p @ [sib]"
    using split.prems(1) split.hyps(1) root_of_path_Nil by (cases path rule: rev_cases) auto
  then have "b32 sib" "list_all b32 p"
    using split.prems(3) by simp_all
  note down = path_into_left [OF split.hyps(1,2) _ this(1) split.prems(1,4) [unfolded path]]
    path_into_right [OF split.hyps(1,2) _ this(1) split.prems(1,4) [unfolded path]]
  show ?case
  proof (cases "m < k")
    case True
    with split.IH(1) [of m p] down(1) split.hyps \<open>list_all b32 p\<close> show ?thesis
      by (simp add: path auditPath_split)
  next
    case False
    with split.IH(2) [of "m - k" p] down(2) split.hyps split.prems(2) \<open>list_all b32 p\<close> show ?thesis
      by (simp add: path auditPath_split)
  qed
qed

text \<open>C22. Soundness of inclusion proofs: if \<open>VerifyInclusion\<close> accepts a leaf at index
  \<open>m\<close> under the root of a tree, then the leaf is the one at that index and the path
  is the one \<open>InclusionProof\<close> generates, or a byte string hashed along the path
  collides with one hashed in the tree.\<close>

theorem VerifyInclusion_sound:
  assumes "VerifyInclusion (MerkleRoot leaves) leaf m (int (length leaves)) path = Some True"
    and "length leaves \<le> 2 ^ 62" and "list_all b32 path"
  shows "(leaf = leaves ! nat m \<and> InclusionProof leaves m = Inr path)
    \<or> (\<exists>a \<in> set (path_inputs (nat m) (length leaves) leaf path).
       \<exists>b \<in> set (merkle_inputs leaves). collision a b)"
proof -
  from assms(1) have m: "0 \<le> m" "m < int (length leaves)"
    by (auto simp: VerifyInclusion_def split: if_splits)
  then have lt: "nat m < length leaves"
    by linarith
  with assms(1,2) m have "root_of_path (nat m) (length leaves) (leafHash leaf) path = Some (MerkleRoot leaves)"
    using VerifyInclusion_eq [of "nat m" "length leaves"] by simp
  with root_of_path_sound [OF _ lt assms(3)] m show ?thesis
    by (auto simp: colliding_def InclusionProof_def)
qed

theorem VerifyInclusion_sound_witness:
  "([5] = [[5 :: byte]] ! nat 0 \<and> InclusionProof [[5]] 0 = Inr [])
    \<or> (\<exists>a \<in> set (path_inputs (nat 0) (length [[5 :: byte]]) [5] []).
       \<exists>b \<in> set (merkle_inputs [[5]]). collision a b)"
proof (rule VerifyInclusion_sound)
  show "VerifyInclusion (MerkleRoot [[5]]) [5] 0 (int (length [[5 :: byte]])) [] = Some True"
    using VerifyInclusion_eq [of 0 1 "MerkleRoot [[5]]" "[5]" "[]"]
    by (simp add: root_of_path_1 MerkleRoot_single)
qed simp_all

end
