(* ===== verification/TransLog.thy ===== *)
theory TransLog
  imports LogRecord Merkle
begin

text \<open>
  \<open>translog/log.go\<close>: the append-only, hash-chained log. Every method runs under the
  log's mutex from its first to its last access, so one call is one atomic step and
  a concurrent execution is a sequence of such steps in lock order (shown in \<open>Mutexes\<close>); the
  model is the state transformer of each step. A panic inside a step leaves the state the
  deferred unlock exposes, here always the unchanged log.
\<close>

record Entry =
  e_Record :: Record
  e_Signature :: bytes

record Log =
  l_pub :: bytes
  l_entries :: "Entry list"

definition zero_Entry :: Entry where
  "zero_Entry = \<lparr>e_Record = zero_Record, e_Signature = []\<rparr>"

definition NewLog :: "bytes \<Rightarrow> Log" where
  "NewLog pub = \<lparr>l_pub = pub, l_entries = []\<rparr>"

definition next_record :: "byte \<Rightarrow> bytes \<Rightarrow> i64 \<Rightarrow> Entry list \<Rightarrow> Record" where
  "next_record decision binding issuedAt es =
     \<lparr>r_Seq = word_of_nat (length es), r_Decision = decision, r_Binding = binding,
      r_IssuedAt = issuedAt,
      r_PrevHash = (if length es > 0 then Hash (e_Record (last es)) else zero32)\<rparr>"

definition Append ::
  "ed25519 \<Rightarrow> bytes \<Rightarrow> byte \<Rightarrow> bytes \<Rightarrow> i64 \<Rightarrow> Log \<Rightarrow> (goerror + Entry) outcome \<times> Log" where
  "Append ed priv decision binding issuedAt l =
     (let r = next_record decision binding issuedAt (l_entries l)
      in case Sign ed priv r of
           Panic m \<Rightarrow> (Panic m, l)
         | Return sig \<Rightarrow>
           (case Verify ed (l_pub l) r sig of
              Panic m \<Rightarrow> (Panic m, l)
            | Return ok \<Rightarrow>
                if \<not> ok then (Return (Inl (NewError ''translog: signature failed self-verify'')), l)
                else
                  let e = \<lparr>e_Record = r, e_Signature = sig\<rparr>
                  in (Return (Inr e), l\<lparr>l_entries := l_entries l @ [e]\<rparr>)))"

definition Log_Len :: "Log \<Rightarrow> nat" where
  "Log_Len l = length (l_entries l)"

definition Log_At :: "Log \<Rightarrow> int \<Rightarrow> Record \<times> bool" where
  "Log_At l seq =
     (if seq < 0 \<or> seq \<ge> int (length (l_entries l)) then (zero_Record, False)
      else (e_Record (l_entries l ! nat seq), True))"

definition canonicalLeaves :: "Log \<Rightarrow> bytes list" where
  "canonicalLeaves l = map (\<lambda>e. CanonicalBytes (e_Record e)) (l_entries l)"

definition Log_Root :: "Log \<Rightarrow> bytes" where
  "Log_Root l = MerkleRoot (canonicalLeaves l)"

definition Log_Proof :: "Log \<Rightarrow> int \<Rightarrow> goerror + bytes list" where
  "Log_Proof l seq = InclusionProof (canonicalLeaves l) seq"

fun verify_entries ::
  "ed25519 \<Rightarrow> bytes \<Rightarrow> bytes \<Rightarrow> nat \<Rightarrow> Entry list \<Rightarrow> goerror option outcome" where
  "verify_entries ed pub prev i [] = Return None"
| "verify_entries ed pub prev i (e # es) =
     (if r_Seq (e_Record e) \<noteq> word_of_nat i
      then Return (Some (NewError ''translog: sequence gap''))
      else if r_PrevHash (e_Record e) \<noteq> prev
      then Return (Some (NewError ''translog: broken hash chain''))
      else
        case Verify ed pub (e_Record e) (e_Signature e) of
          Panic m \<Rightarrow> Panic m
        | Return ok \<Rightarrow>
            if \<not> ok then Return (Some (NewError ''translog: bad signature''))
            else verify_entries ed pub (Hash (e_Record e)) (Suc i) es)"

definition Log_Verify :: "ed25519 \<Rightarrow> Log \<Rightarrow> goerror option outcome" where
  "Log_Verify ed l = verify_entries ed (l_pub l) zero32 0 (l_entries l)"

definition PublicKey :: "Log \<Rightarrow> bytes" where
  "PublicKey l = l_pub l"

section \<open>What Verify accepts\<close>

definition prev_of :: "Entry list \<Rightarrow> bytes" where
  "prev_of es = (if es = [] then zero32 else Hash (e_Record (last es)))"

text \<open>The specification of a sound log: every position holds the right sequence
  number, the hash of its predecessor, and a signature that verifies.\<close>

definition sound_entries :: "ed25519 \<Rightarrow> bytes \<Rightarrow> Entry list \<Rightarrow> bool" where
  "sound_entries ed pub es \<longleftrightarrow>
     (\<forall>i < length es. r_Seq (e_Record (es ! i)) = word_of_nat i
        \<and> r_PrevHash (e_Record (es ! i)) = prev_of (take i es)
        \<and> Verify ed pub (e_Record (es ! i)) (e_Signature (es ! i)) = Return True)"

lemma prev_of_snoc [simp]: "prev_of (es @ [e]) = Hash (e_Record e)"
  by (simp add: prev_of_def)

lemma prev_of_Nil [simp]: "prev_of [] = zero32"
  by (simp add: prev_of_def)

lemma sound_entries_Nil [simp]: "sound_entries ed pub []"
  by (simp add: sound_entries_def)

lemma sound_entries_snoc:
  "sound_entries ed pub (es @ [e]) \<longleftrightarrow>
     sound_entries ed pub es \<and> r_Seq (e_Record e) = word_of_nat (length es)
     \<and> r_PrevHash (e_Record e) = prev_of es
     \<and> Verify ed pub (e_Record e) (e_Signature e) = Return True"
proof -
  have "(\<forall>i < length (es @ [e]). P i) \<longleftrightarrow> (\<forall>i < length es. P i) \<and> P (length es)" for P
    by (auto simp: less_Suc_eq)
  then show ?thesis
    by (auto simp: sound_entries_def nth_append)
qed

lemma verify_entries_snoc:
  "verify_entries ed pub prev i (es @ [e]) = Return None \<longleftrightarrow>
     verify_entries ed pub prev i es = Return None
     \<and> r_Seq (e_Record e) = word_of_nat (i + length es)
     \<and> r_PrevHash (e_Record e) = (if es = [] then prev else Hash (e_Record (last es)))
     \<and> Verify ed pub (e_Record e) (e_Signature e) = Return True"
  by (induction es arbitrary: prev i) (auto split: outcome.splits)

lemma verify_entries_sound:
  "verify_entries ed pub zero32 0 es = Return None \<longleftrightarrow> sound_entries ed pub es"
  by (induction es rule: rev_induct) (auto simp: verify_entries_snoc sound_entries_snoc prev_of_def)

lemma Log_Verify_iff: "Log_Verify ed l = Return None \<longleftrightarrow> sound_entries ed (l_pub l) (l_entries l)"
  by (simp add: Log_Verify_def verify_entries_sound)

section \<open>Append\<close>

lemma next_record_prev: "r_PrevHash (next_record d b t es) = prev_of es"
  by (simp add: next_record_def prev_of_def)

lemma Append_cases [consumes 1, case_names panic error ok]:
  assumes "Append ed priv d b t l = (res, l')"
  obtains m where "res = Panic m" "l' = l"
  | err where "res = Return (Inl err)" "l' = l"
  | sig where "res = Return (Inr \<lparr>e_Record = next_record d b t (l_entries l), e_Signature = sig\<rparr>)"
      "l' = l\<lparr>l_entries := l_entries l @ [\<lparr>e_Record = next_record d b t (l_entries l), e_Signature = sig\<rparr>]\<rparr>"
      "Verify ed (l_pub l) (next_record d b t (l_entries l)) sig = Return True"
proof -
  define r where "r = next_record d b t (l_entries l)"
  note app = assms [unfolded Append_def Let_def, folded r_def]
  show thesis
  proof (cases "Sign ed priv r")
    case (Panic m)
    with app that(1) show thesis by auto
  next
    case (Return sig)
    note sign = this
    show thesis
    proof (cases "Verify ed (l_pub l) r sig")
      case (Panic m)
      with app sign that(1) show thesis by auto
    next
      case (Return ok)
      show thesis
      proof (cases ok)
        case True
        with app sign Return have "res = Return (Inr \<lparr>e_Record = r, e_Signature = sig\<rparr>)"
          and "l' = l\<lparr>l_entries := l_entries l @ [\<lparr>e_Record = r, e_Signature = sig\<rparr>]\<rparr>"
          by simp_all
        moreover have "Verify ed (l_pub l) r sig = Return True"
          using Return True by simp
        ultimately show thesis
          unfolding r_def by (rule that(3))
      next
        case False
        with app sign Return that(2) show thesis by auto
      qed
    qed
  qed
qed

lemma Append_contract:
  assumes "ed25519_contract ed priv (l_pub l)"
  shows "\<exists>e. fst (Append ed priv d b t l) = Return (Inr e)"
  using assms
  by (simp add: Append_def Let_def Sign_def Verify_def ed25519_Sign_def ed25519_Verify_def
      ed25519_contract_def)

lemma Append_sound:
  assumes "Append ed priv d b t l = (res, l')" and "sound_entries ed (l_pub l) (l_entries l)"
  shows "sound_entries ed (l_pub l') (l_entries l')"
  using assms
  by (cases rule: Append_cases)
    (simp_all add: sound_entries_snoc next_record_prev, simp add: next_record_def)

lemma Append_pub [simp]: "l_pub (snd (Append ed priv d b t l)) = l_pub l"
  by (simp add: Append_def Let_def split: outcome.splits)

section \<open>An append-only log\<close>

text \<open>What the enforcement points and the transparency service rely on: a call adds
  at most one entry at the end, never touches an earlier one, and keeps the log
  sound.\<close>

locale append_log =
  fixes append :: "'c \<Rightarrow> 'l \<Rightarrow> 'r \<times> 'l"
    and entries :: "'l \<Rightarrow> 'e list"
    and sound :: "'l \<Rightarrow> bool"
  assumes append_grows: "entries (snd (append c l)) = entries l
      \<or> (\<exists>e. entries (snd (append c l)) = entries l @ [e])"
    and append_sound: "sound l \<Longrightarrow> sound (snd (append c l))"
begin

lemma run_sound: "sound l \<Longrightarrow> sound (snd (run_seq append cs l))"
  by (rule run_seq_invariant) (simp_all add: append_sound)

lemma run_grows:
  "\<exists>new. entries (snd (run_seq append cs l)) = entries l @ new \<and> length new \<le> length cs"
proof (induction cs arbitrary: l)
  case Nil
  then show ?case by simp
next
  case (Cons c cs)
  obtain new where "entries (snd (run_seq append cs (snd (append c l)))) = entries (snd (append c l)) @ new"
    and "length new \<le> length cs"
    using Cons by blast
  then show ?case
    using append_grows [of c l]
    by (auto simp: run_seq_snd_Cons simp del: run_seq.simps(2))
qed

lemma run_keeps: "i < length (entries l) \<Longrightarrow> entries (snd (run_seq append cs l)) ! i = entries l ! i"
  using run_grows [of cs l] by (auto simp: nth_append)

end

type_synonym append_call = "bytes \<times> byte \<times> bytes \<times> i64"

definition Append_call :: "ed25519 \<Rightarrow> append_call \<Rightarrow> Log \<Rightarrow> (goerror + Entry) outcome \<times> Log" where
  "Append_call ed c l = (case c of (priv, d, b, t) \<Rightarrow> Append ed priv d b t l)"

lemma Append_grows:
  "l_entries (snd (Append ed priv d b t l)) = l_entries l
   \<or> (\<exists>e. l_entries (snd (Append ed priv d b t l)) = l_entries l @ [e])"
proof (cases "Append ed priv d b t l")
  case (Pair res l')
  then show ?thesis
    by (cases rule: Append_cases) (simp_all add: Pair)
qed

interpretation tl: append_log "Append_call ed" l_entries
  "\<lambda>l. sound_entries ed (l_pub l) (l_entries l)" for ed
proof unfold_locales
  fix c :: append_call and l
  obtain priv d b t where c: "c = (priv, d, b, t)"
    by (cases c)
  show "l_entries (snd (Append_call ed c l)) = l_entries l
      \<or> (\<exists>e. l_entries (snd (Append_call ed c l)) = l_entries l @ [e])"
    by (simp add: Append_call_def c Append_grows)
  show "sound_entries ed (l_pub (snd (Append_call ed c l))) (l_entries (snd (Append_call ed c l)))"
    if "sound_entries ed (l_pub l) (l_entries l)"
    unfolding Append_call_def c prod.case
    by (rule Append_sound [OF _ that]) (rule surjective_pairing)
qed

text \<open>Whatever sequence of \<open>Append\<close> calls runs on a fresh log, with whatever keys,
  decisions, bindings and times, \<open>Verify\<close> returns nil on the result: contiguous
  sequence numbers, intact hash chain, valid signatures. Under the mutex this covers
  every concurrent execution.\<close>

lemma Log_always_verifies:
  "Log_Verify ed (snd (run_seq (Append_call ed) calls (NewLog pub))) = Return None"
  using tl.run_sound [of ed "NewLog pub" calls] by (simp add: Log_Verify_iff NewLog_def)

text \<open>The log is append-only: a sequence of \<open>Append\<close> calls leaves every earlier
  entry where it was and adds at most one entry per call.\<close>

lemma Log_append_only:
  "\<exists>new. l_entries (snd (run_seq (Append_call ed) calls l)) = l_entries l @ new
     \<and> length new \<le> length calls"
  by (rule tl.run_grows)

section \<open>Nothing is lost\<close>

definition entry_call :: "Entry \<Rightarrow> u64 \<times> byte \<times> bytes \<times> i64" where
  "entry_call e = (r_Seq (e_Record e), r_Decision (e_Record e), r_Binding (e_Record e), r_IssuedAt (e_Record e))"

definition call_at :: "nat \<Rightarrow> append_call \<Rightarrow> u64 \<times> byte \<times> bytes \<times> i64" where
  "call_at i c = (case c of (priv, d, b, t) \<Rightarrow> (word_of_nat i, d, b, t))"

lemma Append_contract_entry:
  assumes "ed25519_contract ed priv (l_pub l)"
  shows "\<exists>e. snd (Append ed priv d b t l) = l\<lparr>l_entries := l_entries l @ [e]\<rparr>
    \<and> entry_call e = (word_of_nat (length (l_entries l)), d, b, t)"
proof -
  obtain e where "Append ed priv d b t l = (Return (Inr e), snd (Append ed priv d b t l))"
    using Append_contract [OF assms, of d b t] by (metis prod.collapse)
  then show ?thesis
    by (cases rule: Append_cases) (auto simp: entry_call_def next_record_def)
qed

lemma run_appends_recorded:
  assumes "ed25519_contract ed priv (l_pub l)" and "\<forall>c \<in> set calls. fst c = priv"
  shows "map entry_call (l_entries (snd (run_seq (Append_call ed) calls l)))
    = map entry_call (l_entries l) @ map2 call_at [length (l_entries l)..<length (l_entries l) + length calls] calls"
  using assms
proof (induction calls arbitrary: l)
  case Nil
  then show ?case by simp
next
  case (Cons c calls)
  obtain d b t where c: "c = (priv, d, b, t)"
    using Cons.prems(2) by (cases c) auto
  obtain e where l': "snd (Append_call ed c l) = l\<lparr>l_entries := l_entries l @ [e]\<rparr>"
    and e: "entry_call e = (word_of_nat (length (l_entries l)), d, b, t)"
    using Append_contract_entry [OF Cons.prems(1), of d b t] by (auto simp: Append_call_def c)
  have "[length (l_entries l)..<length (l_entries l) + length (c # calls)]
      = length (l_entries l) # [Suc (length (l_entries l))..<Suc (length (l_entries l)) + length calls]"
    by (subst upt_conv_Cons) simp_all
  moreover have "map entry_call (l_entries (snd (run_seq (Append_call ed) calls (snd (Append_call ed c l)))))
    = map entry_call (l_entries l) @ [entry_call e]
      @ map2 call_at [Suc (length (l_entries l))..<Suc (length (l_entries l)) + length calls] calls"
    using Cons.IH [of "snd (Append_call ed c l)"] Cons.prems by (simp add: l')
  ultimately show ?case
    by (simp add: run_seq_snd_Cons e call_at_def c del: run_seq.simps(2))
qed

text \<open>No write is lost and no sequence number is used twice: with a key pair that
  keeps the Ed25519 contract, every \<open>Append\<close> of a sequence (the lock order of a
  concurrent run) appears in the log, in that order, with sequence numbers
  \<open>0, 1, 2, \<dots>\<close> and the decision, binding and time of its call.\<close>

lemma Log_appends_recorded:
  assumes "ed25519_contract ed priv pub" and "\<forall>c \<in> set calls. fst c = priv"
  shows "map entry_call (l_entries (snd (run_seq (Append_call ed) calls (NewLog pub))))
    = map2 call_at [0..<length calls] calls"
  using run_appends_recorded [of ed priv "NewLog pub" calls] assms by (simp add: NewLog_def)

text \<open>A signature scheme that keeps the contract, for concrete runs: the last half of
  the private key is the public key, and a signature is the public key followed by
  the digest of the message.\<close>

definition digest_scheme :: ed25519 where
  "digest_scheme =
     \<lparr>ed_sign = (\<lambda>priv msg. drop 32 priv @ sha256 msg),
      ed_verify = (\<lambda>pub msg sig. sig = pub @ sha256 msg)\<rparr>"

lemma digest_scheme_contract: "length priv = 64 \<Longrightarrow> ed25519_contract digest_scheme priv (drop 32 priv)"
  by (simp add: ed25519_contract_def digest_scheme_def)

section \<open>Tamper evidence\<close>

definition wf_entries :: "Entry list \<Rightarrow> bool" where
  "wf_entries es \<longleftrightarrow> (\<forall>e \<in> set es. wf_record (e_Record e))"

lemma wf_entries_simps [simp]:
  "wf_entries []" "wf_entries (es @ [e]) \<longleftrightarrow> wf_entries es \<and> wf_record (e_Record e)"
  by (auto simp: wf_entries_def)

lemma Append_wf:
  assumes "wf_entries (l_entries l)" and "length b = 32"
  shows "wf_entries (l_entries (snd (Append ed priv d b t l)))"
proof (cases "Append ed priv d b t l")
  case (Pair res l')
  then show ?thesis
    using assms by (cases rule: Append_cases) (simp_all add: Pair wf_record_def next_record_def)
qed

definition entries_collide :: "Entry list \<Rightarrow> Entry list \<Rightarrow> bool" where
  "entries_collide es fs \<longleftrightarrow>
     (\<exists>e \<in> set es. \<exists>f \<in> set fs. collision (CanonicalBytes (e_Record e)) (CanonicalBytes (e_Record f)))"

lemma chain_agrees:
  assumes "sound_entries ed pub es" "sound_entries ed' pub' fs" "wf_entries es" "wf_entries fs"
    and "length es = length fs" "prev_of es = prev_of fs" "\<not> entries_collide es fs"
  shows "map e_Record es = map e_Record fs"
  using assms
proof (induction es arbitrary: fs rule: rev_induct)
  case Nil
  then show ?case by simp
next
  case (snoc e es)
  obtain fs' f where fs: "fs = fs' @ [f]"
    using snoc.prems(5) by (cases fs rule: rev_cases) auto
  have "e_Record e = e_Record f"
    using snoc.prems Hash_eqD [of "e_Record e" "e_Record f"] by (auto simp: fs entries_collide_def)
  moreover from this have "prev_of es = prev_of fs'"
    using snoc.prems(1,2) by (simp add: fs sound_entries_snoc)
  then have "map e_Record es = map e_Record fs'"
    using snoc by (simp add: fs sound_entries_snoc entries_collide_def)
  ultimately show ?case
    by (simp add: fs)
qed

lemma sound_last_Seq:
  "sound_entries ed pub es \<Longrightarrow> es \<noteq> [] \<Longrightarrow> r_Seq (e_Record (last es)) = word_of_nat (length es - 1)"
  by (cases es rule: rev_cases) (simp_all add: sound_entries_snoc)

text \<open>C25. The hash chain is tamper-evident: two non-empty logs that both pass \<open>Verify\<close>
  (under any keys) and whose last records have the same hash hold the same records
  in the same order, or two of their canonical encodings are a SHA-256 collision.\<close>

theorem verified_logs_agree:
  assumes ver: "Log_Verify ed l = Return None" "Log_Verify ed' l' = Return None"
    and wf: "wf_entries (l_entries l)" "wf_entries (l_entries l')"
    and len: "0 < Log_Len l" "Log_Len l < 2 ^ 63" "0 < Log_Len l'" "Log_Len l' < 2 ^ 63"
    and head: "Hash (e_Record (last (l_entries l))) = Hash (e_Record (last (l_entries l')))"
  shows "map e_Record (l_entries l) = map e_Record (l_entries l')
    \<or> (\<exists>e \<in> set (l_entries l). \<exists>f \<in> set (l_entries l').
         collision (CanonicalBytes (e_Record e)) (CanonicalBytes (e_Record f)))"
proof (rule disjCI)
  let ?es = "l_entries l" and ?fs = "l_entries l'"
  assume "\<not> (\<exists>e \<in> set ?es. \<exists>f \<in> set ?fs.
      collision (CanonicalBytes (e_Record e)) (CanonicalBytes (e_Record f)))"
  then have nc: "\<not> entries_collide ?es ?fs"
    by (simp add: entries_collide_def)
  have ne: "?es \<noteq> []" "?fs \<noteq> []"
    using len by (auto simp: Log_Len_def)
  have rec: "e_Record (last ?es) = e_Record (last ?fs)"
    using Hash_eqD [OF head] wf ne nc by (auto simp: wf_entries_def entries_collide_def)
  then have "(word_of_nat (length ?es - 1) :: u64) = word_of_nat (length ?fs - 1)"
    using sound_last_Seq ver ne by (metis Log_Verify_iff)
  then have "length ?es - 1 = length ?fs - 1"
    using len by (simp add: Log_Len_def word_of_nat_eq_iff take_bit_eq_mod)
  then have "length ?es = length ?fs"
    using len(1,3) unfolding Log_Len_def by linarith
  moreover have "prev_of ?es = prev_of ?fs"
    using ne rec by (simp add: prev_of_def)
  ultimately show "map e_Record ?es = map e_Record ?fs"
    using chain_agrees [of ed "l_pub l" ?es ed' "l_pub l'" ?fs] ver wf nc by (simp add: Log_Verify_iff)
qed

definition sample_log :: Log where
  "sample_log = snd (Append digest_scheme (replicate 64 7) 0 (replicate 32 0x11) 1700000000
     (NewLog (replicate 32 7)))"

lemma sample_log_entries:
  "l_entries sample_log = [\<lparr>e_Record = next_record 0 (replicate 32 0x11) 1700000000 [],
     e_Signature = replicate 32 7 @ sha256 (CanonicalBytes (next_record 0 (replicate 32 0x11) 1700000000 []))\<rparr>]"
  by (simp add: sample_log_def Append_def NewLog_def Sign_def Verify_def ed25519_Sign_def
      ed25519_Verify_def digest_scheme_def Let_def)

lemma sample_log_verifies: "Log_Verify digest_scheme sample_log = Return None"
proof -
  have "sound_entries digest_scheme (l_pub sample_log) (l_entries sample_log)"
    unfolding sample_log_def by (rule Append_sound [OF surjective_pairing]) (simp add: NewLog_def)
  then show ?thesis
    by (simp add: Log_Verify_iff)
qed

lemma sample_log_wf: "wf_entries (l_entries sample_log)"
  by (simp add: sample_log_entries wf_entries_def wf_record_def next_record_def)

theorem verified_logs_agree_witness:
  "map e_Record (l_entries sample_log) = map e_Record (l_entries sample_log)
    \<or> (\<exists>e \<in> set (l_entries sample_log). \<exists>f \<in> set (l_entries sample_log).
         collision (CanonicalBytes (e_Record e)) (CanonicalBytes (e_Record f)))"
  by (rule verified_logs_agree [OF sample_log_verifies sample_log_verifies])
    (rule sample_log_wf, rule sample_log_wf, simp_all add: Log_Len_def sample_log_entries)

end
