(* ===== verification/Evidence.thy ===== *)
theory Evidence
  imports Prelude
begin

text \<open>
  \<open>evidence/evidence.go\<close>: the receipt and its vocabulary, and the interface through
  which an enforcement point emits one. An emitter is its \<open>Emit\<close> method on an
  abstract world, together with what the two type assertions of the source see: the
  unexported \<open>Noop\<close> marker, which only \<open>None\<close> has, and the optional \<open>Durable\<close>
  method, which is called on the world like the others.
\<close>

record Receipt =
  rc_PEP :: string
  rc_Decision :: string
  rc_Class :: string
  rc_RulePath :: string
  rc_TokenHash :: string
  rc_PolicyHash :: string
  rc_IntentDigest :: string
  rc_Jurisdiction :: string

definition Permit :: string where "Permit = ''PERMIT''"
definition Deny :: string where "Deny = ''DENY''"
definition ClassOK :: string where "ClassOK = ''ok''"
definition ClassViolation :: string where "ClassViolation = ''violation''"
definition ClassUnavailable :: string where "ClassUnavailable = ''unavailable''"

record 'w Emitter =
  em_Emit :: "Receipt \<Rightarrow> 'w \<Rightarrow> (goerror + string) \<times> 'w"
  em_Noop :: bool
  em_Durable :: "('w \<Rightarrow> bool \<times> 'w) option"

definition None_Emit :: "Receipt \<Rightarrow> 'w \<Rightarrow> (goerror + string) \<times> 'w" where
  "None_Emit rc w = (Inr [], w)"

definition None_Emitter :: "'w Emitter" where
  "None_Emitter = \<lparr>em_Emit = None_Emit, em_Noop = True, em_Durable = None\<rparr>"

end
