(* ===== verification/Http.thy ===== *)
theory Http
  imports Prelude
begin

text \<open>
  The part of \<open>net/http\<close> the handlers use: request headers under their canonical
  names, a response writer with its first status code, headers and body, and
  \<open>http.Error\<close>.
\<close>

section \<open>Header names\<close>

text \<open>The token characters of RFC 7230.\<close>

definition header_char :: "char \<Rightarrow> bool" where
  "header_char c \<longleftrightarrow>
     c \<in> set ''!#$%&*+-.^_|~0123456789abcdefghijklmnopqrstuvwxyzABCDEFGHIJKLMNOPQRSTUVWXYZ''
     \<or> of_char c = (39 :: nat) \<or> of_char c = (96 :: nat)"

definition shift_case :: "bool \<Rightarrow> char \<Rightarrow> char" where
  "shift_case up c =
     (let k = of_char c :: nat
      in if up \<and> 97 \<le> k \<and> k \<le> 122 then char_of (k - 32)
         else if \<not> up \<and> 65 \<le> k \<and> k \<le> 90 then char_of (k + 32)
         else c)"

fun canonical_chars :: "bool \<Rightarrow> string \<Rightarrow> string" where
  "canonical_chars up [] = []"
| "canonical_chars up (c # s) = shift_case up c # canonical_chars (c = CHR ''-'') s"

definition CanonicalHeaderKey :: "string \<Rightarrow> string" where
  "CanonicalHeaderKey s = (if list_all header_char s then canonical_chars True s else s)"

section \<open>Requests and responses\<close>

record Request =
  rq_Header :: "string \<Rightarrow> string list"
  rq_Path :: string

definition Header_Get :: "(string \<Rightarrow> string list) \<Rightarrow> string \<Rightarrow> string" where
  "Header_Get h key = (case h (CanonicalHeaderKey key) of [] \<Rightarrow> [] | v # _ \<Rightarrow> v)"

text \<open>A response under construction: the status is the first code written.\<close>

record Response =
  rs_Status :: "nat option"
  rs_Header :: "string \<Rightarrow> string list"
  rs_Body :: string

definition fresh_Response :: Response where
  "fresh_Response = \<lparr>rs_Status = None, rs_Header = (\<lambda>_. []), rs_Body = []\<rparr>"

definition Header_Set :: "string \<Rightarrow> string \<Rightarrow> Response \<Rightarrow> Response" where
  "Header_Set key v rs = rs\<lparr>rs_Header := (rs_Header rs)(CanonicalHeaderKey key := [v])\<rparr>"

definition Header_Del :: "string \<Rightarrow> Response \<Rightarrow> Response" where
  "Header_Del key rs = rs\<lparr>rs_Header := (rs_Header rs)(CanonicalHeaderKey key := [])\<rparr>"

definition WriteHeader :: "nat \<Rightarrow> Response \<Rightarrow> Response" where
  "WriteHeader c rs = (case rs_Status rs of None \<Rightarrow> rs\<lparr>rs_Status := Some c\<rparr> | Some _ \<Rightarrow> rs)"

definition Write :: "string \<Rightarrow> Response \<Rightarrow> Response" where
  "Write s rs = (let rs1 = WriteHeader 200 rs in rs1\<lparr>rs_Body := rs_Body rs1 @ s\<rparr>)"

definition http_Error :: "string \<Rightarrow> nat \<Rightarrow> Response \<Rightarrow> Response" where
  "http_Error msg c rs =
     Write (msg @ [char_of (10 :: nat)])
       (WriteHeader c
         (Header_Set ''X-Content-Type-Options'' ''nosniff''
           (Header_Set ''Content-Type'' ''text/plain; charset=utf-8''
             (Header_Del ''Content-Length'' rs))))"

lemma http_Error_status [simp]:
  "rs_Status rs = None \<Longrightarrow> rs_Status (http_Error msg c rs) = Some c"
  by (simp add: http_Error_def Write_def WriteHeader_def Header_Set_def Header_Del_def Let_def)

lemma http_Error_body [simp]:
  "rs_Body (http_Error msg c rs) = rs_Body rs @ msg @ [char_of (10 :: nat)]"
  by (simp add: http_Error_def Write_def WriteHeader_def Header_Set_def Header_Del_def Let_def
      split: option.splits)

end
