(* ===== verification/Pep.thy ===== *)
theory Pep
  imports PepToken TransLog Evidence Http
begin

text \<open>
  \<open>gateway/pep.go\<close>: the HTTP enforcement point. The interfaces and functions a \<open>PEP\<close>
  is configured with (policy, spend log, emitter, requirements, clock, alarm sink)
  and the protected handler act on an abstract world \<open>'w\<close>; a nil interface, pointer
  or function is \<open>None\<close>. Logs are shared by pointer, so the state has a store of logs
  by address. The trace records the externally visible calls in program order:
  receipts, chain entries, alarms and the forwarding to the protected handler.
\<close>

section \<open>Configuration\<close>

record 'w PEP =
  p_Allowlist :: Allowlist
  p_Policy :: "'w PolicyVerifier option"
  p_Spend :: "'w SpendLog option"
  p_Log :: "nat option"
  p_RKey :: bytes
  p_Evidence :: "'w Emitter option"
  p_Name :: string
  p_Requirements :: "(Request \<Rightarrow> 'w \<Rightarrow> PaymentRequirements \<times> 'w) option"
  p_Now :: "('w \<Rightarrow> time \<times> 'w) option"
  p_Logf :: "(string \<Rightarrow> string list \<Rightarrow> 'w \<Rightarrow> 'w) option"
  p_nonConformant :: bool

text \<open>The defaults the process supplies: \<open>time.Now\<close> and \<open>log.Printf\<close>.\<close>

record 'w host =
  host_Now :: "'w \<Rightarrow> time \<times> 'w"
  host_Printf :: "string \<Rightarrow> string list \<Rightarrow> 'w \<Rightarrow> 'w"

datatype event =
    EvEmit Receipt "goerror + string"
  | EvAppend nat byte bytes i64 "(goerror + Entry) outcome"
  | EvServe Request
  | EvLogf string "string list"

record 'w gw_state =
  gw_world :: 'w
  gw_logs :: "nat \<Rightarrow> Log"
  gw_trace :: "event list"

type_synonym 'w handler = "Request \<Rightarrow> Response \<Rightarrow> 'w \<Rightarrow> Response \<times> 'w"

definition HeaderToken :: string where
  "HeaderToken = ''X-SPT-Txn''"

definition HeaderLogEntry :: string where
  "HeaderLogEntry = ''X-SPT-Txn-Log-Entry''"

definition em_dash :: string where
  "em_dash = map char_of [0xE2 :: nat, 0x80, 0x94]"

section \<open>Calls on the configured parts\<close>

definition on_world :: "('w \<Rightarrow> 'a \<times> 'w) \<Rightarrow> ('w gw_state, 'a) proc" where
  "on_world f s = (case f (gw_world s) of (x, w) \<Rightarrow> (Return x, s\<lparr>gw_world := w\<rparr>))"

definition PEP_logf :: "'w host \<Rightarrow> 'w PEP \<Rightarrow> string \<Rightarrow> string list \<Rightarrow> 'w gw_state \<Rightarrow> 'w gw_state" where
  "PEP_logf host p fmt args s =
     s\<lparr>gw_world := (case p_Logf p of Some f \<Rightarrow> f fmt args | None \<Rightarrow> host_Printf host fmt args) (gw_world s),
       gw_trace := gw_trace s @ [EvLogf fmt args]\<rparr>"

definition PEP_now :: "'w host \<Rightarrow> 'w PEP \<Rightarrow> ('w gw_state, time) proc" where
  "PEP_now host p = on_world (case p_Now p of Some f \<Rightarrow> f | None \<Rightarrow> host_Now host)"

definition PEP_Emit :: "'w PEP \<Rightarrow> Receipt \<Rightarrow> ('w gw_state, goerror + string) proc" where
  "PEP_Emit p rc s =
     (case p_Evidence p of
        None \<Rightarrow> panic nil_dereference s
      | Some em \<Rightarrow>
          (case em_Emit em rc (gw_world s) of (r, w) \<Rightarrow>
             (Return r, s\<lparr>gw_world := w, gw_trace := gw_trace s @ [EvEmit rc r]\<rparr>)))"

definition PEP_Append ::
  "ed25519 \<Rightarrow> 'w PEP \<Rightarrow> byte \<Rightarrow> bytes \<Rightarrow> i64 \<Rightarrow> ('w gw_state, goerror + Entry) proc" where
  "PEP_Append ed p dec binding t s =
     (case p_Log p of
        None \<Rightarrow> panic nil_dereference s
      | Some a \<Rightarrow>
          (case Append ed (p_RKey p) dec binding t (gw_logs s a) of (r, l) \<Rightarrow>
             (r, s\<lparr>gw_logs := (gw_logs s)(a := l),
                   gw_trace := gw_trace s @ [EvAppend a dec binding t r]\<rparr>)))"

definition PEP_Requirements :: "'w PEP \<Rightarrow> Request \<Rightarrow> ('w gw_state, PaymentRequirements) proc" where
  "PEP_Requirements p r =
     (case p_Requirements p of None \<Rightarrow> panic nil_dereference | Some f \<Rightarrow> on_world (f r))"

text \<open>\<open>gate.Evaluate\<close> on interface values that may be nil: reaching a nil policy or
  spend log panics. The flag beside the world records that a nil method was called;
  what \<open>Evaluate\<close> would have answered after it is discarded.\<close>

definition iface_policy :: "'w PolicyVerifier option \<Rightarrow> ('w \<times> bool) PolicyVerifier" where
  "iface_policy pol pr tok w =
     (case pol of
        Some f \<Rightarrow> (case f pr tok (fst w) of (e, w') \<Rightarrow> (e, (w', snd w)))
      | None \<Rightarrow> (Some (NewError nil_dereference), (fst w, True)))"

definition iface_spend :: "'w SpendLog option \<Rightarrow> ('w \<times> bool) SpendLog" where
  "iface_spend sp n w =
     (case sp of
        Some f \<Rightarrow> (case f n (fst w) of (e, w') \<Rightarrow> (e, (w', snd w)))
      | None \<Rightarrow> (Some (NewError nil_dereference), (fst w, True)))"

definition PEP_Evaluate ::
  "'w PEP \<Rightarrow> PaymentRequirements \<Rightarrow> Token \<Rightarrow> time \<Rightarrow> ('w gw_state, Gate.Decision) proc" where
  "PEP_Evaluate p req tok now s =
     (case Evaluate (p_Allowlist p) req tok (iface_policy (p_Policy p)) (iface_spend (p_Spend p)) now
             (gw_world s, False) of
        (d, (w, reached_nil)) \<Rightarrow>
          ((if reached_nil then Panic nil_dereference else Return d), s\<lparr>gw_world := w\<rparr>))"

section \<open>Construction\<close>

definition NewPEP :: "'w host \<Rightarrow> 'w PEP \<Rightarrow> 'w gw_state \<Rightarrow> (goerror + 'w PEP) \<times> 'w gw_state" where
  "NewPEP host p s =
     (case p_Evidence p of
        None \<Rightarrow> (Inl (NewError (''gateway: nil Evidence emitter '' @ em_dash
                  @ '' pass evidence.None{} to opt out explicitly'')), s)
      | Some em \<Rightarrow>
          if p_Log p = None then (Inl (NewError ''gateway: nil transparency Log''), s)
          else if length (p_RKey p) \<noteq> 64 then (Inl (NewError ''gateway: bad log-signing key size''), s)
          else if p_Requirements p = None then (Inl (NewError ''gateway: nil Requirements func''), s)
          else if p_Name p = [] then
            (Inl (NewError (''gateway: empty Name '' @ em_dash @ '' receipts must identify their PEP'')), s)
          else if em_Noop em then
            (let pep = p\<lparr>p_nonConformant := True\<rparr>
             in (Inr pep, PEP_logf host pep
                  (''evidence: WARNING None emitter '' @ em_dash
                   @ '' this PEP records NO receipts and is NOT conformant with draft-03 (a receipt at every decision, including denials). Acceptable only as a deliberate test/demo/benchmark choice; a health endpoint SHOULD surface Conformant()==false.'')
                  [] s))
          else
            (case em_Durable em of
               None \<Rightarrow> (Inr p, s)
             | Some durable \<Rightarrow>
                 (case durable (gw_world s) of (ok, w) \<Rightarrow>
                    if \<not> ok then
                      (Inr p, PEP_logf host p
                        (''evidence: WARNING emitter reports Durable()==false '' @ em_dash
                         @ '' Emit may return before the receipt is durable, which voids the fail-closed guarantee that an ALLOW is served only once its receipt is durably recorded.'')
                        [] (s\<lparr>gw_world := w\<rparr>))
                    else (Inr p, s\<lparr>gw_world := w\<rparr>))))"

definition Conformant :: "'w PEP \<Rightarrow> bool" where
  "Conformant p = (\<not> p_nonConformant p)"

section \<open>Decisions\<close>

definition receiptFor :: "'w PEP \<Rightarrow> Gate.Decision \<Rightarrow> string \<Rightarrow> Receipt" where
  "receiptFor p d tokenHash =
     (let r = \<lparr>rc_PEP = p_Name p, rc_Decision = Deny, rc_Class = ClassViolation,
               rc_RulePath = d_Reason d, rc_TokenHash = tokenHash, rc_PolicyHash = [],
               rc_IntentDigest = hex_EncodeToString (d_Binding d), rc_Jurisdiction = []\<rparr>
      in case d_Class d of
           Allow \<Rightarrow> r\<lparr>rc_Decision := Permit, rc_Class := ClassOK\<rparr>
         | DenyUnavailable \<Rightarrow> r\<lparr>rc_Class := ClassUnavailable\<rparr>
         | _ \<Rightarrow> r)"

fun mapDecision :: "DecisionClass \<Rightarrow> byte outcome" where
  "mapDecision Allow = Return tl_Allow"
| "mapDecision DenyViolation = Return tl_DenyViolation"
| "mapDecision DenyUnavailable = Return tl_DenyUnavailable"
| "mapDecision (UnmappedClass c) =
     Panic (''gateway: unmapped gate decision class '' @ show_int c)"

definition PEP_mapDecision :: "DecisionClass \<Rightarrow> ('w gw_state, byte) proc" where
  "PEP_mapDecision c s = (mapDecision c, s)"

definition logEntryTag :: "Entry \<Rightarrow> string" where
  "logEntryTag e =
     show_nat (unat (r_Seq (e_Record e))) @ '':'' @ hex_EncodeToString (take 8 (Hash (e_Record e)))"

text \<open>\<open>recordDeny\<close> binds the receipt's error first, then the entry's; both are only
  alarmed.\<close>

definition recordDeny ::
  "ed25519 \<Rightarrow> 'w host \<Rightarrow> 'w PEP \<Rightarrow> Receipt \<Rightarrow> byte \<Rightarrow> bytes \<Rightarrow> ('w gw_state, unit) proc" where
  "recordDeny ed host p rc dec binding =
     and_then (PEP_Emit p rc) (\<lambda>er s1.
       let s2 = (case er of Inr _ \<Rightarrow> s1
            | Inl err \<Rightarrow> PEP_logf host p ''EVIDENCE FAILURE (deny receipt, still denying): %v'' [Error err] s1)
       in and_then (PEP_now host p) (\<lambda>now.
            and_then (PEP_Append ed p dec binding (Unix now)) (\<lambda>ar s3.
              ret () (case ar of Inr _ \<Rightarrow> s3
                | Inl err \<Rightarrow> PEP_logf host p ''EVIDENCE FAILURE (deny log entry, still denying): %v'' [Error err] s3))) s2)"

section \<open>The middleware\<close>

definition forward :: "'w handler \<Rightarrow> Request \<Rightarrow> Response \<Rightarrow> ('w gw_state, Response) proc" where
  "forward nxt r rs s =
     (case nxt r rs (gw_world s) of (rs', w) \<Rightarrow>
        (Return rs', s\<lparr>gw_world := w, gw_trace := gw_trace s @ [EvServe r]\<rparr>))"

definition Wrap_decide :: "'w host \<Rightarrow> 'w PEP \<Rightarrow> Token \<Rightarrow> Request \<Rightarrow> ('w gw_state, Gate.Decision) proc" where
  "Wrap_decide host p tok r =
     and_then (PEP_Requirements p r) (\<lambda>req.
     and_then (PEP_now host p) (\<lambda>now.
       PEP_Evaluate p req tok now))"

definition Wrap_allow ::
  "ed25519 \<Rightarrow> 'w host \<Rightarrow> 'w PEP \<Rightarrow> 'w handler \<Rightarrow> Request \<Rightarrow> Response \<Rightarrow> Receipt \<Rightarrow> Gate.Decision
     \<Rightarrow> ('w gw_state, Response) proc" where
  "Wrap_allow ed host p nxt r rs rc d =
     and_then (PEP_Emit p rc) (\<lambda>er.
       case er of
         Inl err \<Rightarrow> ret (http_Error ''authorization unavailable: receipt not durably recorded'' 503 rs)
       | Inr _ \<Rightarrow>
         and_then (PEP_mapDecision (d_Class d)) (\<lambda>dec.
         and_then (PEP_now host p) (\<lambda>now.
         and_then (PEP_Append ed p dec (d_Binding d) (Unix now)) (\<lambda>ar.
           case ar of
             Inl err \<Rightarrow> ret (http_Error ''authorization unavailable: decision not durably logged'' 503 rs)
           | Inr entry \<Rightarrow> forward nxt r (Header_Set HeaderLogEntry (logEntryTag entry) rs)))))"

definition Wrap_deny ::
  "ed25519 \<Rightarrow> 'w host \<Rightarrow> 'w PEP \<Rightarrow> Response \<Rightarrow> Receipt \<Rightarrow> Gate.Decision \<Rightarrow> ('w gw_state, Response) proc" where
  "Wrap_deny ed host p rs rc d =
     and_then (PEP_mapDecision (d_Class d)) (\<lambda>dec.
     and_then (recordDeny ed host p rc dec (d_Binding d)) (\<lambda>_.
       ret (if d_Class d = DenyUnavailable
            then http_Error (''authorization unavailable: '' @ d_Reason d) 503 rs
            else http_Error (''authorization denied: '' @ d_Reason d) 402 rs)))"

definition Wrap ::
  "ed25519 \<Rightarrow> 'w host \<Rightarrow> 'w PEP \<Rightarrow> 'w handler \<Rightarrow> Request \<Rightarrow> Response \<Rightarrow> ('w gw_state, Response) proc" where
  "Wrap ed host p nxt r rs =
     (let raw = Header_Get (rq_Header r) HeaderToken
      in case parseToken raw of
           None \<Rightarrow> ret (http_Error ''missing or malformed X-SPT-Txn authorization'' 401 rs)
         | Some tok \<Rightarrow>
             and_then (Wrap_decide host p tok r) (\<lambda>d.
               let rc = receiptFor p d (tokenFingerprint raw)
               in if d_Class d = Allow then Wrap_allow ed host p nxt r rs rc d
                  else Wrap_deny ed host p rs rc d))"

section \<open>What one call does to the logs and the trace\<close>

definition quiet :: "'w gw_state \<Rightarrow> 'w gw_state \<Rightarrow> bool" where
  "quiet s s' \<longleftrightarrow> gw_logs s' = gw_logs s \<and> gw_trace s' = gw_trace s"

lemma quiet_refl [simp]: "quiet s s"
  by (simp add: quiet_def)

lemma and_then_cases [consumes 1, case_names panic return]:
  assumes "and_then m k s = (res, s')"
  obtains msg where "m s = (Panic msg, s')" "res = Panic msg"
  | x s1 where "m s = (Return x, s1)" "k x s1 = (res, s')"
  using assms by (auto simp: and_then_def split: prod.splits outcome.splits)

definition clock :: "'w host \<Rightarrow> 'w PEP \<Rightarrow> 'w \<Rightarrow> time \<times> 'w" where
  "clock host p = (case p_Now p of Some f \<Rightarrow> f | None \<Rightarrow> host_Now host)"

lemma PEP_now_eq:
  "PEP_now host p s =
     (Return (fst (clock host p (gw_world s))), s\<lparr>gw_world := snd (clock host p (gw_world s))\<rparr>)"
  by (simp add: PEP_now_def on_world_def clock_def split: prod.splits)

lemma and_then_PEP_now:
  "and_then (PEP_now host p) k s =
     k (fst (clock host p (gw_world s))) (s\<lparr>gw_world := snd (clock host p (gw_world s))\<rparr>)"
  by (simp add: and_then_def PEP_now_eq)

lemma and_then_mapDecision:
  "and_then (PEP_mapDecision c) k s =
     (case mapDecision c of Return dec \<Rightarrow> k dec s | Panic m \<Rightarrow> (Panic m, s))"
  by (simp add: and_then_def PEP_mapDecision_def split: outcome.splits)

lemma PEP_Emit_cases [consumes 1, case_names nil emitted]:
  assumes "PEP_Emit p rc s = (res, s')"
  obtains "p_Evidence p = None" "res = Panic nil_dereference" "s' = s"
  | em r where "p_Evidence p = Some em" "em_Emit em rc (gw_world s) = (r, gw_world s')" "res = Return r"
      "gw_logs s' = gw_logs s" "gw_trace s' = gw_trace s @ [EvEmit rc r]"
  using assms by (auto simp: PEP_Emit_def split: option.splits prod.splits)

lemma PEP_Append_cases [consumes 1, case_names nil called]:
  assumes "PEP_Append ed p dec b t s = (res, s')"
  obtains "p_Log p = None" "res = Panic nil_dereference" "s' = s"
  | a l where "p_Log p = Some a" "Append ed (p_RKey p) dec b t (gw_logs s a) = (res, l)"
      "gw_world s' = gw_world s" "gw_logs s' = (gw_logs s)(a := l)"
      "gw_trace s' = gw_trace s @ [EvAppend a dec b t res]"
  using assms by (auto simp: PEP_Append_def split: option.splits prod.splits)

lemma iface_some:
  "fst (iface_policy (Some pol) pr tok (w, b)) = fst (pol pr tok w)"
  "snd (iface_policy (Some pol) pr tok (w, b)) = (snd (pol pr tok w), b)"
  "fst (iface_spend (Some sp) n (w, b)) = fst (sp n w)"
  "snd (iface_spend (Some sp) n (w, b)) = (snd (sp n w), b)"
  by (simp_all add: iface_policy_def iface_spend_def split: prod.splits)

text \<open>With a policy and a spend log present the call is \<open>gate.Evaluate\<close> on them.\<close>

lemma Evaluate_iface:
  assumes "Evaluate al pr tok pol sp now w = (d, w')"
  shows "Evaluate al pr tok (iface_policy (Some pol)) (iface_spend (Some sp)) now (w, b) = (d, (w', b))"
  using assms
  by (auto simp: Evaluate_def iface_policy_def iface_spend_def split: prod.splits option.splits if_splits)

lemma PEP_Evaluate_ready:
  assumes "p_Policy p = Some pol" and "p_Spend p = Some sp"
    and "Evaluate (p_Allowlist p) req tok pol sp now (gw_world s) = (d, w')"
  shows "PEP_Evaluate p req tok now s = (Return d, s\<lparr>gw_world := w'\<rparr>)"
  using assms by (simp add: PEP_Evaluate_def Evaluate_iface)

lemma Wrap_decide_eq:
  "Wrap_decide host p tok r s =
     (case p_Requirements p of
        None \<Rightarrow> (Panic nil_dereference, s)
      | Some f \<Rightarrow>
     (case f r (gw_world s) of (req, w1) \<Rightarrow>
     (case clock host p w1 of (now, w2) \<Rightarrow>
     (case Evaluate (p_Allowlist p) req tok (iface_policy (p_Policy p)) (iface_spend (p_Spend p)) now (w2, False) of
        (d, (w3, reached_nil)) \<Rightarrow>
          ((if reached_nil then Panic nil_dereference else Return d), s\<lparr>gw_world := w3\<rparr>)))))"
  by (simp add: Wrap_decide_def PEP_Requirements_def and_then_def [of "on_world _"] and_then_def [of "panic _"]
      on_world_def PEP_Evaluate_def and_then_PEP_now split: option.split prod.split)

lemma Wrap_decide_quiet: "Wrap_decide host p tok r s = (res, s') \<Longrightarrow> quiet s s'"
  by (auto simp: Wrap_decide_eq quiet_def split: option.splits prod.splits)

text \<open>The payment demanded, the instant read and the world in which the gate decides.\<close>

lemma Wrap_decided:
  assumes "Wrap_decide host p tok r s = (Return d, s')"
  obtains f req w1 now w2 where "p_Requirements p = Some f" "f r (gw_world s) = (req, w1)"
    "clock host p w1 = (now, w2)"
    "Evaluate (p_Allowlist p) req tok (iface_policy (p_Policy p)) (iface_spend (p_Spend p)) now (w2, False)
       = (d, (gw_world s', False))"
  using assms
  by (auto simp: Wrap_decide_eq split: option.splits prod.splits if_splits)

lemma Wrap_decide_mapped: "Wrap_decide host p tok r s = (Return d, s') \<Longrightarrow> d_Class d \<noteq> UnmappedClass c"
  by (elim Wrap_decided) (metis Evaluate_mapped fst_conv)

lemma Wrap_decide_binding: "Wrap_decide host p tok r s = (Return d, s') \<Longrightarrow> length (d_Binding d) = 32"
  by (elim Wrap_decided) (metis Evaluate_binding fst_conv length_ComputeBinding)

text \<open>The branches of an allowed request.\<close>

text \<open>The part of \<open>Wrap_allow\<close> after the receipt: append the entry, then forward.\<close>

abbreviation append_forward ::
  "ed25519 \<Rightarrow> 'w PEP \<Rightarrow> 'w handler \<Rightarrow> Request \<Rightarrow> Response \<Rightarrow> bytes \<Rightarrow> i64 \<Rightarrow> ('w gw_state, Response) proc" where
  "append_forward ed p nxt r rs b t \<equiv> and_then (PEP_Append ed p tl_Allow b t) (\<lambda>ar.
     case ar of
       Inl err \<Rightarrow> ret (http_Error ''authorization unavailable: decision not durably logged'' 503 rs)
     | Inr entry \<Rightarrow> forward nxt r (Header_Set HeaderLogEntry (logEntryTag entry) rs))"

lemma append_forward_cases [consumes 1, case_names unlogged panicked served]:
  assumes "append_forward ed p nxt r rs b t s = (res, s')"
  obtains a err where "res = Return (http_Error ''authorization unavailable: decision not durably logged'' 503 rs)"
      "gw_logs s' = gw_logs s" "p_Log p = Some a"
      "Append ed (p_RKey p) tl_Allow b t (gw_logs s a) = (Return (Inl err), gw_logs s a)"
      "gw_trace s' = gw_trace s @ [EvAppend a tl_Allow b t (Return (Inl err))]"
  | m new where "res = Panic m" "gw_logs s' = gw_logs s" "gw_trace s' = gw_trace s @ new"
      "\<forall>ev \<in> set new. \<forall>q. ev \<noteq> EvServe q"
      "p_Log p = None \<or> (\<exists>a. p_Log p = Some a \<and> fst (Append ed (p_RKey p) tl_Allow b t (gw_logs s a)) = Panic m)"
  | a e l w rs' where "p_Log p = Some a"
      "Append ed (p_RKey p) tl_Allow b t (gw_logs s a) = (Return (Inr e), l)" "gw_logs s' = (gw_logs s)(a := l)"
      "gw_trace s' = gw_trace s @ [EvAppend a tl_Allow b t (Return (Inr e)), EvServe r]"
      "res = Return rs'" "nxt r (Header_Set HeaderLogEntry (logEntryTag e) rs) w = (rs', gw_world s')"
  using assms
proof (cases rule: and_then_cases)
  case (panic m)
  from panic(1) show thesis
  proof (cases rule: PEP_Append_cases)
    case nil
    with panic that(2) [of m "[]"] show thesis
      by simp
  next
    case (called a l)
    then have "l = gw_logs s a"
      by (auto elim: Append_cases)
    with called panic that(2) [of m "[EvAppend a tl_Allow b t (Panic m)]"] show thesis
      by (simp add: fun_upd_idem)
  qed
next
  case (return ar s3)
  from return(1) show thesis
  proof (cases rule: PEP_Append_cases)
    case (called a l)
    show thesis
    proof (cases ar)
      case (Inl err)
      with called(2) have "l = gw_logs s a"
        by (auto elim: Append_cases)
      with Inl called return that(1) [of a err] show thesis
        by (simp add: fun_upd_idem)
    next
      case (Inr e)
      with called return show thesis
        by (auto simp: forward_def split: prod.splits intro!: that(3) [of a e l])
    qed
  qed simp
qed

lemma Wrap_allow_cases [consumes 2, case_names unreceipted unlogged panicked served]:
  assumes "Wrap_allow ed host p nxt r rs rc d s = (res, s')" and "d_Class d = Allow"
  obtains err where "res = Return (http_Error ''authorization unavailable: receipt not durably recorded'' 503 rs)"
      "gw_logs s' = gw_logs s" "gw_trace s' = gw_trace s @ [EvEmit rc (Inl err)]"
  | loc a t err where "res = Return (http_Error ''authorization unavailable: decision not durably logged'' 503 rs)"
      "gw_logs s' = gw_logs s" "p_Log p = Some a"
      "Append ed (p_RKey p) tl_Allow (d_Binding d) t (gw_logs s a) = (Return (Inl err), gw_logs s a)"
      "gw_trace s' = gw_trace s @ [EvEmit rc (Inr loc), EvAppend a tl_Allow (d_Binding d) t (Return (Inl err))]"
  | m new where "res = Panic m" "gw_logs s' = gw_logs s" "gw_trace s' = gw_trace s @ new"
      "\<forall>ev \<in> set new. \<forall>q. ev \<noteq> EvServe q"
      "p_Evidence p = None \<or> p_Log p = None
       \<or> (\<exists>a t. p_Log p = Some a \<and> fst (Append ed (p_RKey p) tl_Allow (d_Binding d) t (gw_logs s a)) = Panic m)"
  | loc a t e l w rs' where "p_Log p = Some a"
      "Append ed (p_RKey p) tl_Allow (d_Binding d) t (gw_logs s a) = (Return (Inr e), l)"
      "gw_logs s' = (gw_logs s)(a := l)"
      "gw_trace s' = gw_trace s
         @ [EvEmit rc (Inr loc), EvAppend a tl_Allow (d_Binding d) t (Return (Inr e)), EvServe r]"
      "res = Return rs'" "nxt r (Header_Set HeaderLogEntry (logEntryTag e) rs) w = (rs', gw_world s')"
  using assms(1) unfolding Wrap_allow_def
proof (cases rule: and_then_cases)
  case (panic msg)
  from panic(1) show thesis
    by (cases rule: PEP_Emit_cases) (use that(3) [of msg "[]"] panic in auto)
next
  case (return er s1)
  from return(1) show thesis
  proof (cases rule: PEP_Emit_cases)
    case emitted
    show thesis
    proof (cases er)
      case (Inl err)
      with return(2) have "res = Return (http_Error ''authorization unavailable: receipt not durably recorded'' 503 rs)"
        and "s' = s1"
        by simp_all
      with emitted Inl show thesis
        by (intro that(1) [of err]) simp_all
    next
      case (Inr loc)
      with return(2) assms(2) obtain t s2 where
        app: "append_forward ed p nxt r rs (d_Binding d) t s2 = (res, s')"
        and s2: "gw_logs s2 = gw_logs s1" "gw_trace s2 = gw_trace s1"
        by (auto simp: and_then_mapDecision and_then_PEP_now)
      note st = s2 emitted(3,4,5) Inr
      from app show thesis
      proof (cases rule: append_forward_cases)
        case (panicked m new)
        with st show thesis
          by (intro that(3) [of m "EvEmit rc (Inr loc) # new"]) auto
      qed (use st that(2,4) in auto)
    qed
  qed simp
qed

text \<open>A denial: at most one chain entry, never an ALLOW, and nothing is forwarded.\<close>

lemma mapDecision_deny:
  "mapDecision c = Return dec \<Longrightarrow> c \<noteq> Allow \<Longrightarrow> dec \<noteq> tl_Allow"
  by (cases c) (auto simp: tl_Allow_def tl_DenyViolation_def tl_DenyUnavailable_def)

definition denial :: "byte \<Rightarrow> bool" where
  "denial dec \<longleftrightarrow> dec = tl_DenyViolation \<or> dec = tl_DenyUnavailable"

lemma denial_not_Allow: "denial dec \<Longrightarrow> dec \<noteq> tl_Allow"
  by (auto simp: denial_def tl_Allow_def tl_DenyViolation_def tl_DenyUnavailable_def)

lemma mapDecision_denial: "mapDecision c = Return dec \<Longrightarrow> c \<noteq> Allow \<Longrightarrow> denial dec"
  by (cases c) (auto simp: denial_def)

definition only_evidence :: "event list \<Rightarrow> bool" where
  "only_evidence new \<longleftrightarrow> (\<forall>ev \<in> set new. \<forall>q. ev \<noteq> EvServe q)"

lemma only_evidence_simps [simp]:
  "only_evidence []" "only_evidence (ev # evs) \<longleftrightarrow> (\<forall>q. ev \<noteq> EvServe q) \<and> only_evidence evs"
  by (auto simp: only_evidence_def)

lemma only_evidence_append [simp]: "only_evidence (xs @ ys) \<longleftrightarrow> only_evidence xs \<and> only_evidence ys"
  by (induction xs) auto

text \<open>At most one \<open>Append\<close>, of a decision and binding in \<open>P\<close>, on the configured log.\<close>

definition logs_step :: "ed25519 \<Rightarrow> 'w PEP \<Rightarrow> (byte \<Rightarrow> bytes \<Rightarrow> bool) \<Rightarrow> 'w gw_state \<Rightarrow> 'w gw_state \<Rightarrow> bool" where
  "logs_step ed p P s s' \<longleftrightarrow> gw_logs s' = gw_logs s
     \<or> (\<exists>a dec b t r l. p_Log p = Some a \<and> P dec b
          \<and> Append ed (p_RKey p) dec b t (gw_logs s a) = (r, l) \<and> gw_logs s' = (gw_logs s)(a := l))"

lemma logs_step_mono:
  assumes "logs_step ed p P s1 s'" and "gw_logs s1 = gw_logs s" and "\<And>dec b. P dec b \<Longrightarrow> Q dec b"
  shows "logs_step ed p Q s s'"
  using assms unfolding logs_step_def by metis

lemma PEP_Append_step:
  assumes "PEP_Append ed p dec b t s = (res, s')" and "P dec b"
  shows "logs_step ed p P s s' \<and> (\<exists>new. gw_trace s' = gw_trace s @ new \<and> only_evidence new)"
  using assms(1)
proof (cases rule: PEP_Append_cases)
  case (called a l)
  with assms(2) have "logs_step ed p P s s'"
    unfolding logs_step_def by blast
  with called show ?thesis
    by simp
qed (simp add: logs_step_def)

lemma PEP_logf_simps [simp]:
  "gw_logs (PEP_logf host p fmt args s) = gw_logs s"
  "gw_trace (PEP_logf host p fmt args s) = gw_trace s @ [EvLogf fmt args]"
  by (simp_all add: PEP_logf_def)

lemma recordDeny_effect:
  assumes "recordDeny ed host p rc dec b s = (res, s')" and "P dec b"
  shows "logs_step ed p P s s' \<and> (\<exists>new. gw_trace s' = gw_trace s @ new \<and> only_evidence new)"
  using assms(1) unfolding recordDeny_def
proof (cases rule: and_then_cases)
  case (panic msg)
  from panic(1) show ?thesis
    by (cases rule: PEP_Emit_cases) (simp_all add: logs_step_def)
next
  case (return er s1)
  define s2 where "s2 = (case er of Inr _ \<Rightarrow> s1
    | Inl err \<Rightarrow> PEP_logf host p ''EVIDENCE FAILURE (deny receipt, still denying): %v'' [Error err] s1)"
  have s2: "gw_logs s2 = gw_logs s" "\<exists>new. gw_trace s2 = gw_trace s @ new \<and> only_evidence new"
    using return(1) by (cases rule: PEP_Emit_cases; simp add: s2_def split: sum.split)+
  define s3 where "s3 = s2\<lparr>gw_world := snd (clock host p (gw_world s2))\<rparr>"
  have s3: "gw_logs s3 = gw_logs s2" "gw_trace s3 = gw_trace s2"
    by (simp_all add: s3_def)
  define t where "t = Unix (fst (clock host p (gw_world s2)))"
  have app: "and_then (PEP_Append ed p dec b t) (\<lambda>ar s3.
        ret () (case ar of Inr _ \<Rightarrow> s3
          | Inl err \<Rightarrow> PEP_logf host p ''EVIDENCE FAILURE (deny log entry, still denying): %v'' [Error err] s3)) s3
      = (res, s')"
    using return(2) unfolding Let_def and_then_PEP_now s2_def [symmetric] s3_def [symmetric] t_def [symmetric] .
  obtain r4 s4 where s4: "PEP_Append ed p dec b t s3 = (r4, s4)" "gw_logs s' = gw_logs s4"
      "\<exists>new. gw_trace s' = gw_trace s4 @ new \<and> only_evidence new"
    using app by (cases rule: and_then_cases) (auto split: sum.splits)
  from PEP_Append_step [where P = P, OF s4(1) assms(2)] s2(1) s3(1) s4(2)
  have "logs_step ed p P s s'"
    by (simp add: logs_step_def)
  moreover have "\<exists>new. gw_trace s' = gw_trace s @ new \<and> only_evidence new"
    using PEP_Append_step [where P = P, OF s4(1) assms(2)] s2(2) s3(2) s4(3)
    by (auto simp: only_evidence_append)
  ultimately show ?thesis ..
qed

text \<open>A denial that returns has made exactly one append.\<close>

lemma recordDeny_appends:
  assumes "recordDeny ed host p rc dec b s = (Return (), s')" and "p_Log p = Some a"
  shows "\<exists>t r l. Append ed (p_RKey p) dec b t (gw_logs s a) = (Return r, l) \<and> gw_logs s' = (gw_logs s)(a := l)"
  using assms unfolding recordDeny_def Let_def
  by (auto simp: and_then_PEP_now elim!: and_then_cases PEP_Emit_cases PEP_Append_cases split: sum.splits)
    (blast+)

lemma Wrap_deny_appends:
  assumes "Wrap_deny ed host p rs rc d s = (Return rs', s')" and "p_Log p = Some a"
  shows "\<exists>dec t r l. mapDecision (d_Class d) = Return dec
    \<and> Append ed (p_RKey p) dec (d_Binding d) t (gw_logs s a) = (Return r, l) \<and> gw_logs s' = (gw_logs s)(a := l)"
proof (cases "mapDecision (d_Class d)")
  case (Return dec)
  with assms(1) have "recordDeny ed host p rc dec (d_Binding d) s = (Return (), s')"
    by (auto simp: Wrap_deny_def and_then_mapDecision elim!: and_then_cases)
  from recordDeny_appends [OF this assms(2)] Return show ?thesis
    by blast
qed (use assms(1) in \<open>simp add: Wrap_deny_def and_then_mapDecision\<close>)

lemma Wrap_deny_effect:
  assumes "Wrap_deny ed host p rs rc d s = (res, s')" and "d_Class d \<noteq> Allow"
  shows "logs_step ed p (\<lambda>dec b. denial dec \<and> b = d_Binding d) s s'
    \<and> (\<exists>new. gw_trace s' = gw_trace s @ new \<and> only_evidence new)"
proof (cases "mapDecision (d_Class d)")
  case (Return dec)
  with assms obtain res' where "recordDeny ed host p rc dec (d_Binding d) s = (res', s')"
    by (auto simp: Wrap_deny_def and_then_mapDecision elim!: and_then_cases)
  then show ?thesis
    by (rule recordDeny_effect) (simp add: mapDecision_denial [OF Return assms(2)])
next
  case (Panic m)
  with assms show ?thesis
    by (simp add: Wrap_deny_def and_then_mapDecision logs_step_def)
qed

text \<open>The answer to a denial does not depend on what the evidence path does.\<close>

lemma recordDeny_returns:
  assumes "p_Evidence p \<noteq> None" and "p_Log p = Some a" and "length (p_RKey p) = 64"
    and "length (l_pub (gw_logs s a)) = 32"
  shows "fst (recordDeny ed host p rc dec b s) = Return ()"
proof -
  obtain em where em: "p_Evidence p = Some em"
    using assms(1) by blast
  have app: "\<exists>x. fst (Append ed (p_RKey p) dec b t (gw_logs s a)) = Return x" for t
    using assms(3,4) by (simp add: Append_def Sign_def Verify_def ed25519_Sign_def ed25519_Verify_def Let_def)
  show ?thesis
  proof (rule ccontr)
    assume "fst (recordDeny ed host p rc dec b s) \<noteq> Return ()"
    then obtain m s' where "recordDeny ed host p rc dec b s = (Panic m, s')"
      by (metis old.unit.exhaust outcome.exhaust prod.collapse)
    then obtain t l where "Append ed (p_RKey p) dec b t (gw_logs s a) = (Panic m, l)"
      unfolding recordDeny_def
      by (auto simp: and_then_PEP_now Let_def em assms(2) elim!: and_then_cases PEP_Emit_cases PEP_Append_cases
          split: sum.splits)
    with app show False
      by (metis fst_conv outcome.distinct(1))
  qed
qed

section \<open>Outcomes of one request\<close>

lemma Wrap_cases [consumes 1, case_names unserved served]:
  assumes "Wrap ed host p nxt r rs s = (res, s')"
  obtains new where "gw_trace s' = gw_trace s @ new" "only_evidence new"
      "logs_step ed p (\<lambda>dec b. denial dec \<and> length b = 32) s s'"
  | tok d s1 loc a t e l w rs' where
      "parseToken (Header_Get (rq_Header r) HeaderToken) = Some tok"
      "Wrap_decide host p tok r s = (Return d, s1)" "d_Class d = Allow" "p_Log p = Some a"
      "Append ed (p_RKey p) tl_Allow (d_Binding d) t (gw_logs s a) = (Return (Inr e), l)"
      "gw_logs s' = (gw_logs s)(a := l)"
      "gw_trace s' = gw_trace s
         @ [EvEmit (receiptFor p d (tokenFingerprint (Header_Get (rq_Header r) HeaderToken))) (Inr loc),
            EvAppend a tl_Allow (d_Binding d) t (Return (Inr e)), EvServe r]"
      "res = Return rs'" "nxt r (Header_Set HeaderLogEntry (logEntryTag e) rs) w = (rs', gw_world s')"
proof (cases "parseToken (Header_Get (rq_Header r) HeaderToken)")
  case None
  with assms that(1) [of "[]"] show thesis
    by (simp add: Wrap_def logs_step_def)
next
  case (Some tok)
  let ?fp = "tokenFingerprint (Header_Get (rq_Header r) HeaderToken)"
  from assms Some
  have "and_then (Wrap_decide host p tok r) (\<lambda>d.
      if d_Class d = Allow then Wrap_allow ed host p nxt r rs (receiptFor p d ?fp) d
      else Wrap_deny ed host p rs (receiptFor p d ?fp) d) s = (res, s')"
    by (simp add: Wrap_def Let_def)
  then show thesis
  proof (cases rule: and_then_cases)
    case (panic msg)
    then show thesis
      using Wrap_decide_quiet that(1) [of "[]"] by (fastforce simp: quiet_def logs_step_def)
  next
    case (return d s1)
    have q: "gw_logs s1 = gw_logs s" "gw_trace s1 = gw_trace s"
      using Wrap_decide_quiet [OF return(1)] by (simp_all add: quiet_def)
    show thesis
    proof (cases "d_Class d = Allow")
      case False
      with return(2) have "Wrap_deny ed host p rs (receiptFor p d ?fp) d s1 = (res, s')"
        by simp
      from Wrap_deny_effect [OF this False] obtain new where
        "logs_step ed p (\<lambda>dec b. denial dec \<and> b = d_Binding d) s1 s'"
        and "gw_trace s' = gw_trace s1 @ new" "only_evidence new"
        by blast
      then show thesis
        using Wrap_decide_binding [OF return(1)] by (intro that(1) [of new]) (auto simp: q elim!: logs_step_mono)
    next
      case True
      with return(2) have "Wrap_allow ed host p nxt r rs (receiptFor p d ?fp) d s1 = (res, s')"
        by simp
      then show thesis
        using True
      proof (cases rule: Wrap_allow_cases)
        case served
        with that(2) [OF Some return(1) True] q show thesis
          by simp
      qed (use that(1) q in \<open>simp_all add: logs_step_def only_evidence_def\<close>)
    qed
  qed
qed

text \<open>C5. Nothing is served without its evidence, in the promised order: if a request
  is forwarded to the protected handler, then its token parsed, the gate allowed
  it, a PERMIT receipt naming this PEP, this token and the payment binding was
  emitted with success, then an ALLOW entry with that binding was appended to the
  configured log, and only then, and as the last step, the request was forwarded
  with the entry's tag in the response header.\<close>

theorem Wrap_serves_with_evidence:
  assumes "Wrap ed host p nxt r rs s = (res, s')" and "EvServe q \<in> set (drop (length (gw_trace s)) (gw_trace s'))"
  shows "\<exists>tok d s1 rc loc a t e w rs'.
      parseToken (Header_Get (rq_Header r) HeaderToken) = Some tok
      \<and> Wrap_decide host p tok r s = (Return d, s1) \<and> d_Class d = Allow
      \<and> gw_trace s' = gw_trace s @ [EvEmit rc (Inr loc), EvAppend a tl_Allow (d_Binding d) t (Return (Inr e)), EvServe r]
      \<and> rc_Decision rc = ''PERMIT'' \<and> rc_Class rc = ''ok'' \<and> rc_PEP rc = p_Name p
      \<and> rc_TokenHash rc = tokenFingerprint (Header_Get (rq_Header r) HeaderToken)
      \<and> rc_IntentDigest rc = hex_EncodeToString (d_Binding d)
      \<and> p_Log p = Some a \<and> l_entries (gw_logs s' a) = l_entries (gw_logs s a) @ [e]
      \<and> r_Decision (e_Record e) = tl_Allow \<and> r_Binding (e_Record e) = d_Binding d
      \<and> nxt r (Header_Set HeaderLogEntry (logEntryTag e) rs) w = (rs', gw_world s') \<and> res = Return rs'"
  using assms(1)
proof (cases rule: Wrap_cases)
  case (unserved new)
  with assms(2) have False
    by (auto simp: only_evidence_def)
  then show ?thesis ..
next
  case (served tok d s1 loc a t e l w rs')
  have e: "l = (gw_logs s a)\<lparr>l_entries := l_entries (gw_logs s a) @ [e]\<rparr>"
      "e_Record e = next_record tl_Allow (d_Binding d) t (l_entries (gw_logs s a))"
    using served(5) by (cases rule: Append_cases; simp)+
  let ?rc = "receiptFor p d (tokenFingerprint (Header_Get (rq_Header r) HeaderToken))"
  have "rc_Decision ?rc = ''PERMIT''" "rc_Class ?rc = ''ok''" "rc_PEP ?rc = p_Name p"
    "rc_TokenHash ?rc = tokenFingerprint (Header_Get (rq_Header r) HeaderToken)"
    "rc_IntentDigest ?rc = hex_EncodeToString (d_Binding d)"
    using served(3) by (simp_all add: receiptFor_def Permit_def ClassOK_def)
  moreover have "l_entries (gw_logs s' a) = l_entries (gw_logs s a) @ [e]"
    "r_Decision (e_Record e) = tl_Allow" "r_Binding (e_Record e) = d_Binding d"
    using served(6) e by (simp_all add: next_record_def)
  ultimately show ?thesis
    using served by blast
qed

section \<open>A sample deployment\<close>

definition sample_emitter :: "'w Emitter" where
  "sample_emitter = \<lparr>em_Emit = (\<lambda>rc w. (Inr ''receipt'', w)), em_Noop = False, em_Durable = Some (\<lambda>w. (True, w))\<rparr>"

definition sample_host :: "'w host" where
  "sample_host = \<lparr>host_Now = (\<lambda>w. (time_Unix 1700000000, w)), host_Printf = (\<lambda>fmt args w. w)\<rparr>"

definition sample_pep :: "(MemSpendLog \<times> unit) PEP" where
  "sample_pep =
     \<lparr>p_Allowlist = sample_allowlist, p_Policy = Some (beside_mem (\<lambda>pr tok w. (None, w))),
      p_Spend = Some mem_spend, p_Log = Some 0, p_RKey = replicate 64 7, p_Evidence = Some sample_emitter,
      p_Name = ''pep-1'', p_Requirements = Some (\<lambda>r w. (sample_payment ''1000000'', w)), p_Now = None, p_Logf = None,
      p_nonConformant = False\<rparr>"

definition sample_state :: "(MemSpendLog \<times> unit) gw_state" where
  "sample_state = \<lparr>gw_world = (NewMemSpendLog, ()), gw_logs = (\<lambda>_. NewLog (replicate 32 7)), gw_trace = []\<rparr>"

definition sample_request :: Request where
  "sample_request =
     \<lparr>rq_Header = (\<lambda>k. if k = CanonicalHeaderKey HeaderToken
        then [EncodeToken (replicate 32 9) (time_Unix 1800000000)] else []), rq_Path = ''/resource''\<rparr>"

definition sample_handler :: "'w handler" where
  "sample_handler r rs w = (Write ''paid content'' rs, w)"

lemma sample_pep_sel [simp]:
  "p_Allowlist sample_pep = sample_allowlist" "p_Policy sample_pep = Some (beside_mem (\<lambda>pr tok w. (None, w)))"
  "p_Spend sample_pep = Some mem_spend" "p_Log sample_pep = Some 0" "p_RKey sample_pep = replicate 64 7"
  "p_Evidence sample_pep = Some sample_emitter" "p_Name sample_pep = ''pep-1''"
  "p_Requirements sample_pep = Some (\<lambda>r w. (sample_payment ''1000000'', w))" "p_Now sample_pep = None"
  by (simp_all add: sample_pep_def)

lemma sample_state_sel [simp]:
  "gw_world sample_state = (NewMemSpendLog, ())" "gw_logs sample_state = (\<lambda>_. NewLog (replicate 32 7))"
  "gw_trace sample_state = []"
  by (simp_all add: sample_state_def)

lemma sample_emits: "\<exists>loc w'. em_Emit sample_emitter rc w = (Inr loc, w')"
  by (simp add: sample_emitter_def)

lemma NewLog_sel [simp]: "l_pub (NewLog pub) = pub" "l_entries (NewLog pub) = []"
  by (simp_all add: NewLog_def)

lemma sample_token:
  "parseToken (Header_Get (rq_Header sample_request) HeaderToken)
     = Some \<lparr>tok_Nonce = replicate 32 9, tok_Expiry = time_Unix 1800000000\<rparr>"
  using parse_EncodeToken_eq [of "replicate 32 9" "time_Unix 1800000000"]
  by (simp add: Header_Get_def sample_request_def)

lemma sample_decided:
  "\<exists>d s1. Wrap_decide sample_host sample_pep \<lparr>tok_Nonce = replicate 32 9, tok_Expiry = time_Unix 1800000000\<rparr>
       sample_request sample_state = (Return d, s1) \<and> d_Class d = Allow"
proof -
  let ?tok = "\<lparr>tok_Nonce = replicate 32 9, tok_Expiry = time_Unix 1800000000\<rparr>"
  let ?pol = "beside_mem (\<lambda>pr tok (w :: unit). (None, w))"
  obtain d w' where ev: "Evaluate sample_allowlist (sample_payment ''1000000'') ?tok ?pol mem_spend (time_Unix 1700000000)
      (NewMemSpendLog, ()) = (d, w')"
    by (metis surj_pair)
  have "bindable sample_allowlist (sample_payment ''1000000'')"
    by (rule sample_bindable(1))
  moreover have "\<not> expired ?tok (time_Unix 1700000000)"
    by (simp add: expired_def time_defs)
  ultimately have "d_Class d = Allow"
    using Evaluate_spend [of sample_allowlist "sample_payment ''1000000''" ?tok "time_Unix 1700000000" ?pol "(NewMemSpendLog, ())"
        "(NewMemSpendLog, ())" mem_spend None] ev
    by (simp add: beside_mem_def mem_spend_eq NewMemSpendLog_def)
  with Evaluate_iface [OF ev, of False] show ?thesis
    by (simp add: Wrap_decide_eq clock_def sample_host_def)
qed

lemma Wrap_allow_serves:
  assumes "p_Evidence p = Some em" and "\<And>w. \<exists>loc w'. em_Emit em rc w = (Inr loc, w')" and "p_Log p = Some a"
    and "ed25519_contract ed (p_RKey p) (l_pub (gw_logs s a))" and "d_Class d = Allow"
  shows "\<exists>rs' s' new. Wrap_allow ed host p nxt r rs rc d s = (Return rs', s')
    \<and> gw_trace s' = gw_trace s @ new \<and> EvServe r \<in> set new"
proof -
  have app: "\<exists>e. fst (Append ed (p_RKey p) tl_Allow (d_Binding d) t (gw_logs s a)) = Return (Inr e)" for t
    using Append_contract [OF assms(4)] .
  obtain loc w' where em: "em_Emit em rc (gw_world s) = (Inr loc, w')"
    using assms(2) by blast
  define s2 where "s2 = s\<lparr>gw_trace := gw_trace s @ [EvEmit rc (Inr loc)], gw_world := snd (clock host p w')\<rparr>"
  obtain e l where e: "Append ed (p_RKey p) tl_Allow (d_Binding d) (Unix (fst (clock host p w'))) (gw_logs s a)
      = (Return (Inr e), l)"
    using app by (metis prod.collapse)
  have wrap: "Wrap_allow ed host p nxt r rs rc d s
    = and_then (PEP_Append ed p tl_Allow (d_Binding d) (Unix (fst (clock host p w')))) (\<lambda>ar.
           case ar of
             Inl err \<Rightarrow> ret (http_Error ''authorization unavailable: decision not durably logged'' 503 rs)
           | Inr entry \<Rightarrow> forward nxt r (Header_Set HeaderLogEntry (logEntryTag entry) rs)) s2"
    by (simp add: Wrap_allow_def and_then_def [of "PEP_Emit p rc"] PEP_Emit_def assms(1,5) em and_then_mapDecision
        and_then_PEP_now s2_def)
  show ?thesis
    unfolding wrap
    using e by (simp add: and_then_def PEP_Append_def assms(3) s2_def forward_def split: prod.splits)
qed

lemma sample_served:
  "\<exists>rs' s' new. Wrap digest_scheme sample_host sample_pep sample_handler sample_request fresh_Response sample_state
      = (Return rs', s') \<and> gw_trace s' = new \<and> EvServe sample_request \<in> set new"
proof -
  obtain d s1 where d: "Wrap_decide sample_host sample_pep
      \<lparr>tok_Nonce = replicate 32 9, tok_Expiry = time_Unix 1800000000\<rparr> sample_request sample_state = (Return d, s1)"
    "d_Class d = Allow"
    using sample_decided by blast
  let ?rc = "receiptFor sample_pep d (tokenFingerprint (Header_Get (rq_Header sample_request) HeaderToken))"
  have "Wrap digest_scheme sample_host sample_pep sample_handler sample_request fresh_Response sample_state
    = Wrap_allow digest_scheme sample_host sample_pep sample_handler sample_request fresh_Response ?rc d s1"
    using d by (simp add: Wrap_def sample_token and_then_def)
  moreover have "quiet sample_state s1"
    using d(1) by (rule Wrap_decide_quiet)
  moreover have "ed25519_contract digest_scheme (replicate 64 7) (replicate 32 7)"
    using digest_scheme_contract [of "replicate 64 7"] by simp
  ultimately show ?thesis
    using Wrap_allow_serves [OF sample_pep_sel(6) sample_emits sample_pep_sel(4), where ed = digest_scheme
        and s = s1 and d = d and host = sample_host and nxt = sample_handler and r = sample_request
        and rs = fresh_Response and rc = ?rc] d(2)
    by (simp add: quiet_def)
qed

theorem Wrap_serves_with_evidence_witness:
  "\<exists>res s'. Wrap digest_scheme sample_host sample_pep sample_handler sample_request fresh_Response sample_state = (res, s')
    \<and> (\<exists>tok d s1 rc loc a t e.
      parseToken (Header_Get (rq_Header sample_request) HeaderToken) = Some tok
      \<and> Wrap_decide sample_host sample_pep tok sample_request sample_state = (Return d, s1) \<and> d_Class d = Allow
      \<and> gw_trace s' = gw_trace sample_state
          @ [EvEmit rc (Inr loc), EvAppend a tl_Allow (d_Binding d) t (Return (Inr e)), EvServe sample_request]
      \<and> rc_Decision rc = ''PERMIT'' \<and> rc_PEP rc = p_Name sample_pep
      \<and> p_Log sample_pep = Some a \<and> l_entries (gw_logs s' a) = l_entries (gw_logs sample_state a) @ [e])"
proof -
  obtain res s' where run: "Wrap digest_scheme sample_host sample_pep sample_handler sample_request fresh_Response
      sample_state = (res, s')" and "EvServe sample_request \<in> set (gw_trace s')"
    using sample_served by blast
  then have "EvServe sample_request \<in> set (drop (length (gw_trace sample_state)) (gw_trace s'))"
    by simp
  from Wrap_serves_with_evidence [OF run this] run show ?thesis
    by blast
qed

end
