(* ===== verification/PepSafety.thy ===== *)
theory PepSafety
  imports Pep
begin

text \<open>
  Properties of the enforcement point over whole runs: the ALLOW entries of the chain
  are exactly the served requests, the chain stays sound, every request is answered
  when the configuration passed \<open>NewPEP\<close> and the keys have their sizes, a denial is
  answered whatever the evidence path does, and no authorization is served twice.
  The last is proved in the locale \<open>pep_env\<close> from what the configured parts promise
  and interpreted on a PEP with the in-memory spend log.
\<close>

section \<open>Runs\<close>

definition serve_call :: "ed25519 \<Rightarrow> 'w host \<Rightarrow> 'w PEP \<Rightarrow> 'w handler \<Rightarrow> Request \<Rightarrow> ('w gw_state, Response) proc" where
  "serve_call ed host p nxt r = Wrap ed host p nxt r fresh_Response"

fun is_serve :: "event \<Rightarrow> bool" where
  "is_serve (EvServe r) = True"
| "is_serve _ = False"

definition served :: "event list \<Rightarrow> nat" where
  "served evs = length (filter is_serve evs)"

definition allow_entries :: "Log \<Rightarrow> nat" where
  "allow_entries l = length (filter (\<lambda>e. r_Decision (e_Record e) = tl_Allow) (l_entries l))"

lemma is_serve_iff: "is_serve ev \<longleftrightarrow> (\<exists>q. ev = EvServe q)"
  by (cases ev) auto

lemma served_simps [simp]:
  "served (xs @ ys) = served xs + served ys" "served [] = 0"
  "served (EvServe r # xs) = Suc (served xs)" "served (EvEmit rc er # xs) = served xs"
  "served (EvAppend a dec b t ar # xs) = served xs"
  by (simp_all add: served_def)

lemma only_evidence_served: "only_evidence new \<Longrightarrow> served new = 0"
  by (auto simp: served_def only_evidence_def filter_empty_conv is_serve_iff)

lemma Append_allow_entries:
  assumes "Append ed key dec b t l = (res, l')"
  shows "allow_entries l' = allow_entries l
    + (case res of Return (Inr e) \<Rightarrow> if dec = tl_Allow then 1 else 0 | _ \<Rightarrow> 0)"
  using assms by (cases rule: Append_cases) (auto simp: allow_entries_def next_record_def)

lemma logs_step_allow_entries:
  assumes "logs_step ed p (\<lambda>dec b. denial dec \<and> length b = 32) s s'"
  shows "allow_entries (gw_logs s' a) = allow_entries (gw_logs s a)"
proof -
  have "allow_entries l' = allow_entries l" if "Append ed key dec b t l = (res, l')" "dec \<noteq> tl_Allow"
    for key dec b t l res l'
    using Append_allow_entries [OF that(1)] that(2) by (simp split: outcome.splits sum.splits)
  with assms show ?thesis
    by (auto simp: logs_step_def denial_not_Allow)
qed

lemma Wrap_allow_served:
  assumes "Wrap ed host p nxt r rs s = (res, s')" and "p_Log p = Some a"
  shows "allow_entries (gw_logs s' a) + served (gw_trace s) = allow_entries (gw_logs s a) + served (gw_trace s')"
  using assms(1)
proof (cases rule: Wrap_cases)
  case (unserved new)
  then show ?thesis
    using logs_step_allow_entries only_evidence_served by fastforce
next
  case (served tok d s1 loc a' t e l w rs')
  then show ?thesis
    using assms(2) Append_allow_entries [OF served(5)] by simp
qed

text \<open>C4. No false ALLOW: over any sequence of requests through one PEP, the number of
  ALLOW entries in its transparency log grows by exactly the number of requests that
  were forwarded to the protected handler, whatever the policy, spend log, emitter,
  clock and signature scheme do. A refused or failed request leaves no signed ALLOW
  behind, and a served one is never missing from the chain.\<close>

theorem Wrap_no_false_ALLOW:
  assumes "p_Log p = Some a"
  shows "allow_entries (gw_logs (snd (run_seq (serve_call ed host p nxt) rs s)) a) + served (gw_trace s)
    = allow_entries (gw_logs s a) + served (gw_trace (snd (run_seq (serve_call ed host p nxt) rs s)))"
proof (rule run_seq_invariant [where P = "\<lambda>s'. allow_entries (gw_logs s' a) + served (gw_trace s)
      = allow_entries (gw_logs s a) + served (gw_trace s')"])
  fix r and s1 :: "'a gw_state"
  assume "allow_entries (gw_logs s1 a) + served (gw_trace s) = allow_entries (gw_logs s a) + served (gw_trace s1)"
  with Wrap_allow_served [OF surjective_pairing assms, of ed host nxt r fresh_Response s1]
  show "allow_entries (gw_logs (snd (serve_call ed host p nxt r s1)) a) + served (gw_trace s)
      = allow_entries (gw_logs s a) + served (gw_trace (snd (serve_call ed host p nxt r s1)))"
    by (simp add: serve_call_def)
qed simp

theorem Wrap_no_false_ALLOW_witness:
  "allow_entries (gw_logs (snd (run_seq (serve_call digest_scheme sample_host sample_pep sample_handler)
      [sample_request, sample_request] sample_state)) 0)
    = served (gw_trace (snd (run_seq (serve_call digest_scheme sample_host sample_pep sample_handler)
      [sample_request, sample_request] sample_state)))"
  using Wrap_no_false_ALLOW [OF sample_pep_sel(4), of digest_scheme sample_host sample_handler
      "[sample_request, sample_request]" sample_state]
  by (simp add: allow_entries_def del: run_seq.simps)

section \<open>The chain stays sound\<close>

lemma logs_step_sound:
  assumes "logs_step ed p P s s'" and "sound_entries ed (l_pub (gw_logs s a)) (l_entries (gw_logs s a))"
  shows "sound_entries ed (l_pub (gw_logs s' a)) (l_entries (gw_logs s' a))"
  using assms Append_sound by (fastforce simp: logs_step_def)

lemma Wrap_logs_step:
  assumes "Wrap ed host p nxt r rs s = (res, s')"
  shows "logs_step ed p (\<lambda>dec b. length b = 32) s s'"
  using assms
proof (cases rule: Wrap_cases)
  case (unserved new)
  then show ?thesis
    by (auto elim: logs_step_mono)
next
  case (served tok d s1 loc a t e l w rs')
  then show ?thesis
    using Wrap_decide_binding [OF served(2)] unfolding logs_step_def by blast
qed

text \<open>A PEP keeps its transparency log verifiable: if \<open>Verify\<close> accepts the logs before
  a sequence of requests, it accepts them after it, on every branch of every request.\<close>

lemma Wrap_keeps_log_verified:
  assumes "Log_Verify ed (gw_logs s a) = Return None"
  shows "Log_Verify ed (gw_logs (snd (run_seq (serve_call ed host p nxt) rs s)) a) = Return None"
  by (rule run_seq_invariant [where P = "\<lambda>s. Log_Verify ed (gw_logs s a) = Return None"])
    (use assms logs_step_sound [OF Wrap_logs_step [OF surjective_pairing]] in
      \<open>simp_all add: serve_call_def Log_Verify_iff\<close>)


section \<open>Every request is answered\<close>

lemma NewPEP_Inr:
  assumes "NewPEP host p s = (Inr p', s')"
  shows "p_Evidence p' \<noteq> None" "p_Log p' \<noteq> None" "length (p_RKey p') = 64" "p_Requirements p' \<noteq> None"
    "p_Name p' \<noteq> []" "p_Policy p' = p_Policy p" "p_Spend p' = p_Spend p" "p_Log p' = p_Log p"
    "gw_logs s' = gw_logs s" "p_Evidence p' = p_Evidence p"
  using assms by (auto simp: NewPEP_def Let_def split: option.splits prod.splits if_splits)

text \<open>What \<open>NewPEP\<close> accepts: exactly the configurations with an emitter, a log, a
  64-byte signing key, a requirements function and a name. The result differs from
  the argument at most in the conformance mark, which is set for a no-op emitter, and
  a warning is logged exactly for a no-op emitter or one that says it is not durable.\<close>

lemma NewPEP_accepts:
  "case NewPEP host p s of
     (Inl err, s') \<Rightarrow> s' = s
       \<and> \<not> (p_Evidence p \<noteq> None \<and> p_Log p \<noteq> None \<and> length (p_RKey p) = 64 \<and> p_Requirements p \<noteq> None
             \<and> p_Name p \<noteq> [])
   | (Inr p', s') \<Rightarrow>
       p_Log p \<noteq> None \<and> length (p_RKey p) = 64 \<and> p_Requirements p \<noteq> None \<and> p_Name p \<noteq> []
       \<and> (\<exists>em. p_Evidence p = Some em \<and> p' = p\<lparr>p_nonConformant := p_nonConformant p \<or> em_Noop em\<rparr>
            \<and> (\<exists>fmt. gw_trace s' = gw_trace s
                 @ (if em_Noop em \<or> (\<exists>f. em_Durable em = Some f \<and> \<not> fst (f (gw_world s))) then [EvLogf fmt []] else [])))"
  by (auto simp: NewPEP_def Let_def split: option.split prod.split)

text \<open>A configuration that passed \<open>NewPEP\<close>, with a policy and a spend log, and a log whose
  key has the size of an Ed25519 public key.\<close>

definition ready :: "'w PEP \<Rightarrow> 'w gw_state \<Rightarrow> bool" where
  "ready p s \<longleftrightarrow> p_Evidence p \<noteq> None \<and> length (p_RKey p) = 64 \<and> p_Requirements p \<noteq> None
     \<and> p_Policy p \<noteq> None \<and> p_Spend p \<noteq> None
     \<and> (\<exists>a. p_Log p = Some a \<and> length (l_pub (gw_logs s a)) = 32)"

lemma Wrap_decide_returns: "ready p s \<Longrightarrow> \<exists>d s1. Wrap_decide host p tok r s = (Return d, s1)"
proof -
  assume "ready p s"
  then obtain pol sp f where p: "p_Policy p = Some pol" "p_Spend p = Some sp" "p_Requirements p = Some f"
    by (auto simp: ready_def)
  obtain req w1 where "f r (gw_world s) = (req, w1)"
    by fastforce
  moreover obtain now w2 where "clock host p w1 = (now, w2)"
    by fastforce
  moreover obtain d w3 where "Evaluate (p_Allowlist p) req tok pol sp now w2 = (d, w3)"
    by (metis surj_pair)
  ultimately show ?thesis
    using p by (simp add: Wrap_decide_eq Evaluate_iface)
qed

lemma Append_returns:
  "length key = 64 \<Longrightarrow> length (l_pub l) = 32 \<Longrightarrow> fst (Append ed key dec b t l) \<noteq> Panic m"
  by (simp add: Append_def Sign_def Verify_def ed25519_Sign_def ed25519_Verify_def Let_def)

definition deny_response :: "Gate.Decision \<Rightarrow> Response \<Rightarrow> Response" where
  "deny_response d rs =
     (if d_Class d = DenyUnavailable
      then http_Error (''authorization unavailable: '' @ d_Reason d) 503 rs
      else http_Error (''authorization denied: '' @ d_Reason d) 402 rs)"

lemma Wrap_deny_returns:
  assumes "ready p s" and "\<And>c. d_Class d \<noteq> UnmappedClass c"
  shows "fst (Wrap_deny ed host p rs rc d s) = Return (deny_response d rs)"
proof -
  obtain dec where dec: "mapDecision (d_Class d) = Return dec"
    using assms(2) by (cases "d_Class d") auto
  obtain s' where "recordDeny ed host p rc dec (d_Binding d) s = (Return (), s')"
    using assms(1) recordDeny_returns [of p _ s] by (auto simp: ready_def) (metis prod.collapse)
  then show ?thesis
    by (simp add: Wrap_deny_def and_then_mapDecision dec and_then_Return deny_response_def)
qed

lemma Wrap_allow_answers:
  assumes "ready p s" and "d_Class d = Allow"
  shows "\<exists>rs' s' new. Wrap_allow ed host p nxt r rs rc d s = (Return rs', s') \<and> gw_trace s' = gw_trace s @ new
    \<and> (EvServe r \<in> set new \<or> only_evidence new \<and> gw_logs s' = gw_logs s
         \<and> (\<exists>why. rs' = http_Error (''authorization unavailable: '' @ why) 503 rs))"
proof -
  obtain res s' where run: "Wrap_allow ed host p nxt r rs rc d s = (res, s')"
    by fastforce
  then show ?thesis
    using assms(2)
  proof (cases rule: Wrap_allow_cases)
    case (unreceipted err)
    with run show ?thesis
      by (intro exI [of _ "http_Error _ 503 rs"] exI [of _ s'] exI [of _ "[EvEmit _ _]"] conjI disjI2
          exI [of _ "''receipt not durably recorded''"]) simp_all
  next
    case (unlogged loc a t err)
    with run show ?thesis
      by (intro exI [of _ "http_Error _ 503 rs"] exI [of _ s'] exI [of _ "[EvEmit _ _, EvAppend _ _ _ _ _]"] conjI disjI2
          exI [of _ "''decision not durably logged''"]) simp_all
  next
    case (panicked m new)
    with assms(1) Append_returns show ?thesis
      by (auto simp: ready_def)
  qed (simp add: run)
qed

text \<open>On a ready PEP a request with a token is decided, and then takes one of two ways.\<close>

lemma Wrap_ready:
  assumes "ready p s" and "parseToken (Header_Get (rq_Header r) HeaderToken) = Some tok"
  obtains d s1 where "Wrap_decide host p tok r s = (Return d, s1)" "ready p s1"
    "gw_logs s1 = gw_logs s" "gw_trace s1 = gw_trace s"
    "Wrap ed host p nxt r rs s =
       (let rc = receiptFor p d (tokenFingerprint (Header_Get (rq_Header r) HeaderToken))
        in if d_Class d = Allow then Wrap_allow ed host p nxt r rs rc d s1 else Wrap_deny ed host p rs rc d s1)"
proof -
  obtain d s1 where d: "Wrap_decide host p tok r s = (Return d, s1)"
    using Wrap_decide_returns [OF assms(1)] by blast
  have q: "gw_logs s1 = gw_logs s" "gw_trace s1 = gw_trace s"
    using Wrap_decide_quiet [OF d] by (simp_all add: quiet_def)
  then have "ready p s1"
    using assms(1) by (simp add: ready_def)
  from d this q show thesis
    by (rule that) (simp_all add: Wrap_def assms(2) Let_def and_then_Return [where p = "Wrap_decide host p tok r", OF d])
qed

lemma Wrap_returns:
  assumes "ready p s"
  shows "\<exists>rs' s'. Wrap ed host p nxt r rs s = (Return rs', s')"
proof (cases "parseToken (Header_Get (rq_Header r) HeaderToken)")
  case (Some tok)
  from assms this show ?thesis
  proof (rule Wrap_ready [where ed = ed and host = host and nxt = nxt and rs = rs])
    fix d s1
    assume d: "Wrap_decide host p tok r s = (Return d, s1)" and r1: "ready p s1"
      and wrap: "Wrap ed host p nxt r rs s =
       (let rc = receiptFor p d (tokenFingerprint (Header_Get (rq_Header r) HeaderToken))
        in if d_Class d = Allow then Wrap_allow ed host p nxt r rs rc d s1 else Wrap_deny ed host p rs rc d s1)"
    show ?thesis
      unfolding wrap Let_def
      using Wrap_allow_answers [OF r1] Wrap_deny_returns [OF r1 Wrap_decide_mapped [OF d]]
      by (cases "d_Class d = Allow") (fastforce, metis prod.collapse)
  qed
qed (simp add: Wrap_def)

text \<open>C27. Every request is answered, and by the right answer: on a ready PEP no request
  panics, whatever the signature scheme, emitter and other parts do. Without a
  parseable token the answer is 401 and the state is untouched. A denied request gets
  402 for a violation and 503 for an outage with the gate's reason, no matter whether
  its receipt or its log entry could be written. An allowed request is forwarded, or
  answered 503 with the chain unchanged and nothing forwarded.\<close>

theorem Wrap_answers:
  assumes "ready p s"
  shows "case parseToken (Header_Get (rq_Header r) HeaderToken) of
      None \<Rightarrow> Wrap ed host p nxt r rs s
        = (Return (http_Error ''missing or malformed X-SPT-Txn authorization'' 401 rs), s)
    | Some tok \<Rightarrow> \<exists>d s1. Wrap_decide host p tok r s = (Return d, s1)
        \<and> (if d_Class d = Allow then
             (\<exists>rs' s' new. Wrap ed host p nxt r rs s = (Return rs', s') \<and> gw_trace s' = gw_trace s @ new
                \<and> (EvServe r \<in> set new
                   \<or> only_evidence new \<and> gw_logs s' = gw_logs s
                     \<and> (\<exists>why. rs' = http_Error (''authorization unavailable: '' @ why) 503 rs)))
           else fst (Wrap ed host p nxt r rs s) = Return (deny_response d rs))"
proof (cases "parseToken (Header_Get (rq_Header r) HeaderToken)")
  case None
  then show ?thesis
    by (simp add: Wrap_def)
next
  case (Some tok)
  let ?fp = "tokenFingerprint (Header_Get (rq_Header r) HeaderToken)"
  from assms Some obtain d s1 where d: "Wrap_decide host p tok r s = (Return d, s1)" and r1: "ready p s1"
    and q: "gw_logs s1 = gw_logs s" "gw_trace s1 = gw_trace s"
    and wrap: "Wrap ed host p nxt r rs s = (if d_Class d = Allow then Wrap_allow ed host p nxt r rs (receiptFor p d ?fp) d s1
      else Wrap_deny ed host p rs (receiptFor p d ?fp) d s1)"
    unfolding Let_def by (rule Wrap_ready [unfolded Let_def])
  show ?thesis
  proof (cases "d_Class d = Allow")
    case False
    with d Wrap_deny_returns [OF r1 Wrap_decide_mapped [OF d]] show ?thesis
      by (simp add: Some wrap)
  next
    case True
    obtain rs' s' new where "Wrap_allow ed host p nxt r rs (receiptFor p d ?fp) d s1 = (Return rs', s')"
      "gw_trace s' = gw_trace s1 @ new" "EvServe r \<in> set new \<or> only_evidence new \<and> gw_logs s' = gw_logs s1
         \<and> (\<exists>why. rs' = http_Error (''authorization unavailable: '' @ why) 503 rs)"
      using Wrap_allow_answers [OF r1 True] by blast
    with d True q show ?thesis
      by (auto simp: Some wrap)
  qed
qed

lemma sample_ready: "ready sample_pep sample_state"
  by (simp add: ready_def)

theorem Wrap_answers_witness:
  "\<exists>d s1. Wrap_decide sample_host sample_pep \<lparr>tok_Nonce = replicate 32 9, tok_Expiry = time_Unix 1800000000\<rparr>
      sample_request sample_state = (Return d, s1)
    \<and> (if d_Class d = Allow then
         (\<exists>rs' s' new. Wrap digest_scheme sample_host sample_pep sample_handler sample_request fresh_Response sample_state
              = (Return rs', s') \<and> gw_trace s' = gw_trace sample_state @ new
            \<and> (EvServe sample_request \<in> set new
               \<or> only_evidence new \<and> gw_logs s' = gw_logs sample_state
                 \<and> (\<exists>why. rs' = http_Error (''authorization unavailable: '' @ why) 503 fresh_Response)))
       else fst (Wrap digest_scheme sample_host sample_pep sample_handler sample_request fresh_Response sample_state)
         = Return (deny_response d fresh_Response))"
  using Wrap_answers [OF sample_ready, where r = sample_request and ed = digest_scheme and host = sample_host
      and nxt = sample_handler and rs = fresh_Response]
  unfolding sample_token option.case .

text \<open>C38. \<open>NewPEP\<close> does not look at the policy and the spend log: it accepts a
  configuration whose policy is nil, and then the first request with a parseable
  token, a bindable payment and a fresh token panics instead of being answered.\<close>

theorem NewPEP_nil_policy_panics:
  assumes "NewPEP host p s0 = (Inr p', s0')" and "p_Policy p = None"
    and "parseToken (Header_Get (rq_Header r) HeaderToken) = Some tok"
    and "p_Requirements p' = Some f" "f r (gw_world s) = (req, w1)" "clock host p' w1 = (now, w2)"
    and "bindable (p_Allowlist p') req" "\<not> expired tok now"
  shows "fst (Wrap ed host p' nxt r rs s) = Panic nil_dereference"
proof -
  have "p_Policy p' = None"
    using NewPEP_Inr(6) [OF assms(1)] assms(2) by simp
  then have pol: "iface_policy (p_Policy p') req tok (w2, False) = (Some (NewError nil_dereference), (w2, True))"
    by (simp add: iface_policy_def)
  obtain d where "Evaluate (p_Allowlist p') req tok (iface_policy (p_Policy p')) (iface_spend (p_Spend p')) now (w2, False)
      = (d, (w2, True))"
    using Evaluate_policy [OF assms(7,8), of "iface_policy (p_Policy p')", OF pol, of "iface_spend (p_Spend p')"]
    by (metis prod.collapse)
  then have "fst (Wrap_decide host p' tok r s) = Panic nil_dereference"
    using assms(4,5,6) by (simp add: Wrap_decide_eq)
  then show ?thesis
    by (cases "Wrap_decide host p' tok r s") (simp add: Wrap_def assms(3) and_then_Panic)
qed

theorem NewPEP_nil_policy_panics_witness:
  "NewPEP sample_host (sample_pep\<lparr>p_Policy := None\<rparr>) sample_state = (Inr (sample_pep\<lparr>p_Policy := None\<rparr>), sample_state)
   \<and> fst (Wrap digest_scheme sample_host (sample_pep\<lparr>p_Policy := None\<rparr>) sample_handler sample_request fresh_Response
        sample_state) = Panic nil_dereference"
proof
  show new: "NewPEP sample_host (sample_pep\<lparr>p_Policy := None\<rparr>) sample_state
      = (Inr (sample_pep\<lparr>p_Policy := None\<rparr>), sample_state)"
    by (simp add: NewPEP_def sample_emitter_def)
  show "fst (Wrap digest_scheme sample_host (sample_pep\<lparr>p_Policy := None\<rparr>) sample_handler sample_request fresh_Response
        sample_state) = Panic nil_dereference"
    by (rule NewPEP_nil_policy_panics [OF new _ sample_token])
      (auto simp: clock_def sample_host_def sample_bindable expired_def time_defs)
qed

section \<open>Served at most once\<close>

text \<open>The decision of a PEP with a policy and a spend log is the gate's, in a world that
  only the requirements function and the clock have touched.\<close>

lemma Wrap_decided_by_gate:
  assumes "Wrap_decide host p tok r s = (Return d, s')" and "p_Policy p = Some pol" "p_Spend p = Some sp"
  obtains f req w1 now w2 where "p_Requirements p = Some f" "f r (gw_world s) = (req, w1)"
    "clock host p w1 = (now, w2)" "Evaluate (p_Allowlist p) req tok pol sp now w2 = (d, gw_world s')"
  using assms(1)
proof (rule Wrap_decided)
  fix f req w1 now w2
  assume f: "p_Requirements p = Some f" "f r (gw_world s) = (req, w1)" and now: "clock host p w1 = (now, w2)"
    and ev: "Evaluate (p_Allowlist p) req tok (iface_policy (p_Policy p)) (iface_spend (p_Spend p)) now (w2, False)
       = (d, (gw_world s', False))"
  obtain d' w3 where ev': "Evaluate (p_Allowlist p) req tok pol sp now w2 = (d', w3)"
    by (metis surj_pair)
  then show thesis
    using ev Evaluate_iface [OF ev', of False] by (intro that [OF f now]) (simp add: assms(2,3))
qed

definition served_nonces :: "event list \<Rightarrow> bytes list" where
  "served_nonces evs = concat (map (\<lambda>ev. case ev of
       EvServe r \<Rightarrow> (case parseToken (Header_Get (rq_Header r) HeaderToken) of None \<Rightarrow> [] | Some tok \<Rightarrow> [tok_Nonce tok])
     | _ \<Rightarrow> []) evs)"

lemma served_nonces_append [simp]: "served_nonces (xs @ ys) = served_nonces xs @ served_nonces ys"
  by (simp add: served_nonces_def)

lemma served_nonces_only_evidence: "only_evidence evs \<Longrightarrow> served_nonces evs = []"
  by (auto simp: served_nonces_def only_evidence_def split: event.splits)

text \<open>A call after which no nonce is forgotten.\<close>

definition keeps :: "('w \<Rightarrow> bytes set) \<Rightarrow> ('w gw_state, 'a) proc \<Rightarrow> bool" where
  "keeps spent m \<longleftrightarrow> (\<forall>s. spent (gw_world s) \<subseteq> spent (gw_world (snd (m s))))"

lemma keepsD: "keeps spent m \<Longrightarrow> m s = (res, s') \<Longrightarrow> spent (gw_world s) \<subseteq> spent (gw_world s')"
  unfolding keeps_def by (metis snd_conv)

lemma keeps_ret: "keeps spent (ret x)"
  by (simp add: keeps_def)

lemma keeps_and_then:
  assumes "keeps spent m" and "\<And>x. keeps spent (k x)"
  shows "keeps spent (and_then m k)"
  unfolding keeps_def
proof
  fix s
  obtain res s1 where m: "m s = (res, s1)"
    by fastforce
  with keepsD [OF assms(1) m] assms(2) show "spent (gw_world s) \<subseteq> spent (gw_world (snd (and_then m k s)))"
    by (cases res) (fastforce simp: and_then_def keeps_def)+
qed

text \<open>What keeps every set read off the spend log leaves the spend log as it is.\<close>

lemma keeps_same:
  fixes s :: "(MemSpendLog \<times> 'p) gw_state"
  assumes "\<And>P. keeps (\<lambda>w :: MemSpendLog \<times> 'p. P (fst w)) m" and "m s = (res, s')"
  shows "fst (gw_world s') = fst (gw_world s)"
proof -
  have "(if fst (gw_world s) = fst (gw_world s) then {[]} else {}) \<subseteq> (if fst (gw_world s') = fst (gw_world s) then {[] :: bytes} else {})"
    using keepsD [OF assms(1) [of "\<lambda>m. if m = fst (gw_world s) then {[]} else {}"] assms(2)] .
  then show ?thesis
    by (simp split: if_splits)
qed

lemma keeps_case_sum:
  "(\<And>a. keeps spent (f a)) \<Longrightarrow> (\<And>b. keeps spent (g b)) \<Longrightarrow> keeps spent (case x of Inl a \<Rightarrow> f a | Inr b \<Rightarrow> g b)"
  by (cases x) simp_all

lemma keeps_mapDecision: "keeps spent (PEP_mapDecision c)"
  by (simp add: keeps_def PEP_mapDecision_def)

lemma keeps_PEP_Append: "keeps spent (PEP_Append ed p dec b t)"
  by (simp add: keeps_def PEP_Append_def split: option.splits prod.splits)

text \<open>What the parts of a PEP other than the policy and the spend log promise: they forget
  no nonce.\<close>

locale pep_parts =
  fixes spent :: "'w \<Rightarrow> bytes set" and host :: "'w host" and p :: "'w PEP" and nxt :: "'w handler"
  assumes req_mono: "p_Requirements p = Some f \<Longrightarrow> spent w \<subseteq> spent (snd (f r w))"
    and now_mono: "spent w \<subseteq> spent (snd (clock host p w))"
    and emit_mono: "p_Evidence p = Some em \<Longrightarrow> spent w \<subseteq> spent (snd (em_Emit em rc w))"
    and logf_mono: "spent (gw_world s) \<subseteq> spent (gw_world (PEP_logf host p fmt args s))"
    and next_mono: "spent w \<subseteq> spent (snd (nxt r rs w))"
begin

lemma keeps_Emit: "keeps spent (PEP_Emit p rc)"
proof -
  have "spent w \<subseteq> spent w'" if "p_Evidence p = Some em" "em_Emit em rc w = (x, w')" for em w x w'
    using emit_mono [OF that(1), of w rc] that(2) by simp
  then show ?thesis
    by (simp add: keeps_def PEP_Emit_def split: option.splits prod.splits)
qed

lemma keeps_now: "keeps spent (PEP_now host p)"
  by (simp add: keeps_def PEP_now_eq now_mono)

lemma keeps_forward: "keeps spent (forward nxt r rs)"
proof -
  have "spent w \<subseteq> spent w'" if "nxt r rs w = (rs', w')" for w rs' w'
    using next_mono [of w r rs] that by simp
  then show ?thesis
    by (simp add: keeps_def forward_def split: prod.splits)
qed

lemmas keeps_intros = keeps_and_then keeps_ret keeps_mapDecision keeps_PEP_Append keeps_Emit keeps_now keeps_forward

lemma keeps_alarm: "keeps spent (\<lambda>s. m (case er of Inr _ \<Rightarrow> s | Inl err \<Rightarrow> PEP_logf host p fmt (args err) s))"
  if "keeps spent m"
  using that logf_mono by (fastforce simp: keeps_def split: sum.splits)

lemma keeps_recordDeny: "keeps spent (recordDeny ed host p rc dec b)"
  unfolding recordDeny_def Let_def by (intro keeps_intros keeps_alarm)

lemma keeps_allow: "keeps spent (Wrap_allow ed host p nxt r rs rc d)"
  unfolding Wrap_allow_def by (intro keeps_intros keeps_case_sum)

lemma keeps_deny: "keeps spent (Wrap_deny ed host p rs rc d)"
  unfolding Wrap_deny_def by (intro keeps_intros keeps_recordDeny)

end

text \<open>Single use needs, beside them, that the policy and the spend log are a gate
  environment.\<close>

locale pep_env = gate_env spend spent pol + pep_parts spent host p nxt
  for spend :: "'w SpendLog" and spent pol and host :: "'w host" and p :: "'w PEP" and nxt :: "'w handler" +
  assumes p_policy: "p_Policy p = Some pol" and p_spend: "p_Spend p = Some spend"
begin

lemma decide_mono: "spent (gw_world s) \<subseteq> spent (gw_world (snd (Wrap_decide host p tok r s)))"
proof (cases "p_Requirements p")
  case None
  then show ?thesis
    by (simp add: Wrap_decide_eq)
next
  case (Some f)
  obtain req w1 now w2 d w3 where 1: "f r (gw_world s) = (req, w1)" and 2: "clock host p w1 = (now, w2)"
    and 3: "Evaluate (p_Allowlist p) req tok pol spend now w2 = (d, w3)"
    by (metis surj_pair)
  have "spent (gw_world s) \<subseteq> spent w1" "spent w1 \<subseteq> spent w2" "spent w2 \<subseteq> spent w3"
    using req_mono [OF Some, of "gw_world s" r] now_mono [of w1] Evaluate_mono [OF 3] 1 2 by simp_all
  with 1 2 3 Some show ?thesis
    by (auto simp: Wrap_decide_eq p_policy p_spend Evaluate_iface)
qed

lemma decide_Allow_spends:
  assumes "Wrap_decide host p tok r s = (Return d, s')" and "d_Class d = Allow"
  shows "tok_Nonce tok \<notin> spent (gw_world s) \<and> tok_Nonce tok \<in> spent (gw_world s')"
  using assms(1) p_policy p_spend
proof (rule Wrap_decided_by_gate)
  fix f req w1 now w2
  assume f: "p_Requirements p = Some f" "f r (gw_world s) = (req, w1)" and now: "clock host p w1 = (now, w2)"
    and ev: "Evaluate (p_Allowlist p) req tok pol spend now w2 = (d, gw_world s')"
  have "tok_Nonce tok \<notin> spent w2 \<and> tok_Nonce tok \<in> spent (gw_world s')"
    using Evaluate_Allow_spends [OF ev] assms(2) by simp
  moreover have "spent (gw_world s) \<subseteq> spent w2"
    using req_mono [OF f(1), of "gw_world s" r] now_mono [of w1] f(2) now by auto
  ultimately show ?thesis
    by blast
qed

lemma keeps_decide: "keeps spent (Wrap_decide host p tok r)"
  by (simp add: keeps_def decide_mono)

lemma keeps_Wrap: "keeps spent (Wrap ed host p nxt r rs)"
proof (cases "parseToken (Header_Get (rq_Header r) HeaderToken)")
  case (Some tok)
  then show ?thesis
    by (auto simp: Wrap_def Let_def intro!: keeps_intros keeps_decide keeps_allow keeps_deny)
qed (simp add: Wrap_def keeps_ret)

text \<open>The nonces served so far are distinct and all spent.\<close>

lemma Wrap_single_use:
  assumes "Wrap ed host p nxt r rs s = (res, s')"
    and "distinct (served_nonces (gw_trace s)) \<and> set (served_nonces (gw_trace s)) \<subseteq> spent (gw_world s)"
  shows "distinct (served_nonces (gw_trace s')) \<and> set (served_nonces (gw_trace s')) \<subseteq> spent (gw_world s')"
  using assms(1)
proof (cases rule: Wrap_cases)
  case (unserved new)
  then show ?thesis
    using assms(2) keepsD [OF keeps_Wrap assms(1)] by (auto simp: served_nonces_only_evidence)
next
  case (served tok d s1 loc a t e l w rs')
  have spends: "tok_Nonce tok \<notin> spent (gw_world s)" "tok_Nonce tok \<in> spent (gw_world s1)"
    using decide_Allow_spends [OF served(2,3)] by simp_all
  have "Wrap_allow ed host p nxt r rs (receiptFor p d (tokenFingerprint (Header_Get (rq_Header r) HeaderToken))) d s1
      = (res, s')"
    using assms(1) served(1-3) by (simp add: Wrap_def and_then_Return [where p = "Wrap_decide host p tok r", OF served(2)])
  then have "spent (gw_world s1) \<subseteq> spent (gw_world s')"
    by (rule keepsD [OF keeps_allow])
  moreover have "served_nonces (gw_trace s') = served_nonces (gw_trace s) @ [tok_Nonce tok]"
    using served(1,7) by (simp add: served_nonces_def)
  ultimately show ?thesis
    using spends assms(2) keepsD [OF keeps_Wrap assms(1)] by auto
qed

lemma run_single_use:
  assumes "distinct (served_nonces (gw_trace s)) \<and> set (served_nonces (gw_trace s)) \<subseteq> spent (gw_world s)"
  shows "distinct (served_nonces (gw_trace (snd (run_seq (serve_call ed host p nxt) rs s))))"
proof -
  have "distinct (served_nonces (gw_trace (snd (run_seq (serve_call ed host p nxt) rs s))))
    \<and> set (served_nonces (gw_trace (snd (run_seq (serve_call ed host p nxt) rs s))))
        \<subseteq> spent (gw_world (snd (run_seq (serve_call ed host p nxt) rs s)))"
    by (rule run_seq_invariant [where P = "\<lambda>s. distinct (served_nonces (gw_trace s))
        \<and> set (served_nonces (gw_trace s)) \<subseteq> spent (gw_world s)"])
      (use assms Wrap_single_use [OF surjective_pairing] in \<open>simp_all add: serve_call_def\<close>)
  then show ?thesis ..
qed

end

text \<open>A PEP deployed with \<open>MemSpendLog\<close>: the spend log lies beside the state that all other
  configured parts, and the protected handler, act on.\<close>

definition beside :: "('p \<Rightarrow> 'a \<times> 'p) \<Rightarrow> MemSpendLog \<times> 'p \<Rightarrow> 'a \<times> MemSpendLog \<times> 'p" where
  "beside f w = (case f (snd w) of (x, y) \<Rightarrow> (x, (fst w, y)))"

definition mem_PEP :: "'p PolicyVerifier \<Rightarrow> 'p PEP \<Rightarrow> (MemSpendLog \<times> 'p) PEP" where
  "mem_PEP pol q =
     \<lparr>p_Allowlist = p_Allowlist q, p_Policy = Some (beside_mem pol), p_Spend = Some mem_spend,
      p_Log = p_Log q, p_RKey = p_RKey q,
      p_Evidence = map_option (\<lambda>em. \<lparr>em_Emit = (\<lambda>rc. beside (em_Emit em rc)), em_Noop = em_Noop em,
        em_Durable = map_option beside (em_Durable em)\<rparr>) (p_Evidence q),
      p_Name = p_Name q, p_Requirements = map_option (\<lambda>f r. beside (f r)) (p_Requirements q),
      p_Now = map_option beside (p_Now q),
      p_Logf = map_option (\<lambda>f fmt args w. (fst w, f fmt args (snd w))) (p_Logf q),
      p_nonConformant = p_nonConformant q\<rparr>"

definition mem_host :: "'p host \<Rightarrow> (MemSpendLog \<times> 'p) host" where
  "mem_host h = \<lparr>host_Now = beside (host_Now h), host_Printf = (\<lambda>fmt args w. (fst w, host_Printf h fmt args (snd w)))\<rparr>"

definition mem_handler :: "'p handler \<Rightarrow> (MemSpendLog \<times> 'p) handler" where
  "mem_handler nxt r rs = beside (nxt r rs)"

lemma fst_snd_beside [simp]: "fst (snd (beside f w)) = fst w"
  by (simp add: beside_def split: prod.splits)

text \<open>The other parts of such a PEP do not touch the spend log at all: any set read off it is
  kept.\<close>

interpretation mem_parts: pep_parts "\<lambda>w. P (fst w)" "mem_host host" "mem_PEP pol q" "mem_handler nxt"
  for P :: "MemSpendLog \<Rightarrow> bytes set" and pol :: "'p PolicyVerifier" and host :: "'p host" and q :: "'p PEP"
    and nxt :: "'p handler"
proof unfold_locales
  fix w :: "MemSpendLog \<times> 'p"
  show "P (fst w) \<subseteq> P (fst (snd (clock (mem_host host) (mem_PEP pol q) w)))"
    by (simp add: clock_def mem_PEP_def mem_host_def split: option.splits)
next
  fix s :: "(MemSpendLog \<times> 'p) gw_state" and fmt args
  show "P (fst (gw_world s)) \<subseteq> P (fst (gw_world (PEP_logf (mem_host host) (mem_PEP pol q) fmt args s)))"
    by (simp add: PEP_logf_def mem_PEP_def mem_host_def split: option.splits)
qed (auto simp: mem_PEP_def mem_handler_def)

interpretation mem_pep: pep_env mem_spend mem_spent "beside_mem pol" "mem_host host" "mem_PEP pol q" "mem_handler nxt"
  for pol :: "'p PolicyVerifier" and host :: "'p host" and q :: "'p PEP" and nxt :: "'p handler"
  by unfold_locales (simp_all add: mem_PEP_def)

text \<open>C6. Served at most once: over any sequence of requests through a PEP with the
  in-memory spend log, no authorization nonce is forwarded to the protected handler
  twice, whatever the policy, the emitter, the other configured parts and the
  handler do.\<close>

theorem PEP_serves_nonce_once:
  "distinct (served_nonces (gw_trace (snd
     (run_seq (serve_call ed (mem_host host) (mem_PEP pol q) (mem_handler nxt)) rs
        \<lparr>gw_world = w, gw_logs = logs, gw_trace = []\<rparr>))))"
  by (rule mem_pep.run_single_use) (simp add: served_nonces_def)

end
