(* ===== verification/McpGate.thy ===== *)
theory McpGate
  imports PepSafety
begin

text \<open>
  \<open>mcpgate/mcpgate.go\<close>: the enforcement point for agent tool calls and the
  single-capability policy \<open>ExactPayment\<close>. It shares the gate and the transparency
  log with the HTTP enforcement point and runs on the same state.
\<close>

record ToolCall =
  tc_To :: string
  tc_Asset :: string
  tc_Amount :: string
  tc_Resource :: string
  tc_Nonce :: bytes
  tc_Expiry :: time

record Result =
  res_Class :: DecisionClass
  res_Reason :: string
  res_LogEntry :: string

definition Allowed :: "Result \<Rightarrow> bool" where
  "Allowed r \<longleftrightarrow> res_Class r = Allow"

record 'w Enforcer =
  en_Scheme :: string
  en_Network :: string
  en_Allowlist :: Allowlist
  en_Policy :: "'w PolicyVerifier option"
  en_Spend :: "'w SpendLog option"
  en_Log :: "nat option"
  en_RKey :: bytes
  en_Now :: "('w \<Rightarrow> time \<times> 'w) option"

definition Enforcer_now :: "'w host \<Rightarrow> 'w Enforcer \<Rightarrow> ('w gw_state, time) proc" where
  "Enforcer_now host e = on_world (case en_Now e of Some f \<Rightarrow> f | None \<Rightarrow> host_Now host)"

text \<open>\<open>translog.Decision(d.Class)\<close>: the \<open>int\<close> of the class converted to \<open>uint8\<close>.\<close>

fun class_byte :: "DecisionClass \<Rightarrow> byte" where
  "class_byte Allow = 0"
| "class_byte DenyViolation = 1"
| "class_byte DenyUnavailable = 2"
| "class_byte (UnmappedClass c) = word_of_int c"

definition call_payment :: "'w Enforcer \<Rightarrow> ToolCall \<Rightarrow> PaymentRequirements" where
  "call_payment e c =
     \<lparr>pr_Scheme = en_Scheme e, pr_Network = en_Network e, pr_Asset = tc_Asset c, pr_PayTo = tc_To c,
      pr_MaxAmountRequired = tc_Amount c, pr_Resource = tc_Resource c\<rparr>"

definition call_token :: "ToolCall \<Rightarrow> Token" where
  "call_token c = \<lparr>tok_Nonce = tc_Nonce c, tok_Expiry = tc_Expiry c\<rparr>"

definition Enforcer_Evaluate :: "'w Enforcer \<Rightarrow> ToolCall \<Rightarrow> time \<Rightarrow> ('w gw_state, Gate.Decision) proc" where
  "Enforcer_Evaluate e c now s =
     (case Evaluate (en_Allowlist e) (call_payment e c) (call_token c) (iface_policy (en_Policy e))
             (iface_spend (en_Spend e)) now (gw_world s, False) of
        (d, (w, reached_nil)) \<Rightarrow>
          ((if reached_nil then Panic nil_dereference else Return d), s\<lparr>gw_world := w\<rparr>))"

definition Enforcer_Append ::
  "ed25519 \<Rightarrow> 'w Enforcer \<Rightarrow> byte \<Rightarrow> bytes \<Rightarrow> i64 \<Rightarrow> ('w gw_state, goerror + Entry) proc" where
  "Enforcer_Append ed e dec binding t s =
     (case en_Log e of
        None \<Rightarrow> panic nil_dereference s
      | Some a \<Rightarrow>
          (case Append ed (en_RKey e) dec binding t (gw_logs s a) of (r, l) \<Rightarrow>
             (r, s\<lparr>gw_logs := (gw_logs s)(a := l),
                   gw_trace := gw_trace s @ [EvAppend a dec binding t r]\<rparr>)))"

text \<open>\<open>entry, _ := e.Log.Append(...)\<close>: on an error the entry is the zero value, and the tag
  is computed from it all the same.\<close>

definition call_tag :: "Entry \<Rightarrow> string" where
  "call_tag entry =
     show_nat (unat (r_Seq (e_Record entry))) @ '':'' @ hex_EncodeToString (take 6 (Hash (e_Record entry)))"

definition Authorize :: "ed25519 \<Rightarrow> 'w host \<Rightarrow> 'w Enforcer \<Rightarrow> ToolCall \<Rightarrow> ('w gw_state, Result) proc" where
  "Authorize ed host e c =
     and_then (Enforcer_now host e) (\<lambda>now.
     and_then (Enforcer_Evaluate e c now) (\<lambda>d.
     and_then (Enforcer_now host e) (\<lambda>now2.
     and_then (Enforcer_Append ed e (class_byte (d_Class d)) (d_Binding d) (Unix now2)) (\<lambda>r.
       let entry = (case r of Inl err \<Rightarrow> zero_Entry | Inr entry \<Rightarrow> entry)
       in ret \<lparr>res_Class = d_Class d, res_Reason = d_Reason d, res_LogEntry = call_tag entry\<rparr>))))"

section \<open>The single capability\<close>

record ExactPayment =
  ep_Asset :: string
  ep_PayTo :: string
  ep_Resource :: string
  ep_MaxAmount :: u64

definition ExactPayment_Verify :: "ExactPayment \<Rightarrow> PaymentRequirements \<Rightarrow> Token \<Rightarrow> goerror option" where
  "ExactPayment_Verify a pr tok =
     (if pr_Asset pr \<noteq> ep_Asset a then Some (NewError ''asset not authorized'')
      else if pr_PayTo pr \<noteq> ep_PayTo a then Some (NewError ''recipient not authorized'')
      else if pr_Resource pr \<noteq> ep_Resource a then Some (NewError ''resource not authorized'')
      else case strconv_ParseUint64 (pr_MaxAmountRequired pr) of
             None \<Rightarrow> Some (NewError ''bad amount'')
           | Some amt \<Rightarrow>
               if ep_MaxAmount a < amt then Some (NewError ''amount over approved limit'') else None)"

text \<open>The method as a policy: it has no state.\<close>

definition exact_policy :: "ExactPayment \<Rightarrow> 'w PolicyVerifier" where
  "exact_policy a pr tok w = (ExactPayment_Verify a pr tok, w)"

lemma ExactPayment_Verify_None:
  "ExactPayment_Verify a pr tok = None \<longleftrightarrow>
     pr_Asset pr = ep_Asset a \<and> pr_PayTo pr = ep_PayTo a \<and> pr_Resource pr = ep_Resource a
     \<and> (\<exists>amt. strconv_ParseUint64 (pr_MaxAmountRequired pr) = Some amt \<and> amt \<le> ep_MaxAmount a)"
  by (auto simp: ExactPayment_Verify_def not_less split: option.splits)

lemma ExactPayment_Verify_violation:
  "ExactPayment_Verify a pr tok = Some err \<Longrightarrow> \<not> isUnavailable err"
  by (auto simp: ExactPayment_Verify_def isUnavailable_def split: if_splits option.splits)

section \<open>One tool call\<close>

definition en_clock :: "'w host \<Rightarrow> 'w Enforcer \<Rightarrow> 'w \<Rightarrow> time \<times> 'w" where
  "en_clock host e = (case en_Now e of Some f \<Rightarrow> f | None \<Rightarrow> host_Now host)"

lemma and_then_Enforcer_now:
  "and_then (Enforcer_now host e) k s =
     k (fst (en_clock host e (gw_world s))) (s\<lparr>gw_world := snd (en_clock host e (gw_world s))\<rparr>)"
  by (simp add: and_then_def Enforcer_now_def on_world_def en_clock_def split: prod.splits)

lemma Authorize_Return:
  assumes "Authorize ed host e c s = (Return res, s')"
  obtains now w1 d w2 now2 w3 a r l where "en_clock host e (gw_world s) = (now, w1)"
    "Evaluate (en_Allowlist e) (call_payment e c) (call_token c) (iface_policy (en_Policy e))
       (iface_spend (en_Spend e)) now (w1, False) = (d, (w2, False))"
    "en_clock host e w2 = (now2, w3)" "en_Log e = Some a"
    "Append ed (en_RKey e) (class_byte (d_Class d)) (d_Binding d) (Unix now2) (gw_logs s a) = (Return r, l)"
    "gw_logs s' = (gw_logs s)(a := l)" "gw_world s' = w3"
    "res_Class res = d_Class d" "res_Reason res = d_Reason d"
    "res_LogEntry res = call_tag (case r of Inl err \<Rightarrow> zero_Entry | Inr entry \<Rightarrow> entry)"
    "gw_trace s' = gw_trace s @ [EvAppend a (class_byte (d_Class d)) (d_Binding d) (Unix now2) (Return r)]"
proof -
  define now where "now = fst (en_clock host e (gw_world s))"
  define s1 where "s1 = s\<lparr>gw_world := snd (en_clock host e (gw_world s))\<rparr>"
  have "and_then (Enforcer_Evaluate e c now) (\<lambda>d.
     and_then (Enforcer_now host e) (\<lambda>now2.
     and_then (Enforcer_Append ed e (class_byte (d_Class d)) (d_Binding d) (Unix now2)) (\<lambda>r.
       let entry = (case r of Inl err \<Rightarrow> zero_Entry | Inr entry \<Rightarrow> entry)
       in ret \<lparr>res_Class = d_Class d, res_Reason = d_Reason d, res_LogEntry = call_tag entry\<rparr>))) s1 = (Return res, s')"
    using assms unfolding Authorize_def and_then_Enforcer_now [where s = s] now_def s1_def .
  then show thesis
  proof (cases rule: and_then_cases)
    case (return d s2)
    from return(1) have ev: "Evaluate (en_Allowlist e) (call_payment e c) (call_token c) (iface_policy (en_Policy e))
       (iface_spend (en_Spend e)) now (gw_world s1, False) = (d, (gw_world s2, False))"
      and s2: "gw_logs s2 = gw_logs s" "gw_trace s2 = gw_trace s"
      by (auto simp: Enforcer_Evaluate_def s1_def split: prod.splits if_splits)
    define s3 where "s3 = s2\<lparr>gw_world := snd (en_clock host e (gw_world s2))\<rparr>"
    have "and_then (Enforcer_Append ed e (class_byte (d_Class d)) (d_Binding d)
        (Unix (fst (en_clock host e (gw_world s2))))) (\<lambda>r.
       let entry = (case r of Inl err \<Rightarrow> zero_Entry | Inr entry \<Rightarrow> entry)
       in ret \<lparr>res_Class = d_Class d, res_Reason = d_Reason d, res_LogEntry = call_tag entry\<rparr>) s3 = (Return res, s')"
      using return(2) unfolding and_then_Enforcer_now [where s = s2] s3_def .
    then show thesis
    proof (cases rule: and_then_cases)
      case (return r s4)
      from return(1) obtain a l where "en_Log e = Some a"
        "Append ed (en_RKey e) (class_byte (d_Class d)) (d_Binding d)
            (Unix (fst (en_clock host e (gw_world s2)))) (gw_logs s a) = (Return r, l)"
        "gw_logs s4 = (gw_logs s)(a := l)" "gw_world s4 = gw_world s3"
        "gw_trace s4 = gw_trace s @ [EvAppend a (class_byte (d_Class d)) (d_Binding d)
            (Unix (fst (en_clock host e (gw_world s2)))) (Return r)]"
        by (auto simp: Enforcer_Append_def s3_def s2 split: option.splits prod.splits)
      with ev return(2) show thesis
        by (intro that [of now "gw_world s1" d "gw_world s2" "fst (en_clock host e (gw_world s2))" "gw_world s3" a r l])
          (auto simp: Let_def now_def s1_def s3_def)
    qed simp
  qed simp
qed

text \<open>C28. A hijacked tool call does not pass: when the policy is the approved capability,
  a call that is allowed names exactly the approved asset, recipient and resource;
  its amount parses as a \<open>uint64\<close> within the approved maximum; the number the policy
  compared is the number the binding commits to; and the scheme, network, addresses
  and amount could all be bound.\<close>

theorem Authorize_within_capability:
  assumes "Authorize ed host e c s = (Return res, s')" and "en_Policy e = Some (exact_policy cap)"
    and "Allowed res"
  shows "tc_Asset c = ep_Asset cap \<and> tc_To c = ep_PayTo cap \<and> tc_Resource c = ep_Resource cap
    \<and> (\<exists>amt. strconv_ParseUint64 (tc_Amount c) = Some amt \<and> amt \<le> ep_MaxAmount cap
        \<and> big_SetString10 (tc_Amount c) = Some (int (unat amt))
        \<and> (\<exists>bs. amount16LE (int (unat amt)) = Inr bs \<and> le_value bs = unat amt))
    \<and> bindable (en_Allowlist e) (call_payment e c)"
  using assms(1)
proof (rule Authorize_Return)
  fix now w1 d w2
  assume ev: "Evaluate (en_Allowlist e) (call_payment e c) (call_token c) (iface_policy (en_Policy e))
       (iface_spend (en_Spend e)) now (w1, False) = (d, (w2, False))" and "res_Class res = d_Class d"
  with assms(3) have allow: "d_Class d = Allow"
    by (simp add: Allowed_def)
  have bind: "bindable (en_Allowlist e) (call_payment e c)"
    and pol: "ExactPayment_Verify cap (call_payment e c) (call_token c) = None"
    using ev allow by (cases rule: Evaluate_cases;
        auto simp: assms(2) iface_policy_def exact_policy_def split: if_splits)+
  from pol obtain amt where amt: "strconv_ParseUint64 (tc_Amount c) = Some amt" "amt \<le> ep_MaxAmount cap"
    and fields: "tc_Asset c = ep_Asset cap" "tc_To c = ep_PayTo cap" "tc_Resource c = ep_Resource cap"
    by (auto simp: ExactPayment_Verify_None call_payment_def)
  have "unat amt < 2 ^ 64"
    using unsigned_less [of amt, where ?'a = nat] by simp
  then have "int (unat amt) < int (2 ^ 64)"
    by (simp only: of_nat_less_iff)
  also have "int (2 ^ 64) < 2 ^ 128"
    by simp
  finally have "int (unat amt) < 2 ^ 128" .
  then have "\<exists>bs. amount16LE (int (unat amt)) = Inr bs \<and> int (le_value bs) = int (unat amt)"
    using amount16LE_Inr [of "int (unat amt)"] by (metis of_nat_0_le_iff)
  then have "\<exists>bs. amount16LE (int (unat amt)) = Inr bs \<and> le_value bs = unat amt"
    by (simp only: of_nat_eq_iff)
  with bind fields amt ParseUint64_SetString10 [OF amt(1)] show ?thesis
    by blast
qed

definition sample_cap :: ExactPayment where
  "sample_cap = \<lparr>ep_Asset = EncodeBase58 (replicate 32 0x11), ep_PayTo = EncodeBase58 (replicate 32 0x22),
     ep_Resource = ''https://api.example.com/resource'', ep_MaxAmount = 2000000\<rparr>"

definition sample_enforcer :: "(MemSpendLog \<times> unit) Enforcer" where
  "sample_enforcer = \<lparr>en_Scheme = ''exact'', en_Network = ''solana:devnet'', en_Allowlist = sample_allowlist,
     en_Policy = Some (exact_policy sample_cap), en_Spend = Some mem_spend, en_Log = Some 0,
     en_RKey = replicate 64 7, en_Now = None\<rparr>"

definition sample_call :: ToolCall where
  "sample_call = \<lparr>tc_To = EncodeBase58 (replicate 32 0x22), tc_Asset = EncodeBase58 (replicate 32 0x11),
     tc_Amount = ''1000000'', tc_Resource = ''https://api.example.com/resource'', tc_Nonce = replicate 32 9,
     tc_Expiry = time_Unix 1800000000\<rparr>"

lemma sample_enforcer_sel [simp]:
  "en_Allowlist sample_enforcer = sample_allowlist" "en_Policy sample_enforcer = Some (exact_policy sample_cap)"
  "en_Spend sample_enforcer = Some mem_spend" "en_Log sample_enforcer = Some 0"
  "en_RKey sample_enforcer = replicate 64 7" "en_Now sample_enforcer = None"
  by (simp_all add: sample_enforcer_def)

lemma sample_call_payment: "call_payment sample_enforcer sample_call = sample_payment ''1000000''"
  by (simp add: call_payment_def sample_enforcer_def sample_call_def sample_payment_def)

lemma sample_capability: "ExactPayment_Verify sample_cap (sample_payment ''1000000'') tok = None"
  unfolding ExactPayment_Verify_None sample_payment_sel
  by (simp add: sample_cap_def strconv_ParseUint64_def dec_digits_def is_dec_def dec_val_def undigits_def)

text \<open>What a configured enforcer does with a tool call, in full.\<close>

lemma Authorize_ready:
  assumes "en_Policy e = Some pol" "en_Spend e = Some sp" "en_Log e = Some a"
    and "en_clock host e (gw_world s) = (now, w1)"
    and "Evaluate (en_Allowlist e) (call_payment e c) (call_token c) pol sp now w1 = (d, w2)"
    and "en_clock host e w2 = (now2, w3)"
    and "Append ed (en_RKey e) (class_byte (d_Class d)) (d_Binding d) (Unix now2) (gw_logs s a) = (Return r, l)"
  shows "Authorize ed host e c s =
    (Return \<lparr>res_Class = d_Class d, res_Reason = d_Reason d,
       res_LogEntry = call_tag (case r of Inl err \<Rightarrow> zero_Entry | Inr entry \<Rightarrow> entry)\<rparr>,
     s\<lparr>gw_world := w3, gw_logs := (gw_logs s)(a := l),
       gw_trace := gw_trace s @ [EvAppend a (class_byte (d_Class d)) (d_Binding d) (Unix now2) (Return r)]\<rparr>)"
proof -
  have "Enforcer_Evaluate e c now (s\<lparr>gw_world := w1\<rparr>) = (Return d, s\<lparr>gw_world := w2\<rparr>)"
    using Evaluate_iface [OF assms(5), of False] by (simp add: Enforcer_Evaluate_def assms(1,2))
  then show ?thesis
    using assms(6,7)
    by (simp add: Authorize_def and_then_Enforcer_now assms(4) and_then_def [of "Enforcer_Evaluate _ _ _"]
        and_then_def [of "Enforcer_Append _ _ _ _ _"] Enforcer_Append_def assms(3) Let_def)
qed

text \<open>The class of a tool call depends on the gate alone.\<close>

lemma Authorize_class:
  assumes "en_Policy e = Some pol" "en_Spend e = Some sp" "en_Log e = Some a"
    and "length (en_RKey e) = 64" "length (l_pub (gw_logs s a)) = 32"
    and "en_clock host e (gw_world s) = (now, w1)"
    and "Evaluate (en_Allowlist e) (call_payment e c) (call_token c) pol sp now w1 = (d, w2)"
  shows "\<exists>res s' r t. Authorize ed host e c s = (Return res, s') \<and> res_Class res = d_Class d
     \<and> Append ed (en_RKey e) (class_byte (d_Class d)) (d_Binding d) t (gw_logs s a) = (Return r, gw_logs s' a)
     \<and> res_LogEntry res = call_tag (case r of Inl err \<Rightarrow> zero_Entry | Inr entry \<Rightarrow> entry)"
proof -
  obtain now2 w3 where now2: "en_clock host e w2 = (now2, w3)"
    by fastforce
  obtain r l where app: "Append ed (en_RKey e) (class_byte (d_Class d)) (d_Binding d) (Unix now2) (gw_logs s a) = (Return r, l)"
    using Append_returns [OF assms(4,5)] by (metis outcome.exhaust prod.collapse)
  from Authorize_ready [OF assms(1-3,6,7) now2 app] app show ?thesis
    by auto
qed

lemma sample_call_allowed:
  "\<exists>d w2. Evaluate sample_allowlist (call_payment sample_enforcer sample_call) (call_token sample_call)
      (exact_policy sample_cap) mem_spend (time_Unix 1700000000) (NewMemSpendLog, ()) = (d, w2) \<and> d_Class d = Allow"
proof -
  let ?ev = "Evaluate sample_allowlist (sample_payment ''1000000'') (call_token sample_call)
      (exact_policy sample_cap) mem_spend (time_Unix 1700000000) (NewMemSpendLog, ())"
  have "d_Class (fst ?ev) = Allow"
    using Evaluate_spend [OF sample_bindable(1), of "call_token sample_call" "time_Unix 1700000000"
        "exact_policy sample_cap" "(NewMemSpendLog, ())" "(NewMemSpendLog, ())" mem_spend None]
    by (simp add: exact_policy_def sample_capability mem_spend_eq NewMemSpendLog_def expired_def call_token_def
        sample_call_def time_defs)
  then show ?thesis
    unfolding sample_call_payment by (metis prod.collapse)
qed

lemma sample_en_clock: "en_clock sample_host sample_enforcer w = (time_Unix 1700000000, w)"
  by (simp add: en_clock_def sample_host_def)

lemma sample_authorized:
  "\<exists>res s' r t b. Authorize ed sample_host sample_enforcer sample_call sample_state = (Return res, s')
     \<and> res_Class res = Allow \<and> Append ed (replicate 64 7) 0 b t (NewLog (replicate 32 7)) = (Return r, gw_logs s' 0)
     \<and> res_LogEntry res = call_tag (case r of Inl err \<Rightarrow> zero_Entry | Inr entry \<Rightarrow> entry)"
proof -
  obtain d w2 where ev: "Evaluate (en_Allowlist sample_enforcer) (call_payment sample_enforcer sample_call)
      (call_token sample_call) (exact_policy sample_cap) mem_spend (time_Unix 1700000000) (NewMemSpendLog, ()) = (d, w2)"
    and "d_Class d = Allow"
    using sample_call_allowed by auto
  then show ?thesis
    using Authorize_class [OF sample_enforcer_sel(2,3,4) _ _ sample_en_clock, of sample_state, simplified, OF ev [simplified]]
    by fastforce
qed

theorem Authorize_within_capability_witness:
  "\<exists>res s'. Authorize digest_scheme sample_host sample_enforcer sample_call sample_state = (Return res, s')
     \<and> Allowed res \<and> tc_To sample_call = ep_PayTo sample_cap
     \<and> (\<exists>amt. strconv_ParseUint64 (tc_Amount sample_call) = Some amt \<and> amt \<le> ep_MaxAmount sample_cap)"
proof -
  obtain res s' where "Authorize digest_scheme sample_host sample_enforcer sample_call sample_state = (Return res, s')"
    and "Allowed res"
    using sample_authorized [of digest_scheme] by (auto simp: Allowed_def)
  with Authorize_within_capability [OF this(1) sample_enforcer_sel(2) this(2)] show ?thesis
    by blast
qed

section \<open>The log entry\<close>

text \<open>On the classes the gate produces, the raw conversion agrees with the explicit map of
  the HTTP enforcement point.\<close>

lemma class_byte_mapDecision: "mapDecision c = Return b \<Longrightarrow> class_byte c = b"
  by (cases c) (auto simp: tl_Allow_def tl_DenyViolation_def tl_DenyUnavailable_def)

text \<open>Every decided tool call is recorded: with a key pair that keeps the Ed25519
  contract, a call that returns has appended exactly one entry, for the decision
  class the result reports (the byte \<open>mapDecision\<close> gives it) and for the payment's
  binding, and the returned locator is that entry's.\<close>

lemma Authorize_recorded:
  assumes "Authorize ed host e c s = (Return res, s')" and "en_Log e = Some a"
    and "ed25519_contract ed (en_RKey e) (l_pub (gw_logs s a))"
  shows "\<exists>entry. l_entries (gw_logs s' a) = l_entries (gw_logs s a) @ [entry]
    \<and> mapDecision (res_Class res) = Return (r_Decision (e_Record entry))
    \<and> r_Binding (e_Record entry) = fst (ComputeBinding (en_Allowlist e) (call_payment e c) (tc_Nonce c))
    \<and> res_LogEntry res = call_tag entry"
  using assms(1)
proof (rule Authorize_Return)
  fix now w1 d w2 now2 a' r l
  assume ev: "Evaluate (en_Allowlist e) (call_payment e c) (call_token c) (iface_policy (en_Policy e))
       (iface_spend (en_Spend e)) now (w1, False) = (d, (w2, False))"
    and a': "en_Log e = Some a'" and app: "Append ed (en_RKey e) (class_byte (d_Class d)) (d_Binding d) (Unix now2)
        (gw_logs s a') = (Return r, l)"
    and s': "gw_logs s' = (gw_logs s)(a' := l)" and cls: "res_Class res = d_Class d"
    and tag: "res_LogEntry res = call_tag (case r of Inl err \<Rightarrow> zero_Entry | Inr entry \<Rightarrow> entry)"
  obtain entry where r: "r = Inr entry"
    using Append_contract [OF assms(3), of "class_byte (d_Class d)" "d_Binding d" "Unix now2"] app a' assms(2) by auto
  then have entry: "l_entries l = l_entries (gw_logs s a) @ [entry]"
    "e_Record entry = next_record (class_byte (d_Class d)) (d_Binding d) (Unix now2) (l_entries (gw_logs s a))"
    using app a' assms(2) by (auto elim!: Append_cases)
  have "d_Class d \<noteq> UnmappedClass k" for k
    using Evaluate_mapped ev by (metis fst_conv)
  then have "mapDecision (d_Class d) = Return (class_byte (d_Class d))"
    by (cases "d_Class d") (auto simp: tl_Allow_def tl_DenyViolation_def tl_DenyUnavailable_def)
  moreover have "d_Binding d = fst (ComputeBinding (en_Allowlist e) (call_payment e c) (tc_Nonce c))"
    using Evaluate_binding ev by (metis Token.select_convs(1) call_token_def fst_conv)
  ultimately show ?thesis
    using entry a' assms(2) s' cls tag r by (auto simp: next_record_def)
qed

text \<open>C37. A failed log write is swallowed: when the gate decides \<open>d\<close> and the signature of the
  record made of it does not verify under the log's key, for instance because the enforcer holds
  the key of another log, the call returns the class and the reason of \<open>d\<close>, ALLOW included, all
  logs stay as they were, and the returned locator is that of the zero record at index 0.\<close>

theorem Authorize_swallows_log_failure:
  assumes "en_Policy e = Some pol" and "en_Spend e = Some sp" and "en_Log e = Some a"
    and "length (en_RKey e) = 64" and "length (l_pub (gw_logs s a)) = 32"
    and "en_clock host e (gw_world s) = (now, w1)"
    and "Evaluate (en_Allowlist e) (call_payment e c) (call_token c) pol sp now w1 = (d, w2)"
    and "en_clock host e w2 = (now2, w3)"
    and "msg = CanonicalBytes (next_record (class_byte (d_Class d)) (d_Binding d) (Unix now2) (l_entries (gw_logs s a)))"
    and "\<not> ed_verify ed (l_pub (gw_logs s a)) msg (ed_sign ed (en_RKey e) msg)"
  shows "\<exists>s'. Authorize ed host e c s
      = (Return \<lparr>res_Class = d_Class d, res_Reason = d_Reason d, res_LogEntry = call_tag zero_Entry\<rparr>, s')
    \<and> gw_logs s' = gw_logs s \<and> gw_world s' = w3"
proof -
  have "Append ed (en_RKey e) (class_byte (d_Class d)) (d_Binding d) (Unix now2) (gw_logs s a)
      = (Return (Inl (NewError ''translog: signature failed self-verify'')), gw_logs s a)"
    using assms(4,5,9,10) by (simp add: Append_def Let_def Sign_def Verify_def ed25519_Sign_def ed25519_Verify_def)
  from Authorize_ready [OF assms(1-3,6-8) this] show ?thesis
    by (simp add: fun_upd_idem)
qed

text \<open>The enforcer of the examples, holding the key of another log.\<close>

theorem Authorize_swallows_log_failure_witness:
  "\<exists>res s'. Authorize digest_scheme sample_host (sample_enforcer\<lparr>en_RKey := replicate 64 8\<rparr>) sample_call sample_state
      = (Return res, s')
     \<and> Allowed res \<and> l_entries (gw_logs s' 0) = [] \<and> res_LogEntry res = call_tag zero_Entry"
proof -
  let ?e = "sample_enforcer\<lparr>en_RKey := replicate 64 8\<rparr>"
  obtain d w2 where ev: "Evaluate (en_Allowlist ?e) (call_payment ?e sample_call) (call_token sample_call)
      (exact_policy sample_cap) mem_spend (time_Unix 1700000000) (NewMemSpendLog, ()) = (d, w2)" and "d_Class d = Allow"
    using sample_call_allowed by (auto simp: call_payment_def)
  have clock: "en_clock sample_host ?e w = (time_Unix 1700000000, w)" for w
    by (simp add: en_clock_def sample_host_def)
  have foreign: "\<not> ed_verify digest_scheme (replicate 32 7) msg (ed_sign digest_scheme (replicate 64 8) msg)" for msg
    by (simp add: digest_scheme_def numeral_eq_Suc)
  have "\<exists>s'. Authorize digest_scheme sample_host ?e sample_call sample_state
      = (Return \<lparr>res_Class = d_Class d, res_Reason = d_Reason d, res_LogEntry = call_tag zero_Entry\<rparr>, s')
    \<and> gw_logs s' = gw_logs sample_state \<and> gw_world s' = w2"
    by (rule Authorize_swallows_log_failure [where a = 0, OF _ _ _ _ _ clock [of "gw_world sample_state"] _ clock refl])
      (use ev foreign in \<open>simp_all add: sample_state_def\<close>)
  with \<open>d_Class d = Allow\<close> show ?thesis
    by (auto simp: Allowed_def sample_state_def)
qed

section \<open>Single use\<close>

fun allowed_calls :: "ToolCall list \<Rightarrow> Result outcome list \<Rightarrow> bytes list" where
  "allowed_calls (c # cs) (Return res # rs) = (if Allowed res then tc_Nonce c # allowed_calls cs rs else allowed_calls cs rs)"
| "allowed_calls (c # cs) (Panic m # rs) = allowed_calls cs rs"
| "allowed_calls _ _ = []"

text \<open>What the parts of an enforcer promise: a gate environment, and a clock that does not
  forget nonces.\<close>

locale mcp_env = gate_env spend spent pol
  for spend :: "'w SpendLog" and spent pol +
  fixes host :: "'w host" and e :: "'w Enforcer"
  assumes e_policy: "en_Policy e = Some pol" and e_spend: "en_Spend e = Some spend"
    and now_mono: "spent w \<subseteq> spent (snd (en_clock host e w))"
begin

lemma keeps_Evaluate: "keeps spent (Enforcer_Evaluate e c now)"
proof -
  have "spent (gw_world s) \<subseteq> spent (gw_world (snd (Enforcer_Evaluate e c now s)))" for s
  proof -
    obtain d w where ev: "Evaluate (en_Allowlist e) (call_payment e c) (call_token c) pol spend now (gw_world s) = (d, w)"
      by (metis surj_pair)
    show ?thesis
      using Evaluate_mono [OF ev] Evaluate_iface [OF ev, of False] by (simp add: Enforcer_Evaluate_def e_policy e_spend)
  qed
  then show ?thesis
    by (simp add: keeps_def)
qed

lemma keeps_now: "keeps spent (Enforcer_now host e)"
  using now_mono by (simp add: keeps_def Enforcer_now_def on_world_def en_clock_def split: prod.splits) (metis snd_conv)

lemma keeps_Append: "keeps spent (Enforcer_Append ed e dec b t)"
  by (simp add: keeps_def Enforcer_Append_def split: option.splits prod.splits)

lemma keeps_Authorize: "keeps spent (Authorize ed host e c)"
  unfolding Authorize_def Let_def
  by (intro keeps_and_then keeps_ret keeps_Evaluate keeps_now keeps_Append)

lemma Authorize_Allow_spends:
  assumes "Authorize ed host e c s = (Return res, s')" and "Allowed res"
  shows "tc_Nonce c \<notin> spent (gw_world s) \<and> tc_Nonce c \<in> spent (gw_world s')"
  using assms(1)
proof (rule Authorize_Return)
  fix now w1 d w2 now2 w3
  assume c1: "en_clock host e (gw_world s) = (now, w1)"
    and ev: "Evaluate (en_Allowlist e) (call_payment e c) (call_token c) (iface_policy (en_Policy e))
       (iface_spend (en_Spend e)) now (w1, False) = (d, (w2, False))"
    and c2: "en_clock host e w2 = (now2, w3)" "gw_world s' = w3" and cls: "res_Class res = d_Class d"
  obtain d' w2' where ev': "Evaluate (en_Allowlist e) (call_payment e c) (call_token c) pol spend now w1 = (d', w2')"
    by (metis surj_pair)
  have "d' = d" "w2' = w2"
    using ev Evaluate_iface [OF ev', of False] by (simp_all add: e_policy e_spend)
  then have "tc_Nonce c \<notin> spent w1 \<and> tc_Nonce c \<in> spent w2"
    using Evaluate_Allow_spends [OF ev'] assms(2) cls by (simp add: Allowed_def call_token_def)
  then show ?thesis
    using now_mono [of "gw_world s"] now_mono [of w2] c1 c2 by auto
qed

lemma run_single_use:
  "distinct (allowed_calls cs (fst (run_seq (Authorize ed host e) cs s)))
   \<and> set (allowed_calls cs (fst (run_seq (Authorize ed host e) cs s))) \<inter> spent (gw_world s) = {}"
proof (induction cs arbitrary: s)
  case Nil
  then show ?case by simp
next
  case (Cons c cs)
  obtain res s1 where step: "Authorize ed host e c s = (res, s1)"
    by fastforce
  have mono: "spent (gw_world s) \<subseteq> spent (gw_world s1)"
    by (rule keepsD [OF keeps_Authorize step])
  show ?case
  proof (cases res)
    case (Return x)
    with step Cons.IH [of s1] mono Authorize_Allow_spends [of ed c s x s1] show ?thesis
      by (auto simp: split: prod.splits)
  next
    case (Panic m)
    with step Cons.IH [of s1] mono show ?thesis
      by (auto split: prod.splits)
  qed
qed

end

text \<open>An enforcer with the in-memory spend log beside the state of its other parts.\<close>

definition mem_Enforcer :: "'p PolicyVerifier \<Rightarrow> 'p Enforcer \<Rightarrow> (MemSpendLog \<times> 'p) Enforcer" where
  "mem_Enforcer pol q =
     \<lparr>en_Scheme = en_Scheme q, en_Network = en_Network q, en_Allowlist = en_Allowlist q,
      en_Policy = Some (beside_mem pol), en_Spend = Some mem_spend, en_Log = en_Log q, en_RKey = en_RKey q,
      en_Now = map_option beside (en_Now q)\<rparr>"

interpretation mem_mcp: mcp_env mem_spend mem_spent "beside_mem pol" "mem_host host" "mem_Enforcer pol q"
  for pol :: "'p PolicyVerifier" and host :: "'p host" and q :: "'p Enforcer"
proof unfold_locales
  fix w :: "MemSpendLog \<times> 'p"
  show "mem_spent w \<subseteq> mem_spent (snd (en_clock (mem_host host) (mem_Enforcer pol q) w))"
    by (simp add: en_clock_def mem_Enforcer_def mem_host_def split: option.splits)
qed (simp_all add: mem_Enforcer_def)

text \<open>A tool call's authorization works at most once: over any sequence of tool calls
  through an enforcer with the in-memory spend log, no nonce is allowed twice and none
  that was already spent is allowed at all, whatever the policy, the clock and the
  signature scheme do.\<close>

lemma Authorize_single_use:
  "distinct (allowed_calls cs (fst (run_seq (Authorize ed (mem_host host) (mem_Enforcer pol q)) cs s)))
   \<and> set (allowed_calls cs (fst (run_seq (Authorize ed (mem_host host) (mem_Enforcer pol q)) cs s)))
       \<inter> seen (fst (gw_world s)) = {}"
  by (rule mem_mcp.run_single_use)

end
