(* ===== verification/Interleaving.thy ===== *)
theory Interleaving
  imports McpGate
begin

text \<open>
  Concurrent requests through an enforcement point for HTTP and one for tool calls that share
  a spend log and a transparency log. Neither \<open>Wrap\<close> nor \<open>Authorize\<close> is atomic: different
  requests interleave between the calls that take a mutex, which are \<open>MemSpendLog.Spend\<close> and
  \<open>Log.Append\<close>. The step relation moves one request at a time from one such call to the next;
  each step is the code's own operation, and everything a request does without shared state
  (binding, freshness, policy, emitter) is a choice of its step. The invariants are proved by
  rule induction over all interleavings.
\<close>

datatype transport = Http | Mcp

datatype request_pc =
    Idle
  | Deciding transport Token PaymentRequirements time
  | Spending transport Token bytes
  | Permitted Token bytes
  | Receipted Token bytes
  | Logged Token bytes
  | Denied DecisionClass bytes
  | Recording Token DecisionClass bytes
  | Finished

record shared =
  y_spent :: MemSpendLog
  y_log :: Log
  y_pc :: "nat \<Rightarrow> request_pc"
  y_served :: "bytes list"
  y_allowed :: "bytes list"

abbreviation goto :: "nat \<Rightarrow> request_pc \<Rightarrow> shared \<Rightarrow> shared" where
  "goto i pc s \<equiv> s\<lparr>y_pc := (y_pc s)(i := pc)\<rparr>"

text \<open>Where a decision leads: the HTTP enforcement point branches on the class, the tool-call
  enforcer appends every class the same way.\<close>

fun decided :: "transport \<Rightarrow> Token \<Rightarrow> DecisionClass \<Rightarrow> bytes \<Rightarrow> request_pc" where
  "decided Http tok c b = (if c = Allow then Permitted tok b else Denied c b)"
| "decided Mcp tok c b = Recording tok c b"

fun is_Logged :: "request_pc \<Rightarrow> bool" where
  "is_Logged (Logged tok b) = True"
| "is_Logged _ = False"

inductive step :: "ed25519 \<Rightarrow> (transport \<Rightarrow> bytes) \<Rightarrow> (transport \<Rightarrow> Allowlist) \<Rightarrow> shared \<Rightarrow> shared \<Rightarrow> bool"
  for ed key al where
  arrive: "y_pc s i = Idle \<Longrightarrow> step ed key al s (goto i (Deciding tr tok pr now) s)"
| refuse: "y_pc s i = Deciding tr tok pr now \<Longrightarrow> \<not> bindable (al tr) pr \<or> expired tok now \<Longrightarrow>
    step ed key al s (goto i (decided tr tok DenyViolation (fst (ComputeBinding (al tr) pr (tok_Nonce tok)))) s)"
| policy_denies: "y_pc s i = Deciding tr tok pr now \<Longrightarrow> bindable (al tr) pr \<Longrightarrow> \<not> expired tok now \<Longrightarrow>
    c = DenyViolation \<or> c = DenyUnavailable \<Longrightarrow>
    step ed key al s (goto i (decided tr tok c (fst (ComputeBinding (al tr) pr (tok_Nonce tok)))) s)"
| policy_agrees: "y_pc s i = Deciding tr tok pr now \<Longrightarrow> bindable (al tr) pr \<Longrightarrow> \<not> expired tok now \<Longrightarrow>
    step ed key al s (goto i (Spending tr tok (fst (ComputeBinding (al tr) pr (tok_Nonce tok)))) s)"
| spend: "y_pc s i = Spending tr tok b \<Longrightarrow> MemSpendLog_Spend (tok_Nonce tok) (y_spent s) = (None, m) \<Longrightarrow>
    step ed key al s ((goto i (decided tr tok Allow b) s)\<lparr>y_spent := m\<rparr>)"
| replay: "y_pc s i = Spending tr tok b \<Longrightarrow> MemSpendLog_Spend (tok_Nonce tok) (y_spent s) = (Some err, m) \<Longrightarrow>
    step ed key al s ((goto i (decided tr tok DenyViolation b) s)\<lparr>y_spent := m\<rparr>)"
| emit: "y_pc s i = Permitted tok b \<Longrightarrow> step ed key al s (goto i (Receipted tok b) s)"
| emit_fails: "y_pc s i = Permitted tok b \<Longrightarrow> step ed key al s (goto i Finished s)"
| append: "y_pc s i = Receipted tok b \<Longrightarrow> Append ed (key Http) tl_Allow b t (y_log s) = (Return (Inr e), l) \<Longrightarrow>
    step ed key al s ((goto i (Logged tok b) s)\<lparr>y_log := l\<rparr>)"
| append_fails: "y_pc s i = Receipted tok b \<Longrightarrow> Append ed (key Http) tl_Allow b t (y_log s) = (res, l) \<Longrightarrow>
    \<nexists>e. res = Return (Inr e) \<Longrightarrow> step ed key al s ((goto i Finished s)\<lparr>y_log := l\<rparr>)"
| serve: "y_pc s i = Logged tok b \<Longrightarrow>
    step ed key al s ((goto i Finished s)\<lparr>y_served := y_served s @ [tok_Nonce tok]\<rparr>)"
| deny: "y_pc s i = Denied c b \<Longrightarrow> mapDecision c = Return dec \<Longrightarrow>
    Append ed (key Http) dec b t (y_log s) = (res, l) \<Longrightarrow>
    step ed key al s ((goto i Finished s)\<lparr>y_log := l\<rparr>)"
| tool_records: "y_pc s i = Recording tok c b \<Longrightarrow>
    Append ed (key Mcp) (class_byte c) b t (y_log s) = (Return r, l) \<Longrightarrow>
    step ed key al s ((goto i Finished s)\<lparr>y_log := l,
      y_allowed := y_allowed s @ (if c = Allow then [tok_Nonce tok] else [])\<rparr>)"
| tool_panics: "y_pc s i = Recording tok c b \<Longrightarrow>
    Append ed (key Mcp) (class_byte c) b t (y_log s) = (Panic msg, l) \<Longrightarrow>
    step ed key al s ((goto i Finished s)\<lparr>y_log := l\<rparr>)"

text \<open>A panic in a function the caller supplied (requirements, clock, policy, emitter, alarm sink)
  is recovered by \<open>net/http\<close>: the request ends where it is. Between the append of an allowed
  request and its forwarding no such function is called.\<close>

definition panics :: "shared \<Rightarrow> shared \<Rightarrow> bool" where
  "panics s s' \<longleftrightarrow> (\<exists>i. y_pc s i \<noteq> Idle \<and> y_pc s i \<noteq> Finished \<and> \<not> is_Logged (y_pc s i) \<and> s' = goto i Finished s)"

definition moves :: "ed25519 \<Rightarrow> (transport \<Rightarrow> bytes) \<Rightarrow> (transport \<Rightarrow> Allowlist) \<Rightarrow> shared \<Rightarrow> shared \<Rightarrow> bool" where
  "moves ed key al s s' \<longleftrightarrow> step ed key al s s' \<or> panics s s'"

definition start :: "MemSpendLog \<Rightarrow> bytes \<Rightarrow> shared" where
  "start m pub = \<lparr>y_spent = m, y_log = NewLog pub, y_pc = (\<lambda>_. Idle), y_served = [], y_allowed = []\<rparr>"

definition run :: "ed25519 \<Rightarrow> (transport \<Rightarrow> bytes) \<Rightarrow> (transport \<Rightarrow> Allowlist) \<Rightarrow> shared \<Rightarrow> shared \<Rightarrow> bool" where
  "run ed key al = (step ed key al)\<^sup>*\<^sup>*"

definition run_moves :: "ed25519 \<Rightarrow> (transport \<Rightarrow> bytes) \<Rightarrow> (transport \<Rightarrow> Allowlist) \<Rightarrow> shared \<Rightarrow> shared \<Rightarrow> bool" where
  "run_moves ed key al = (moves ed key al)\<^sup>*\<^sup>*"

section \<open>Invariants\<close>

text \<open>The nonce a request has won and not yet used.\<close>

fun holds :: "request_pc \<Rightarrow> bytes option" where
  "holds (Permitted tok b) = Some (tok_Nonce tok)"
| "holds (Receipted tok b) = Some (tok_Nonce tok)"
| "holds (Logged tok b) = Some (tok_Nonce tok)"
| "holds (Recording tok c b) = (if c = Allow then Some (tok_Nonce tok) else None)"
| "holds _ = None"

text \<open>The classes a decided request can carry.\<close>

fun class_ok :: "request_pc \<Rightarrow> bool" where
  "class_ok (Denied c b) \<longleftrightarrow> c = DenyViolation \<or> c = DenyUnavailable"
| "class_ok (Recording tok c b) \<longleftrightarrow> c = Allow \<or> c = DenyViolation \<or> c = DenyUnavailable"
| "class_ok _ \<longleftrightarrow> True"

definition logged :: "(nat \<Rightarrow> request_pc) \<Rightarrow> nat set" where
  "logged pc = {i. is_Logged (pc i)}"

text \<open>The nonces that have let a request or a tool call through.\<close>

definition granted :: "shared \<Rightarrow> bytes list" where
  "granted s = y_served s @ y_allowed s"

definition inv_nonces :: "shared \<Rightarrow> bool" where
  "inv_nonces s \<longleftrightarrow> distinct (granted s) \<and> set (granted s) \<subseteq> seen (y_spent s)
     \<and> (\<forall>i n. holds (y_pc s i) = Some n \<longrightarrow> n \<in> seen (y_spent s) \<and> n \<notin> set (granted s))
     \<and> (\<forall>i j n. holds (y_pc s i) = Some n \<and> holds (y_pc s j) = Some n \<longrightarrow> i = j)"

definition inv_class :: "shared \<Rightarrow> bool" where
  "inv_class s \<longleftrightarrow> (\<forall>i. class_ok (y_pc s i))"

text \<open>What the ALLOW entries of the chain count. The tool-call enforcer ignores a failed append,
  so its calls are all counted only with a key that signs for the log.\<close>

definition inv_log :: "ed25519 \<Rightarrow> bytes \<Rightarrow> shared \<Rightarrow> bool" where
  "inv_log ed mkey s \<longleftrightarrow> sound_entries ed (l_pub (y_log s)) (l_entries (y_log s))
     \<and> finite (logged (y_pc s))
     \<and> (\<exists>n \<le> length (y_allowed s). allow_entries (y_log s) = length (y_served s) + card (logged (y_pc s)) + n
         \<and> (ed25519_contract ed mkey (l_pub (y_log s)) \<longrightarrow> n = length (y_allowed s)))"

lemma Spend_None: "MemSpendLog_Spend n m = (None, m') \<longleftrightarrow> n \<notin> seen m \<and> m' = m\<lparr>seen := insert n (seen m)\<rparr>"
  by (auto simp: MemSpendLog_Spend_def)

lemma Spend_Some: "MemSpendLog_Spend n m = (Some err, m') \<Longrightarrow> m' = m"
  by (auto simp: MemSpendLog_Spend_def split: if_splits)

lemma decided_simps [simp]:
  "holds (decided tr tok c b) = (if c = Allow then Some (tok_Nonce tok) else None)"
  "\<not> is_Logged (decided tr tok c b)"
  "class_ok (decided tr tok c b) \<longleftrightarrow> c = Allow \<or> c = DenyViolation \<or> c = DenyUnavailable"
  by (cases tr; simp)+

lemma inv_nonces_goto:
  assumes "inv_nonces s" and "holds x = None \<or> holds x = holds (y_pc s i)"
    and "y_pc s' = (y_pc s)(i := x)" "y_spent s' = y_spent s" "granted s' = granted s"
  shows "inv_nonces s'"
proof -
  have h: "holds (y_pc s' j) = Some n \<Longrightarrow> holds (y_pc s j) = Some n" for j n
    using assms(2,3) by (auto split: if_splits)
  show ?thesis
    using assms(1,4,5) h unfolding inv_nonces_def by (metis (no_types, lifting))
qed

text \<open>A request that uses its nonce up.\<close>

lemma inv_nonces_grant:
  assumes "inv_nonces s" and "holds (y_pc s i) = Some n"
    and "y_pc s' = (y_pc s)(i := Finished)" "y_spent s' = y_spent s"
    and "distinct (granted s') \<longleftrightarrow> distinct (n # granted s)" "set (granted s') = insert n (set (granted s))"
  shows "inv_nonces s'"
proof -
  have "n \<in> seen (y_spent s)" "n \<notin> set (granted s)" "\<And>j. holds (y_pc s j) = Some n \<Longrightarrow> j = i"
    using assms(1,2) unfolding inv_nonces_def by metis+
  note n = this
  have h: "holds (y_pc s' j) = Some k \<Longrightarrow> j \<noteq> i \<and> holds (y_pc s j) = Some k" for j k
    using assms(3) by (auto split: if_splits)
  have old: "distinct (granted s)" "set (granted s) \<subseteq> seen (y_spent s)"
    "\<And>j k. holds (y_pc s j) = Some k \<Longrightarrow> k \<in> seen (y_spent s) \<and> k \<notin> set (granted s)"
    "\<And>j j' k. holds (y_pc s j) = Some k \<Longrightarrow> holds (y_pc s j') = Some k \<Longrightarrow> j = j'"
    using assms(1) unfolding inv_nonces_def by blast+
  show ?thesis
    unfolding inv_nonces_def assms(4,6) using n old h assms(5) by (metis distinct.simps(2) insert_iff insert_subset)
qed

lemma inv_nonces_step: "step ed key al s s' \<Longrightarrow> inv_nonces s \<Longrightarrow> inv_nonces s'"
proof (induction rule: step.induct)
  case (spend s i tr tok b m)
  then show ?case
    unfolding inv_nonces_def Spend_None by (auto simp: granted_def split: if_splits)
next
  case (serve s i tok b)
  show ?case
    by (rule inv_nonces_grant [OF serve.prems, of i "tok_Nonce tok"]) (use serve.hyps in \<open>auto simp: granted_def\<close>)
next
  case (tool_records s i tok c b t r l)
  show ?case
  proof (cases "c = Allow")
    case True
    show ?thesis
      by (rule inv_nonces_grant [OF tool_records.prems, of i "tok_Nonce tok"])
        (use tool_records.hyps True in \<open>auto simp: granted_def\<close>)
  next
    case False
    show ?thesis
      by (rule inv_nonces_goto [OF tool_records.prems, of Finished i]) (use False in \<open>auto simp: granted_def\<close>)
  qed
qed (erule inv_nonces_goto, auto simp: granted_def dest!: Spend_Some)+

lemma inv_class_step: "step ed key al s s' \<Longrightarrow> inv_class s \<Longrightarrow> inv_class s'"
  by (induction rule: step.induct) (auto simp: inv_class_def)

lemma logged_upd:
  "logged (f(i := x)) = (if is_Logged x then insert i (logged f) else logged f - {i})"
  by (auto simp: logged_def)

lemma logged_iff: "i \<in> logged f \<longleftrightarrow> is_Logged (f i)"
  by (simp add: logged_def)

text \<open>An append that is not the one of an allowed HTTP request.\<close>

lemma inv_log_append:
  assumes "inv_log ed mkey s" and "Append ed k dec b t (y_log s) = (res, l)"
    and "case res of Return (Inr e) \<Rightarrow> dec \<noteq> tl_Allow | _ \<Rightarrow> True"
    and "y_pc s' = (y_pc s)(i := Finished)" "\<not> is_Logged (y_pc s i)" "y_log s' = l"
    and "y_served s' = y_served s" "y_allowed s' = y_allowed s"
  shows "inv_log ed mkey s'"
proof -
  have "allow_entries l = allow_entries (y_log s)"
    using Append_allow_entries [OF assms(2)] assms(3) by (auto split: outcome.splits sum.splits)
  moreover have "sound_entries ed (l_pub l) (l_entries l)" "l_pub l = l_pub (y_log s)"
    using assms(1,2) Append_sound [OF assms(2)] Append_pub [of ed k dec b t "y_log s"] by (simp_all add: inv_log_def)
  moreover have "logged (y_pc s') = logged (y_pc s)"
    using assms(4,5) by (simp add: logged_upd logged_iff)
  ultimately show ?thesis
    using assms(1,6-8) by (simp add: inv_log_def)
qed

text \<open>A tool call's ALLOW: one more allowed call, and one more entry unless the append failed.\<close>

lemma inv_log_tool_allow:
  assumes "inv_log ed mkey s" and "Append ed mkey tl_Allow b t (y_log s) = (Return r, l)"
    and "y_pc s' = (y_pc s)(i := Finished)" "\<not> is_Logged (y_pc s i)" "y_log s' = l"
    and "y_served s' = y_served s" "length (y_allowed s') = Suc (length (y_allowed s))"
  shows "inv_log ed mkey s'"
proof -
  obtain n where n: "n \<le> length (y_allowed s)"
    "allow_entries (y_log s) = length (y_served s) + card (logged (y_pc s)) + n"
    "ed25519_contract ed mkey (l_pub (y_log s)) \<Longrightarrow> n = length (y_allowed s)"
    using assms(1) unfolding inv_log_def by blast
  have "sound_entries ed (l_pub l) (l_entries l)" and pub: "l_pub l = l_pub (y_log s)"
    using assms(1,2) Append_sound [OF assms(2)] Append_pub [of ed mkey tl_Allow b t "y_log s"] by (simp_all add: inv_log_def)
  moreover have "logged (y_pc s') = logged (y_pc s)"
    using assms(3,4) by (simp add: logged_upd logged_iff)
  moreover have "\<exists>e. r = Inr e" if "ed25519_contract ed mkey (l_pub l)"
    using Append_contract [of ed mkey "y_log s" tl_Allow b t] that assms(2) pub by auto
  moreover have "allow_entries l = allow_entries (y_log s) + (case r of Inr e \<Rightarrow> 1 | Inl err \<Rightarrow> 0)"
    using Append_allow_entries [OF assms(2)] by (simp split: sum.splits)
  ultimately show ?thesis
    using assms(1,5-7) n unfolding inv_log_def
    by (intro conjI exI [of _ "n + (case r of Inr e \<Rightarrow> 1 | Inl err \<Rightarrow> 0)"]) (auto split: sum.splits)
qed

lemma class_byte_Allow: "class_ok (Recording tok c b) \<Longrightarrow> class_byte c = tl_Allow \<longleftrightarrow> c = Allow"
  by (auto simp: tl_Allow_def)

lemma inv_log_step:
  "step ed key al s s' \<Longrightarrow> inv_class s \<Longrightarrow> inv_log ed (key Mcp) s \<Longrightarrow> inv_log ed (key Mcp) s'"
proof (induction rule: step.induct)
  case (append s i tok b t e l)
  then have "allow_entries l = Suc (allow_entries (y_log s))"
    using Append_allow_entries [OF append(2)] by simp
  moreover have "sound_entries ed (l_pub l) (l_entries l)" "l_pub l = l_pub (y_log s)"
    using append Append_sound [OF append(2)] Append_pub [of ed "key Http" tl_Allow b t "y_log s"]
    by (simp_all add: inv_log_def)
  ultimately show ?case
    using append by (simp add: inv_log_def logged_upd logged_iff)
next
  case (append_fails s i tok b t res l)
  show ?case
    by (rule inv_log_append [OF append_fails.prems(2) append_fails.hyps(2), of _ i])
      (use append_fails.hyps in \<open>auto split: outcome.splits sum.splits\<close>)
next
  case (deny s i c b dec t res l)
  then have "c \<noteq> Allow"
    unfolding inv_class_def by (metis DecisionClass.distinct(1,3) class_ok.simps(1))
  from mapDecision_deny [OF deny(2) this] show ?case
    by (intro inv_log_append [OF deny.prems(2) deny.hyps(3), of _ i])
      (use deny.hyps(1) in \<open>auto split: outcome.splits sum.splits\<close>)
next
  case (tool_panics s i tok c b t msg l)
  show ?case
    by (rule inv_log_append [OF tool_panics.prems(2) tool_panics.hyps(2), of _ i]) (use tool_panics.hyps(1) in auto)
next
  case (tool_records s i tok c b t r l)
  have "class_ok (Recording tok c b)"
    using tool_records by (metis inv_class_def)
  note allow = class_byte_Allow [OF this]
  show ?case
  proof (cases "c = Allow")
    case True
    then have app: "Append ed (key Mcp) tl_Allow b t (y_log s) = (Return r, l)"
      using tool_records.hyps(2) allow by simp
    show ?thesis
      by (rule inv_log_tool_allow [OF tool_records.prems(2) app, of _ i]) (use tool_records.hyps(1) True in auto)
  next
    case False
    show ?thesis
      by (rule inv_log_append [OF tool_records.prems(2) tool_records.hyps(2), of _ i])
        (use tool_records.hyps(1) False allow in \<open>auto split: sum.splits\<close>)
  qed
next
  case (serve s i tok b)
  then have "i \<in> logged (y_pc s)" and fin: "finite (logged (y_pc s))"
    by (simp_all add: inv_log_def logged_iff)
  from card_Suc_Diff1 [OF fin this(1)] serve show ?case
    by (auto simp: inv_log_def logged_upd logged_iff)
qed (auto simp: inv_log_def logged_upd logged_iff)

lemma panics_invariant:
  assumes "panics s s'" and "inv_nonces s" and "inv_class s" and "inv_log ed mkey s"
  shows "inv_nonces s' \<and> inv_class s' \<and> inv_log ed mkey s'"
proof -
  obtain i where i: "\<not> is_Logged (y_pc s i)" "s' = goto i Finished s"
    using assms(1) unfolding panics_def by blast
  have "inv_nonces s'"
    by (rule inv_nonces_goto [OF assms(2), of Finished i]) (simp_all add: i granted_def)
  with i assms(3,4) show ?thesis
    by (auto simp: inv_class_def inv_log_def logged_upd logged_iff)
qed

lemma run_invariant:
  assumes "run_moves ed key al (start m pub) s"
  shows "inv_nonces s \<and> inv_class s \<and> inv_log ed (key Mcp) s"
  using assms unfolding run_moves_def
proof (induction rule: rtranclp_induct)
  case base
  show ?case
    by (simp add: inv_nonces_def inv_class_def inv_log_def start_def granted_def NewLog_def allow_entries_def logged_def)
next
  case (step s s')
  then show ?case
    using inv_nonces_step inv_class_step inv_log_step panics_invariant unfolding moves_def by blast
qed

lemma step_pub: "step ed key al s s' \<Longrightarrow> l_pub (y_log s') = l_pub (y_log s)"
  by (induction rule: step.induct) (simp_all, (metis Append_pub snd_conv)+)

lemma run_pub: "run_moves ed key al s s' \<Longrightarrow> l_pub (y_log s') = l_pub (y_log s)"
  unfolding run_moves_def by (induction rule: rtranclp_induct) (auto simp: moves_def panics_def dest: step_pub)

lemma run_run_moves: "run ed key al s s' \<Longrightarrow> run_moves ed key al s s'"
  unfolding run_def run_moves_def by (rule rtranclp_mono [THEN predicate2D]) (auto simp: moves_def)

text \<open>C2. Safety under concurrency: however HTTP requests and tool calls interleave on a shared
  spend log and transparency log, no nonce lets two of them through, be it on the same
  transport or on different ones, and whichever requests end early because a function they
  call panics; the log verifies at every moment; and, with a tool-call
  key that signs for the log, the ALLOW entries of the chain are exactly the requests
  already served, those between their append and their forwarding, and the tool calls
  allowed so far.\<close>

theorem interleaved_requests_safe:
  assumes "run_moves ed key al (start m pub) s"
  shows "distinct (y_served s @ y_allowed s) \<and> Log_Verify ed (y_log s) = Return None
    \<and> (ed25519_contract ed (key Mcp) pub \<longrightarrow>
         allow_entries (y_log s) = length (y_served s) + card (logged (y_pc s)) + length (y_allowed s))"
  using run_invariant [OF assms] run_pub [OF assms]
  by (auto simp: inv_nonces_def inv_log_def Log_Verify_iff granted_def start_def NewLog_def)

text \<open>The same token is presented to both transports and the two race for the spend log: the
  HTTP request is served, the tool call is denied as a replay.\<close>

definition race_token :: Token where
  "race_token = \<lparr>tok_Nonce = replicate 32 9, tok_Expiry = time_Unix 1800000000\<rparr>"

definition race_state :: "request_pc \<Rightarrow> request_pc \<Rightarrow> MemSpendLog \<Rightarrow> Log \<Rightarrow> bytes list \<Rightarrow> shared" where
  "race_state p0 p1 m l sv =
     \<lparr>y_spent = m, y_log = l, y_pc = ((\<lambda>_. Idle)(0 := p0))(1 := p1), y_served = sv, y_allowed = []\<rparr>"

definition race_binding :: bytes where
  "race_binding = fst (ComputeBinding sample_allowlist (sample_payment ''1000000'') (tok_Nonce race_token))"

definition race_key :: "transport \<Rightarrow> bytes" where
  "race_key tr = replicate 64 7"

abbreviation race_step :: "shared \<Rightarrow> shared \<Rightarrow> bool" where
  "race_step \<equiv> step digest_scheme race_key (\<lambda>_. sample_allowlist)"

abbreviation race_arrived :: "transport \<Rightarrow> request_pc" where
  "race_arrived tr \<equiv> Deciding tr race_token (sample_payment ''1000000'') (time_Unix 1700000000)"

abbreviation race_spent :: MemSpendLog where
  "race_spent \<equiv> \<lparr>seen = {replicate 32 9}\<rparr>"

lemma race_state_sel [simp]:
  "y_pc (race_state p0 p1 m l sv) 0 = p0" "y_pc (race_state p0 p1 m l sv) (Suc 0) = p1"
  "y_pc (race_state p0 p1 m l sv) (Suc (Suc j)) = Idle"
  "y_spent (race_state p0 p1 m l sv) = m" "y_log (race_state p0 p1 m l sv) = l" "y_served (race_state p0 p1 m l sv) = sv"
  "y_allowed (race_state p0 p1 m l sv) = []"
  "goto 0 q (race_state p0 p1 m l sv) = race_state q p1 m l sv"
  "goto (Suc 0) q (race_state p0 p1 m l sv) = race_state p0 q m l sv"
  "(race_state p0 p1 m l sv)\<lparr>y_spent := m'\<rparr> = race_state p0 p1 m' l sv"
  "(race_state p0 p1 m l sv)\<lparr>y_log := l'\<rparr> = race_state p0 p1 m l' sv"
  "(race_state p0 p1 m l sv)\<lparr>y_served := sv'\<rparr> = race_state p0 p1 m l sv'"
  "(race_state p0 p1 m l sv)\<lparr>y_allowed := []\<rparr> = race_state p0 p1 m l sv"
  by (simp_all add: race_state_def fun_upd_twist)

lemma race_decides:
  "race_step (race_state Idle Idle m l sv) (race_state (race_arrived Http) Idle m l sv)"
  "race_step (race_state (race_arrived Http) Idle m l sv) (race_state (race_arrived Http) (race_arrived Mcp) m l sv)"
  "race_step (race_state (race_arrived Http) (race_arrived Mcp) m l sv)
     (race_state (Spending Http race_token race_binding) (race_arrived Mcp) m l sv)"
  "race_step (race_state (Spending Http race_token race_binding) (race_arrived Mcp) m l sv)
     (race_state (Spending Http race_token race_binding) (Spending Mcp race_token race_binding) m l sv)"
proof -
  have fresh: "\<not> expired race_token (time_Unix 1700000000)"
    by (simp add: race_token_def expired_def time_defs)
  note arrive = step.arrive [of "race_state Idle Idle m l sv" 0] step.arrive [of "race_state (race_arrived Http) Idle m l sv" 1]
  note agree = step.policy_agrees [OF _ sample_bindable(1) fresh, of "race_state (race_arrived Http) (race_arrived Mcp) m l sv" 0]
    step.policy_agrees [OF _ sample_bindable(1) fresh,
      of "race_state (Spending Http race_token race_binding) (race_arrived Mcp) m l sv" 1]
  show "race_step (race_state Idle Idle m l sv) (race_state (race_arrived Http) Idle m l sv)"
    "race_step (race_state (race_arrived Http) Idle m l sv) (race_state (race_arrived Http) (race_arrived Mcp) m l sv)"
    "race_step (race_state (race_arrived Http) (race_arrived Mcp) m l sv)
       (race_state (Spending Http race_token race_binding) (race_arrived Mcp) m l sv)"
    "race_step (race_state (Spending Http race_token race_binding) (race_arrived Mcp) m l sv)
       (race_state (Spending Http race_token race_binding) (Spending Mcp race_token race_binding) m l sv)"
    using arrive agree by (simp_all flip: race_binding_def)
qed

lemma race_spends:
  "race_step (race_state (Spending Http race_token b) (Spending Mcp race_token b) NewMemSpendLog l sv)
     (race_state (Permitted race_token b) (Spending Mcp race_token b) race_spent l sv)"
  "race_step (race_state (Permitted race_token b) (Spending Mcp race_token b) race_spent l sv)
     (race_state (Permitted race_token b) (Recording race_token DenyViolation b) race_spent l sv)"
  using step.spend [of "race_state (Spending Http race_token b) (Spending Mcp race_token b) NewMemSpendLog l sv" 0 Http
      race_token b race_spent]
    step.replay [of "race_state (Permitted race_token b) (Spending Mcp race_token b) race_spent l sv" 1 Mcp
      race_token b "Sentinel ErrReplay" race_spent]
  by (simp_all add: MemSpendLog_Spend_def NewMemSpendLog_def race_token_def)

lemma race_serves:
  assumes "Append digest_scheme (replicate 64 7) tl_Allow b t l = (Return (Inr e), l')"
    and "Append digest_scheme (replicate 64 7) 1 b t l' = (Return (Inr e'), l'')"
  shows "race_step (race_state (Permitted race_token b) q m l sv) (race_state (Receipted race_token b) q m l sv)"
    "race_step (race_state (Receipted race_token b) q m l sv) (race_state (Logged race_token b) q m l' sv)"
    "race_step (race_state (Logged race_token b) q m l' sv) (race_state Finished q m l' (sv @ [replicate 32 9]))"
    "race_step (race_state Finished (Recording race_token DenyViolation b) m l' sv) (race_state Finished Finished m l'' sv)"
  using step.emit [of "race_state (Permitted race_token b) q m l sv" 0 race_token b]
    step.append [of "race_state (Receipted race_token b) q m l sv" 0 race_token b digest_scheme race_key t e l']
    step.serve [of "race_state (Logged race_token b) q m l' sv" 0 race_token b]
    step.tool_records [of "race_state Finished (Recording race_token DenyViolation b) m l' sv" 1 race_token DenyViolation b
      digest_scheme race_key t "Inr e'" l''] assms
  by (simp_all add: race_token_def race_key_def)

text \<open>The states the race goes through, with the logs after its two appends.\<close>

definition race_states :: "Log \<Rightarrow> Log \<Rightarrow> shared list" where
  "race_states l' l'' =
     (let l = NewLog (replicate 32 7); m = NewMemSpendLog; tok = race_token; b = race_binding; n = replicate 32 9;
          rec = Recording tok DenyViolation b
      in [race_state Idle Idle m l [], race_state (race_arrived Http) Idle m l [],
          race_state (race_arrived Http) (race_arrived Mcp) m l [], race_state (Spending Http tok b) (race_arrived Mcp) m l [],
          race_state (Spending Http tok b) (Spending Mcp tok b) m l [],
          race_state (Permitted tok b) (Spending Mcp tok b) race_spent l [],
          race_state (Permitted tok b) rec race_spent l [], race_state (Receipted tok b) rec race_spent l [],
          race_state (Logged tok b) rec race_spent l' [], race_state Finished rec race_spent l' [n],
          race_state Finished Finished race_spent l'' [n]])"

lemma start_race: "start NewMemSpendLog (replicate 32 7) = race_state Idle Idle NewMemSpendLog (NewLog (replicate 32 7)) []"
  by (auto simp: start_def race_state_def)

lemma race_steps:
  "\<exists>l' l''. successively race_step (race_states l' l'')"
proof -
  have c: "ed25519_contract digest_scheme (replicate 64 7) (l_pub (NewLog (replicate 32 7)))"
    using digest_scheme_contract [of "replicate 64 7"] by simp
  from Append_contract [OF this, of tl_Allow race_binding 1700000000] obtain e l' where
    1: "Append digest_scheme (replicate 64 7) tl_Allow race_binding 1700000000 (NewLog (replicate 32 7)) = (Return (Inr e), l')"
    by (metis prod.collapse)
  then have "l_pub l' = l_pub (NewLog (replicate 32 7))"
    by (metis Append_pub snd_conv)
  with Append_contract [of digest_scheme "replicate 64 7" l' 1 race_binding 1700000000] c obtain e' l'' where
    2: "Append digest_scheme (replicate 64 7) 1 race_binding 1700000000 l' = (Return (Inr e'), l'')"
    by (metis prod.collapse)
  have "successively race_step (race_states l' l'')"
    unfolding race_states_def Let_def
    using race_decides race_spends race_serves [OF 1 2] by simp (metis append_Nil)
  then show ?thesis
    by blast
qed

lemma successively_rtranclp: "successively R (s # ss) \<Longrightarrow> R\<^sup>*\<^sup>* s (last (s # ss))"
  by (induction ss arbitrary: s) (auto intro: converse_rtranclp_into_rtranclp)

lemma run_successively: "successively (step ed key al) (s # ss) \<Longrightarrow> run ed key al s (last (s # ss))"
  unfolding run_def by (rule successively_rtranclp)

lemma race:
  "\<exists>s. run digest_scheme race_key (\<lambda>_. sample_allowlist) (start NewMemSpendLog (replicate 32 7)) s
     \<and> y_served s = [replicate 32 9]"
proof -
  obtain l' l'' where "successively race_step (race_states l' l'')"
    using race_steps by blast
  then have "run digest_scheme race_key (\<lambda>_. sample_allowlist) (start NewMemSpendLog (replicate 32 7)) (last (race_states l' l''))"
    unfolding start_race race_states_def Let_def by (rule run_successively)
  moreover have "y_served (last (race_states l' l'')) = [replicate 32 9]"
    by (simp add: race_states_def Let_def)
  ultimately show ?thesis
    by blast
qed

theorem interleaved_requests_safe_witness:
  "\<exists>s. run_moves digest_scheme race_key (\<lambda>_. sample_allowlist) (start NewMemSpendLog (replicate 32 7)) s
     \<and> y_served s = [replicate 32 9] \<and> Log_Verify digest_scheme (y_log s) = Return None
     \<and> allow_entries (y_log s) = length (y_served s) + card (logged (y_pc s)) + length (y_allowed s)"
proof -
  obtain s where "run_moves digest_scheme race_key (\<lambda>_. sample_allowlist) (start NewMemSpendLog (replicate 32 7)) s"
    and "y_served s = [replicate 32 9]"
    using race run_run_moves by blast
  moreover have "ed25519_contract digest_scheme (race_key Mcp) (replicate 32 7)"
    using digest_scheme_contract [of "replicate 64 7"] by (simp add: race_key_def)
  ultimately show ?thesis
    using interleaved_requests_safe by blast
qed

end
