(* ===== verification/Sequential.thy ===== *)
theory Sequential
  imports Interleaving
begin

text \<open>
  The step relation covers the code: a call of \<open>Wrap\<close> or \<open>Authorize\<close> on the gateway's state is,
  seen through the abstraction \<open>shared_of\<close>, a run of the steps of one request, and so every
  sequence of requests and tool calls is one of the interleavings.
\<close>

section \<open>The gate's steps\<close>

lemma run_refl: "run ed key al s s"
  by (simp add: run_def)

lemma run_step: "run ed key al s s' \<Longrightarrow> step ed key al s' s'' \<Longrightarrow> run ed key al s s''"
  unfolding run_def by (rule rtranclp.rtrancl_into_rtrancl)

lemma run_trans: "run ed key al s s' \<Longrightarrow> run ed key al s' s'' \<Longrightarrow> run ed key al s s''"
  unfolding run_def by (rule rtranclp_trans)

lemma spend_step:
  assumes "mem_spend (tok_Nonce tok) (y_spent s, p) = (serr, (m', w'))" and "y_pc s i = Spending tr tok b"
  shows "step ed key al s
      ((goto i (decided tr tok (case serr of None \<Rightarrow> Allow | Some err \<Rightarrow> DenyViolation) b) s)\<lparr>y_spent := m'\<rparr>)"
    and "case serr of None \<Rightarrow> True | Some err \<Rightarrow> errors_Is err ErrReplay"
proof -
  have sp: "MemSpendLog_Spend (tok_Nonce tok) (y_spent s) = (serr, m')"
    using assms(1) by (simp add: mem_spend_def split: prod.splits)
  then show "step ed key al s
      ((goto i (decided tr tok (case serr of None \<Rightarrow> Allow | Some err \<Rightarrow> DenyViolation) b) s)\<lparr>y_spent := m'\<rparr>)"
    using step.spend [OF assms(2), of m' ed key al] step.replay [OF assms(2), of _ m' ed key al] by (cases serr) simp_all
  show "case serr of None \<Rightarrow> True | Some err \<Rightarrow> errors_Is err ErrReplay"
    using sp by (auto simp: MemSpendLog_Spend_def split: if_splits)
qed

text \<open>\<open>gate.Evaluate\<close> takes a request from \<open>Deciding\<close> to the point its decision leads to.\<close>

lemma Evaluate_steps:
  assumes "Evaluate (al tr) pr tok (beside_mem pol) mem_spend now (y_spent s, w) = (d, (m', w'))"
    and "y_pc s i = Deciding tr tok pr now"
  shows "run ed key al s ((goto i (decided tr tok (d_Class d) (d_Binding d)) s)\<lparr>y_spent := m'\<rparr>)"
proof -
  have b: "d_Binding d = fst (ComputeBinding (al tr) pr (tok_Nonce tok))"
    using Evaluate_binding assms(1) by (metis fst_conv)
  show ?thesis
    using assms(1)
  proof (cases rule: Evaluate_cases)
    case refused
    then have "step ed key al s (goto i (decided tr tok DenyViolation (d_Binding d)) s)"
      using step.refuse [OF assms(2), of al ed key] b by simp
    with refused show ?thesis
      by (simp add: run_def r_into_rtranclp)
  next
    case (policy err)
    then have "m' = y_spent s"
      by (auto simp: beside_mem_def split: prod.splits)
    moreover have "step ed key al s (goto i (decided tr tok (d_Class d) (d_Binding d)) s)"
      using step.policy_denies [OF assms(2), of al "d_Class d" ed key] b policy by simp
    ultimately show ?thesis
      by (simp add: run_def r_into_rtranclp)
  next
    case (spend w1 serr)
    then obtain p1 where w1: "w1 = (y_spent s, p1)"
      by (auto simp: beside_mem_def split: prod.splits)
    let ?s1 = "goto i (Spending tr tok (d_Binding d)) s"
    have 1: "step ed key al s ?s1"
      using step.policy_agrees [OF assms(2), of al ed key] b spend(1,2) by simp
    have "mem_spend (tok_Nonce tok) (y_spent ?s1, p1) = (serr, (m', w'))"
      using spend(4) by (simp add: w1)
    note sp = spend_step(1) [OF this, of i tr "d_Binding d" ed key al] spend_step(2) [OF this, of i tr "d_Binding d"]
    have "step ed key al ?s1 ((goto i (decided tr tok (d_Class d) (d_Binding d)) ?s1)\<lparr>y_spent := m'\<rparr>)"
      using sp spend(5) by (cases serr) simp_all
    with run_step [OF run_step [OF run_refl 1], of "(goto i (decided tr tok (d_Class d) (d_Binding d)) ?s1)\<lparr>y_spent := m'\<rparr>"]
    show ?thesis
      by simp
  qed
qed

section \<open>One request\<close>

text \<open>What the step relation sees of the gateway: the spend log beside the world, the log at
  the configured address and the nonces forwarded so far; the points of the requests and
  the nonces of the allowed tool calls are history.\<close>

definition shared_of ::
  "nat \<Rightarrow> (nat \<Rightarrow> request_pc) \<Rightarrow> bytes list \<Rightarrow> (MemSpendLog \<times> 'p) gw_state \<Rightarrow> shared" where
  "shared_of a pcs allowed s =
     \<lparr>y_spent = fst (gw_world s), y_log = gw_logs s a, y_pc = pcs, y_served = served_nonces (gw_trace s),
      y_allowed = allowed\<rparr>"

lemma shared_of_sel [simp]:
  "y_spent (shared_of a pcs A s) = fst (gw_world s)" "y_log (shared_of a pcs A s) = gw_logs s a"
  "y_pc (shared_of a pcs A s) = pcs" "y_served (shared_of a pcs A s) = served_nonces (gw_trace s)"
  "y_allowed (shared_of a pcs A s) = A"
  by (simp_all add: shared_of_def)

lemma shared_of_eqI:
  assumes "y_spent t = fst (gw_world s)" "y_log t = gw_logs s a" "y_pc t = pcs"
    "y_served t = served_nonces (gw_trace s)" "y_allowed t = A"
  shows "t = shared_of a pcs A s"
  using assms by (cases t) (simp add: shared_of_def)

lemma arrive_step:
  "pcs i = Idle \<Longrightarrow> step ed key al (shared_of a pcs A s) (shared_of a (pcs(i := Deciding tr tok pr now)) A s)"
  using step.arrive [of "shared_of a pcs A s" i ed key al tr tok pr now] by (simp add: shared_of_def)

text \<open>From arrival to the decision.\<close>

lemma decision_steps:
  assumes "Evaluate (al tr) pr tok (beside_mem pol) mem_spend now w = (d, gw_world s1)"
    and "fst w = fst (gw_world s)" "gw_logs s1 = gw_logs s" "gw_trace s1 = gw_trace s" "pcs i = Idle"
  shows "run ed key al (shared_of a pcs A s) (shared_of a (pcs(i := decided tr tok (d_Class d) (d_Binding d))) A s1)"
proof -
  let ?s = "shared_of a (pcs(i := Deciding tr tok pr now)) A s"
  have "run ed key al ?s ((goto i (decided tr tok (d_Class d) (d_Binding d)) ?s)\<lparr>y_spent := fst (gw_world s1)\<rparr>)"
    by (rule Evaluate_steps [of al tr pr tok pol now _ "snd w" d _ "snd (gw_world s1)"])
      (use assms(1,2) in \<open>simp_all flip: assms(2)\<close>)
  moreover have "(goto i (decided tr tok (d_Class d) (d_Binding d)) ?s)\<lparr>y_spent := fst (gw_world s1)\<rparr>
      = shared_of a (pcs(i := decided tr tok (d_Class d) (d_Binding d))) A s1"
    by (rule shared_of_eqI) (simp_all add: assms(3,4))
  ultimately show ?thesis
    using run_trans [OF run_step [OF run_refl arrive_step [of pcs i, OF assms(5)]]] by simp
qed

text \<open>An allowed HTTP request, from its decision to its answer.\<close>

lemma allow_steps:
  fixes s :: "(MemSpendLog \<times> 'p) gw_state"
  assumes wrap: "Wrap_allow ed (mem_host host) (mem_PEP pol q) (mem_handler nxt) r rs rc d s = (Return rs', s')"
    and "d_Class d = Allow" "p_Log q = Some a" "key Http = p_RKey q"
    and tok: "parseToken (Header_Get (rq_Header r) HeaderToken) = Some tok"
  shows "run ed key al (shared_of a (pcs(i := Permitted tok (d_Binding d))) A s) (shared_of a (pcs(i := Finished)) A s')"
proof -
  let ?b = "d_Binding d"
  let ?at = "\<lambda>pc. shared_of a (pcs(i := pc)) A"
  have same: "fst (gw_world s') = fst (gw_world s)"
    using wrap by (rule keeps_same [rotated]) (rule mem_parts.keeps_allow)
  have p: "p_Log (mem_PEP pol q) = Some a" "p_RKey (mem_PEP pol q) = key Http"
    using assms(3,4) by (simp_all add: mem_PEP_def)
  have emit: "step ed key al (?at (Permitted tok ?b) s) (?at (Receipted tok ?b) s)"
    using step.emit [of "?at (Permitted tok ?b) s" i tok ?b] by (simp add: shared_of_def)
  from wrap assms(2) show ?thesis
  proof (cases rule: Wrap_allow_cases)
    case (unreceipted err)
    have "step ed key al (?at (Permitted tok ?b) s) (goto i Finished (?at (Permitted tok ?b) s))"
      by (rule step.emit_fails) simp
    moreover have "goto i Finished (?at (Permitted tok ?b) s) = ?at Finished s'"
      by (rule shared_of_eqI) (simp_all add: unreceipted same served_nonces_def)
    ultimately show ?thesis
      using run_step [OF run_refl] by simp
  next
    case (unlogged loc a' t err)
    then have "step ed key al (?at (Receipted tok ?b) s)
        ((goto i Finished (?at (Receipted tok ?b) s))\<lparr>y_log := gw_logs s a\<rparr>)"
      using p by (intro step.append_fails [where res = "Return (Inl err)"]) auto
    moreover have "(goto i Finished (?at (Receipted tok ?b) s))\<lparr>y_log := gw_logs s a\<rparr> = ?at Finished s'"
      by (rule shared_of_eqI) (use unlogged in \<open>simp_all add: same served_nonces_def\<close>)
    ultimately show ?thesis
      using run_step [OF run_step [OF run_refl emit]] by simp
  next
    case (served loc a' t e l w rs'')
    then have "step ed key al (?at (Receipted tok ?b) s)
        ((goto i (Logged tok ?b) (?at (Receipted tok ?b) s))\<lparr>y_log := gw_logs s' a\<rparr>)"
      using p by (intro step.append [where e = e]) auto
    moreover have "step ed key al ((goto i (Logged tok ?b) (?at (Receipted tok ?b) s))\<lparr>y_log := gw_logs s' a\<rparr>)
        (?at Finished s')" (is "step ed key al ?s2 _")
    proof -
      have "step ed key al ?s2 ((goto i Finished ?s2)\<lparr>y_served := y_served ?s2 @ [tok_Nonce tok]\<rparr>)"
        by (rule step.serve) simp
      moreover have "(goto i Finished ?s2)\<lparr>y_served := y_served ?s2 @ [tok_Nonce tok]\<rparr> = ?at Finished s'"
        by (rule shared_of_eqI) (use served tok in \<open>simp_all add: same served_nonces_def\<close>)
      ultimately show ?thesis
        by simp
    qed
    ultimately show ?thesis
      using run_step [OF run_step [OF run_step [OF run_refl emit]]] by blast
  qed simp
qed

lemma deny_steps:
  fixes s :: "(MemSpendLog \<times> 'p) gw_state"
  assumes wrap: "Wrap_deny ed (mem_host host) (mem_PEP pol q) rs rc d s = (Return rs', s')"
    and "d_Class d \<noteq> Allow" "p_Log q = Some a" "key Http = p_RKey q"
  shows "run ed key al (shared_of a (pcs(i := Denied (d_Class d) (d_Binding d))) A s) (shared_of a (pcs(i := Finished)) A s')"
proof -
  let ?at = "\<lambda>pc. shared_of a (pcs(i := pc)) A"
  have same: "fst (gw_world s') = fst (gw_world s)"
    using wrap by (rule keeps_same [rotated]) (rule mem_parts.keeps_deny)
  have trace: "served_nonces (gw_trace s') = served_nonces (gw_trace s)"
    using Wrap_deny_effect [OF wrap assms(2)] served_nonces_only_evidence by fastforce
  have "p_Log (mem_PEP pol q) = Some a"
    using assms(3) by (simp add: mem_PEP_def)
  from Wrap_deny_appends [OF wrap this] obtain dec t x l where app: "mapDecision (d_Class d) = Return dec"
    "Append ed (key Http) dec (d_Binding d) t (gw_logs s a) = (Return x, l)" "gw_logs s' = (gw_logs s)(a := l)"
    by (auto simp: mem_PEP_def assms(4))
  have "step ed key al (?at (Denied (d_Class d) (d_Binding d)) s)
      ((goto i Finished (?at (Denied (d_Class d) (d_Binding d)) s))\<lparr>y_log := l\<rparr>)"
    by (rule step.deny [where c = "d_Class d" and b = "d_Binding d" and dec = dec and t = t and res = "Return x"])
      (simp_all add: app)
  moreover have "(goto i Finished (?at (Denied (d_Class d) (d_Binding d)) s))\<lparr>y_log := l\<rparr> = ?at Finished s'"
    by (rule shared_of_eqI) (simp_all add: same trace app)
  ultimately show ?thesis
    using run_step [OF run_refl] by simp
qed

text \<open>Where a request ends: without a parseable token it never enters the gate.\<close>

definition request_end :: "Request \<Rightarrow> request_pc" where
  "request_end r = (if parseToken (Header_Get (rq_Header r) HeaderToken) = None then Idle else Finished)"

lemma Wrap_steps:
  fixes s :: "(MemSpendLog \<times> 'p) gw_state"
  assumes wrap: "Wrap ed (mem_host host) (mem_PEP pol q) (mem_handler nxt) r rs s = (Return rs', s')"
    and log: "p_Log q = Some a" and key: "key Http = p_RKey q" and al: "al Http = p_Allowlist q" and "pcs i = Idle"
  shows "run ed key al (shared_of a pcs A s) (shared_of a (pcs(i := request_end r)) A s')"
proof (cases "parseToken (Header_Get (rq_Header r) HeaderToken)")
  case None
  with wrap have "s' = s"
    by (simp add: Wrap_def)
  with None assms(5) show ?thesis
    by (simp add: request_end_def run_refl fun_upd_idem)
next
  case (Some tok)
  let ?p = "mem_PEP pol q" and ?fp = "tokenFingerprint (Header_Get (rq_Header r) HeaderToken)"
  from wrap Some obtain d s1 where d: "Wrap_decide (mem_host host) ?p tok r s = (Return d, s1)"
    and rest: "(if d_Class d = Allow then Wrap_allow ed (mem_host host) ?p (mem_handler nxt) r rs (receiptFor ?p d ?fp) d
        else Wrap_deny ed (mem_host host) ?p rs (receiptFor ?p d ?fp) d) s1 = (Return rs', s')"
    by (auto simp: Wrap_def Let_def elim!: and_then_cases)
  have q: "gw_logs s1 = gw_logs s" "gw_trace s1 = gw_trace s"
    using Wrap_decide_quiet [OF d] by (simp_all add: quiet_def)
  have "p_Policy ?p = Some (beside_mem pol)" "p_Spend ?p = Some mem_spend"
    by (simp_all add: mem_PEP_def)
  from d this have "run ed key al (shared_of a pcs A s)
      (shared_of a (pcs(i := decided Http tok (d_Class d) (d_Binding d))) A s1)"
  proof (rule Wrap_decided_by_gate)
    fix f req w1 now w2
    assume f: "p_Requirements ?p = Some f" "f r (gw_world s) = (req, w1)" and now: "clock (mem_host host) ?p w1 = (now, w2)"
      and ev: "Evaluate (p_Allowlist ?p) req tok (beside_mem pol) mem_spend now w2 = (d, gw_world s1)"
    have "fst w1 = fst (gw_world s)"
      using f by (auto simp: mem_PEP_def) (metis fst_snd_beside snd_conv)
    moreover have "fst w2 = fst w1"
      using now by (auto simp: clock_def mem_PEP_def mem_host_def split: option.splits) (metis fst_snd_beside snd_conv)+
    ultimately show ?thesis
      using ev q assms(5) al by (intro decision_steps [where now = now and w = w2]) (simp_all add: mem_PEP_def)
  qed
  moreover have "run ed key al (shared_of a (pcs(i := decided Http tok (d_Class d) (d_Binding d))) A s1)
      (shared_of a (pcs(i := Finished)) A s')"
    using rest allow_steps [of ed host pol q nxt r rs _ d s1 rs' s' a key tok]
      deny_steps [of ed host pol q rs _ d s1 rs' s' a key] log key Some
    by (simp split: if_splits)
  ultimately show ?thesis
    using Some run_trans by (simp add: request_end_def)
qed

text \<open>A tool call.\<close>

lemma Authorize_steps:
  fixes s :: "(MemSpendLog \<times> 'p) gw_state"
  assumes auth: "Authorize ed (mem_host host) (mem_Enforcer pol q) c s = (Return res, s')"
    and log: "en_Log q = Some a" and key: "key Mcp = en_RKey q" and al: "al Mcp = en_Allowlist q" and "pcs i = Idle"
  shows "run ed key al (shared_of a pcs A s)
    (shared_of a (pcs(i := Finished)) (A @ (if Allowed res then [tc_Nonce c] else [])) s')"
  using auth
proof (rule Authorize_Return)
  let ?e = "mem_Enforcer pol q"
  fix now w1 d w2 now2 w3 a' x l
  assume c1: "en_clock (mem_host host) ?e (gw_world s) = (now, w1)"
    and ev: "Evaluate (en_Allowlist ?e) (call_payment ?e c) (call_token c) (iface_policy (en_Policy ?e))
       (iface_spend (en_Spend ?e)) now (w1, False) = (d, (w2, False))"
    and c2: "en_clock (mem_host host) ?e w2 = (now2, w3)" and a': "en_Log ?e = Some a'"
    and app: "Append ed (en_RKey ?e) (class_byte (d_Class d)) (d_Binding d) (Unix now2) (gw_logs s a') = (Return x, l)"
    and s': "gw_logs s' = (gw_logs s)(a' := l)" "gw_world s' = w3" and cls: "res_Class res = d_Class d"
    and tr: "gw_trace s' = gw_trace s @ [EvAppend a' (class_byte (d_Class d)) (d_Binding d) (Unix now2) (Return x)]"
  define s1 where "s1 = s\<lparr>gw_world := w2\<rparr>"
  have clock: "fst w' = fst w" if "en_clock (mem_host host) ?e w = (n, w')" for w n w'
    using that by (auto simp: en_clock_def mem_Enforcer_def mem_host_def split: option.splits) (metis fst_snd_beside snd_conv)+
  obtain d' w2' where ev': "Evaluate (en_Allowlist ?e) (call_payment ?e c) (call_token c) (beside_mem pol) mem_spend now w1
      = (d', w2')"
    by (metis surj_pair)
  have "d' = d" "w2' = w2"
    using ev Evaluate_iface [OF ev', of False] by (simp_all add: mem_Enforcer_def)
  with ev' have "Evaluate (al Mcp) (call_payment ?e c) (call_token c) (beside_mem pol) mem_spend now w1 = (d, gw_world s1)"
    by (simp add: s1_def al mem_Enforcer_def)
  then have "run ed key al (shared_of a pcs A s)
      (shared_of a (pcs(i := decided Mcp (call_token c) (d_Class d) (d_Binding d))) A s1)"
    by (rule decision_steps) (simp_all add: s1_def clock [OF c1] assms(5))
  then have "run ed key al (shared_of a pcs A s)
      (shared_of a (pcs(i := Recording (call_token c) (d_Class d) (d_Binding d))) A s1)"
    by simp
  moreover have "step ed key al (shared_of a (pcs(i := Recording (call_token c) (d_Class d) (d_Binding d))) A s1)
     (shared_of a (pcs(i := Finished)) (A @ (if Allowed res then [tc_Nonce c] else [])) s')" (is "step ed key al ?s1 _")
  proof -
    have "step ed key al ?s1 ((goto i Finished ?s1)\<lparr>y_log := l, y_allowed := y_allowed ?s1
        @ (if d_Class d = Allow then [tok_Nonce (call_token c)] else [])\<rparr>)"
      by (rule step.tool_records [where b = "d_Binding d" and t = "Unix now2" and r = x])
        (use app a' log key in \<open>simp_all add: s1_def mem_Enforcer_def\<close>)
    moreover have "(goto i Finished ?s1)\<lparr>y_log := l, y_allowed := y_allowed ?s1
        @ (if d_Class d = Allow then [tok_Nonce (call_token c)] else [])\<rparr>
      = shared_of a (pcs(i := Finished)) (A @ (if Allowed res then [tc_Nonce c] else [])) s'"
      by (rule shared_of_eqI) (use s' cls a' log clock [OF c2] tr in
        \<open>simp_all add: s1_def mem_Enforcer_def Allowed_def call_token_def served_nonces_def\<close>)
    ultimately show ?thesis
      by simp
  qed
  ultimately show ?thesis
    by (rule run_step)
qed

section \<open>Sequences of calls\<close>

text \<open>The calls the two transports receive, one after the other, and what they answer.\<close>

datatype gw_call = HttpCall Request | McpCall ToolCall

definition gateway_call ::
  "ed25519 \<Rightarrow> 'w host \<Rightarrow> 'w PEP \<Rightarrow> 'w handler \<Rightarrow> 'w Enforcer \<Rightarrow> gw_call \<Rightarrow> ('w gw_state, Response + Result) proc" where
  "gateway_call ed host p nxt e c =
     (case c of
        HttpCall r \<Rightarrow> and_then (Wrap ed host p nxt r fresh_Response) (\<lambda>rs. ret (Inl rs))
      | McpCall tc \<Rightarrow> and_then (Authorize ed host e tc) (\<lambda>res. ret (Inr res)))"

text \<open>Both transports fully configured on one log, with the in-memory spend log.\<close>

definition mem_ready :: "nat \<Rightarrow> 'p PEP \<Rightarrow> 'p Enforcer \<Rightarrow> bool" where
  "mem_ready a q qe \<longleftrightarrow> p_Evidence q \<noteq> None \<and> p_Requirements q \<noteq> None \<and> length (p_RKey q) = 64 \<and> p_Log q = Some a
     \<and> en_Log qe = Some a \<and> length (en_RKey qe) = 64"

lemma Authorize_pub: "Authorize ed host e c s = (Return res, s') \<Longrightarrow> l_pub (gw_logs s' a) = l_pub (gw_logs s a)"
  by (erule Authorize_Return) (metis Append_pub fun_upd_apply snd_conv)

lemma Wrap_pub: "Wrap ed host p nxt r rs s = (res, s') \<Longrightarrow> l_pub (gw_logs s' a) = l_pub (gw_logs s a)"
  by (drule Wrap_logs_step) (auto simp: logs_step_def, metis Append_pub snd_conv)

text \<open>The history a call leaves: the point it ends at and the nonce of an allowed tool call.\<close>

definition call_end :: "gw_call \<Rightarrow> request_pc" where
  "call_end c = (case c of HttpCall r \<Rightarrow> request_end r | McpCall tc \<Rightarrow> Finished)"

definition call_allowed :: "gw_call \<Rightarrow> (Response + Result) outcome \<Rightarrow> bytes list" where
  "call_allowed c res =
     (case (c, res) of (McpCall tc, Return (Inr x)) \<Rightarrow> if Allowed x then [tc_Nonce tc] else [] | _ \<Rightarrow> [])"

lemma gateway_call_steps:
  fixes s :: "(MemSpendLog \<times> 'p) gw_state"
  assumes "mem_ready a q qe" and pub: "length (l_pub (gw_logs s a)) = 32"
    and "key Http = p_RKey q" "key Mcp = en_RKey qe" "al Http = p_Allowlist q" "al Mcp = en_Allowlist qe" and "pcs i = Idle"
    and "gateway_call ed (mem_host host) (mem_PEP pol q) (mem_handler nxt) (mem_Enforcer pol' qe) c s = (res, s')"
  shows "run ed key al (shared_of a pcs A s) (shared_of a (pcs(i := call_end c)) (A @ call_allowed c res) s')
    \<and> l_pub (gw_logs s' a) = l_pub (gw_logs s a)"
proof (cases c)
  case (HttpCall r)
  have "ready (mem_PEP pol q) s"
    using assms(1) pub by (simp add: mem_ready_def ready_def mem_PEP_def)
  then obtain rs' s1 where w: "Wrap ed (mem_host host) (mem_PEP pol q) (mem_handler nxt) r fresh_Response s = (Return rs', s1)"
    using Wrap_returns by blast
  with assms(8) HttpCall have "s1 = s'" "res = Return (Inl rs')"
    by (simp_all add: gateway_call_def and_then_Return [where p = "Wrap _ _ _ _ _ _", OF w])
  with Wrap_steps [OF w, of a key al pcs i A] Wrap_pub [OF w] assms HttpCall show ?thesis
    by (simp add: call_end_def call_allowed_def mem_ready_def)
next
  case (McpCall tc)
  let ?e = "mem_Enforcer pol' qe"
  obtain now w1 where now: "en_clock (mem_host host) ?e (gw_world s) = (now, w1)"
    by (metis surj_pair)
  obtain d w2 where "Evaluate (en_Allowlist ?e) (call_payment ?e tc) (call_token tc) (beside_mem pol') mem_spend now w1 = (d, w2)"
    by (metis surj_pair)
  then obtain x s1 where w: "Authorize ed (mem_host host) ?e tc s = (Return x, s1)"
    using Authorize_class [of ?e "beside_mem pol'" mem_spend a s "mem_host host" now w1 tc d w2 ed] assms(1) pub now
    by (auto simp: mem_Enforcer_def mem_ready_def)
  with assms(8) McpCall have "s1 = s'" "res = Return (Inr x)"
    by (simp_all add: gateway_call_def and_then_Return [where p = "Authorize _ _ _ _", OF w])
  with Authorize_steps [OF w, of a key al pcs i A] Authorize_pub [OF w] assms McpCall show ?thesis
    by (simp add: call_end_def call_allowed_def mem_ready_def)
qed

fun pcs_after :: "nat \<Rightarrow> gw_call list \<Rightarrow> (nat \<Rightarrow> request_pc) \<Rightarrow> nat \<Rightarrow> request_pc" where
  "pcs_after i [] pcs = pcs"
| "pcs_after i (c # cs) pcs = pcs_after (Suc i) cs (pcs(i := call_end c))"

definition calls_allowed :: "gw_call list \<Rightarrow> (Response + Result) outcome list \<Rightarrow> bytes list" where
  "calls_allowed cs rs = concat (map2 call_allowed cs rs)"

lemma gateway_calls_steps:
  fixes s :: "(MemSpendLog \<times> 'p) gw_state"
  assumes "mem_ready a q qe" and "length (l_pub (gw_logs s a)) = 32"
    and "key Http = p_RKey q" "key Mcp = en_RKey qe" "al Http = p_Allowlist q" "al Mcp = en_Allowlist qe"
    and "\<And>j. i \<le> j \<Longrightarrow> pcs j = Idle"
    and "run_seq (gateway_call ed (mem_host host) (mem_PEP pol q) (mem_handler nxt) (mem_Enforcer pol' qe)) cs s = (rs, s')"
  shows "run ed key al (shared_of a pcs A s) (shared_of a (pcs_after i cs pcs) (A @ calls_allowed cs rs) s')"
  using assms(2,7,8)
proof (induction cs arbitrary: i pcs A s rs)
  case Nil
  then show ?case
    by (simp add: calls_allowed_def run_refl)
next
  case (Cons c cs)
  from Cons.prems(3) obtain res s1 rs1 where
    c: "gateway_call ed (mem_host host) (mem_PEP pol q) (mem_handler nxt) (mem_Enforcer pol' qe) c s = (res, s1)"
    and cs: "run_seq (gateway_call ed (mem_host host) (mem_PEP pol q) (mem_handler nxt) (mem_Enforcer pol' qe)) cs s1 = (rs1, s')"
    and rs: "rs = res # rs1"
    by (auto split: prod.splits)
  have idle: "pcs i = Idle" "\<And>j. Suc i \<le> j \<Longrightarrow> (pcs(i := call_end c)) j = Idle"
    using Cons.prems(2) by simp_all
  from gateway_call_steps [where key = key and al = al and pcs = pcs and i = i and A = A,
      OF assms(1) Cons.prems(1) assms(3-6) idle(1) c]
  have 1: "run ed key al (shared_of a pcs A s) (shared_of a (pcs(i := call_end c)) (A @ call_allowed c res) s1)"
    and pub: "length (l_pub (gw_logs s1 a)) = 32"
    using Cons.prems(1) by simp_all
  have "run ed key al (shared_of a (pcs(i := call_end c)) (A @ call_allowed c res) s1)
      (shared_of a (pcs_after (Suc i) cs (pcs(i := call_end c))) ((A @ call_allowed c res) @ calls_allowed cs rs1) s')"
    by (rule Cons.IH [OF pub idle(2) cs])
  from run_trans [OF 1 this] show ?case
    by (simp add: rs calls_allowed_def)
qed

text \<open>C16. Refinement: a gateway that handles HTTP requests and tool calls one after the other
  on one spend log and one transparency log is one of the interleavings. Starting from an
  empty log, whatever the calls, the policies, the emitter, the clock and the protected
  handler do, the state it ends in is, seen as spend log, log, forwarded nonces and allowed
  tool calls, a state the step relation reaches, with each call's request at the end of
  its way.\<close>

theorem gateway_refines_steps:
  fixes q :: "'p PEP"
  assumes "mem_ready a q qe" and "length pub = 32"
    and "run_seq (gateway_call ed (mem_host host) (mem_PEP pol q) (mem_handler nxt) (mem_Enforcer pol' qe)) cs
      \<lparr>gw_world = (m, w), gw_logs = (\<lambda>_. NewLog pub), gw_trace = []\<rparr> = (rs, s')"
  shows "run ed (case_transport (p_RKey q) (en_RKey qe)) (case_transport (p_Allowlist q) (en_Allowlist qe))
      (start m pub) (shared_of a (pcs_after 0 cs (\<lambda>_. Idle)) (calls_allowed cs rs) s')"
proof -
  let ?s = "\<lparr>gw_world = (m, w), gw_logs = (\<lambda>_. NewLog pub), gw_trace = []\<rparr> :: (MemSpendLog \<times> 'p) gw_state"
  have "start m pub = shared_of a (\<lambda>_. Idle) [] ?s"
    by (simp add: start_def shared_of_def served_nonces_def)
  then show ?thesis
    using gateway_calls_steps [where key = "case_transport (p_RKey q) (en_RKey qe)"
        and al = "case_transport (p_Allowlist q) (en_Allowlist qe)" and i = 0 and pcs = "\<lambda>_. Idle" and A = "[]",
        OF assms(1) _ _ _ _ _ _ assms(3)] assms(2)
    by simp
qed

text \<open>The sample deployment with both transports, presented with the same token twice.\<close>

definition sample_parts :: "unit PEP" where
  "sample_parts =
     \<lparr>p_Allowlist = sample_allowlist, p_Policy = None, p_Spend = None, p_Log = Some 0, p_RKey = replicate 64 7,
      p_Evidence = Some sample_emitter, p_Name = ''pep-1'', p_Requirements = Some (\<lambda>r w. (sample_payment ''1000000'', w)),
      p_Now = None, p_Logf = None, p_nonConformant = False\<rparr>"

definition sample_tool_parts :: "unit Enforcer" where
  "sample_tool_parts =
     \<lparr>en_Scheme = ''exact'', en_Network = ''solana:devnet'', en_Allowlist = sample_allowlist, en_Policy = None,
      en_Spend = None, en_Log = Some 0, en_RKey = replicate 64 7, en_Now = None\<rparr>"

theorem gateway_refines_steps_witness:
  "\<exists>rs s'. run_seq (gateway_call digest_scheme (mem_host sample_host) (mem_PEP (exact_policy sample_cap) sample_parts)
        (mem_handler sample_handler) (mem_Enforcer (exact_policy sample_cap) sample_tool_parts))
        [HttpCall sample_request, McpCall sample_call] sample_state = (rs, s')
     \<and> run digest_scheme (case_transport (replicate 64 7) (replicate 64 7))
         (case_transport sample_allowlist sample_allowlist) (start NewMemSpendLog (replicate 32 7))
         (shared_of 0 (pcs_after 0 [HttpCall sample_request, McpCall sample_call] (\<lambda>_. Idle))
           (calls_allowed [HttpCall sample_request, McpCall sample_call] rs) s')
     \<and> pcs_after 0 [HttpCall sample_request, McpCall sample_call] (\<lambda>_. Idle) 0 = Finished"
proof -
  have ready: "mem_ready 0 sample_parts sample_tool_parts"
    by (simp add: mem_ready_def sample_parts_def sample_tool_parts_def)
  obtain rs s' where run: "run_seq (gateway_call digest_scheme (mem_host sample_host)
      (mem_PEP (exact_policy sample_cap) sample_parts) (mem_handler sample_handler)
      (mem_Enforcer (exact_policy sample_cap) sample_tool_parts))
      [HttpCall sample_request, McpCall sample_call] sample_state = (rs, s')"
    by (metis surj_pair)
  have fin: "pcs_after 0 [HttpCall sample_request, McpCall sample_call] (\<lambda>_. Idle) 0 = Finished"
    by (simp add: call_end_def request_end_def sample_token)
  show ?thesis
    using gateway_refines_steps [OF ready _ run [unfolded sample_state_def]] run fin
    by (intro exI [of _ rs] exI [of _ s']) (simp add: sample_parts_def sample_tool_parts_def del: run_seq.simps pcs_after.simps)
qed

end
