(* ===== verification/Transports.thy ===== *)
theory Transports
  imports Sequential
begin

text \<open>
  The two transports side by side. The package documentation of \<open>mcpgate\<close> promises one
  trust-boundary core under both: here the HTTP enforcement point and the tool-call enforcer,
  configured with the same parts, decide the same payment and token alike and leave the same
  chain. The widths that Go's array types give the stored data are an invariant of any mix of
  calls.
\<close>

section \<open>The same decision\<close>

text \<open>\<open>Wrap\<close>'s two ways when the receipt is written and the entry appended.\<close>

lemma Wrap_allow_recorded:
  assumes "p_Evidence p = Some em" "em_Emit em rc (gw_world s) = (Inr loc, w1)" "p_Log p = Some a"
    and "clock host p w1 = (now, w2)" "d_Class d = Allow"
    and "Append ed (p_RKey p) tl_Allow (d_Binding d) (Unix now) (gw_logs s a) = (Return (Inr e), l)"
    and "nxt r (Header_Set HeaderLogEntry (logEntryTag e) rs) w2 = (rs', w3)"
  shows "Wrap_allow ed host p nxt r rs rc d s =
    (Return rs', s\<lparr>gw_world := w3, gw_logs := (gw_logs s)(a := l),
       gw_trace := gw_trace s @ [EvEmit rc (Inr loc), EvAppend a tl_Allow (d_Binding d) (Unix now) (Return (Inr e)), EvServe r]\<rparr>)"
  using assms
  by (simp add: Wrap_allow_def and_then_def [of "PEP_Emit p rc"] PEP_Emit_def and_then_mapDecision and_then_PEP_now
      and_then_def [of "PEP_Append _ _ _ _ _"] PEP_Append_def forward_def)

lemma Wrap_deny_recorded:
  assumes "p_Evidence p = Some em" "em_Emit em rc (gw_world s) = (Inr loc, w1)" "p_Log p = Some a"
    and "clock host p w1 = (now, w2)" "mapDecision (d_Class d) = Return dec"
    and "Append ed (p_RKey p) dec (d_Binding d) (Unix now) (gw_logs s a) = (Return (Inr e), l)"
  shows "Wrap_deny ed host p rs rc d s =
    (Return (deny_response d rs), s\<lparr>gw_world := w2, gw_logs := (gw_logs s)(a := l),
       gw_trace := gw_trace s @ [EvEmit rc (Inr loc), EvAppend a dec (d_Binding d) (Unix now) (Return (Inr e))]\<rparr>)"
proof -
  have "recordDeny ed host p rc dec (d_Binding d) s = (Return (), s\<lparr>gw_world := w2, gw_logs := (gw_logs s)(a := l),
       gw_trace := gw_trace s @ [EvEmit rc (Inr loc), EvAppend a dec (d_Binding d) (Unix now) (Return (Inr e))]\<rparr>)"
    using assms
    by (simp add: recordDeny_def and_then_def [of "PEP_Emit p rc"] PEP_Emit_def and_then_PEP_now
        and_then_def [of "PEP_Append _ _ _ _ _"] PEP_Append_def)
  then show ?thesis
    by (simp add: Wrap_deny_def and_then_mapDecision assms(5) and_then_Return deny_response_def)
qed

text \<open>An enforcement point of each kind on the same parts.\<close>

definition same_parts :: "'w PEP \<Rightarrow> 'w Enforcer \<Rightarrow> bool" where
  "same_parts p e \<longleftrightarrow> en_Allowlist e = p_Allowlist p \<and> en_Policy e = p_Policy p \<and> en_Spend e = p_Spend p
     \<and> en_Log e = p_Log p \<and> en_RKey e = p_RKey p"

text \<open>An HTTP request that presents the tool call's token for the payment the tool call
  makes.\<close>

definition same_payment :: "'w PEP \<Rightarrow> 'w Enforcer \<Rightarrow> Request \<Rightarrow> ToolCall \<Rightarrow> 'w \<Rightarrow> bool" where
  "same_payment p e r c w \<longleftrightarrow> parseToken (Header_Get (rq_Header r) HeaderToken) = Some (call_token c)
     \<and> (case p_Requirements p of None \<Rightarrow> False | Some f \<Rightarrow> f r w = (call_payment e c, w))"

definition working_emitter :: "'w PEP \<Rightarrow> bool" where
  "working_emitter p \<longleftrightarrow> (\<exists>em. p_Evidence p = Some em \<and> (\<forall>rc w. \<exists>loc. em_Emit em rc w = (Inr loc, w)))"

lemma Evaluate_class_byte:
  assumes "Evaluate al pr tok pol sp now w = (d, w')"
  shows "mapDecision (d_Class d) = Return (class_byte (d_Class d))"
proof -
  have "d_Class d \<noteq> UnmappedClass k" for k
    using Evaluate_mapped assms by (metis fst_conv)
  then show ?thesis
    by (cases "d_Class d") (auto simp: tl_Allow_def tl_DenyViolation_def tl_DenyUnavailable_def)
qed

text \<open>Both calls on the same parts, up to the answer: the gate's decision \<open>d\<close> and the one entry
  appended for it.\<close>

lemma both_decide:
  assumes "ready p s" and "same_parts p e" and "same_payment p e r c (gw_world s)"
    and "en_clock host e = clock host p"
    and "p_Log p = Some a" and "ed25519_contract ed (p_RKey p) (l_pub (gw_logs s a))"
  obtains d w2 now2 w3 entry l where "mapDecision (d_Class d) = Return (class_byte (d_Class d))"
    "clock host p w2 = (now2, w3)" "l_entries l = l_entries (gw_logs s a) @ [entry]"
    "Append ed (p_RKey p) (class_byte (d_Class d)) (d_Binding d) (Unix now2) (gw_logs s a) = (Return (Inr entry), l)"
    "Authorize ed host e c s =
      (Return \<lparr>res_Class = d_Class d, res_Reason = d_Reason d, res_LogEntry = call_tag entry\<rparr>,
       s\<lparr>gw_world := w3, gw_logs := (gw_logs s)(a := l),
         gw_trace := gw_trace s @ [EvAppend a (class_byte (d_Class d)) (d_Binding d) (Unix now2) (Return (Inr entry))]\<rparr>)"
    "\<And>nxt rs. Wrap ed host p nxt r rs s =
      (let rc = receiptFor p d (tokenFingerprint (Header_Get (rq_Header r) HeaderToken)); s1 = s\<lparr>gw_world := w2\<rparr>
       in if d_Class d = Allow then Wrap_allow ed host p nxt r rs rc d s1 else Wrap_deny ed host p rs rc d s1)"
proof -
  obtain pol sp where parts: "p_Policy p = Some pol" "p_Spend p = Some sp" "en_Policy e = Some pol" "en_Spend e = Some sp"
    "en_Log e = Some a" "en_RKey e = p_RKey p" "en_Allowlist e = p_Allowlist p"
    using assms(1,2,5) by (auto simp: ready_def same_parts_def)
  obtain f where pay: "parseToken (Header_Get (rq_Header r) HeaderToken) = Some (call_token c)"
    "p_Requirements p = Some f" "f r (gw_world s) = (call_payment e c, gw_world s)"
    using assms(3) by (auto simp: same_payment_def split: option.splits)
  obtain now w1 d w2 now2 w3 where now: "clock host p (gw_world s) = (now, w1)"
    and ev: "Evaluate (p_Allowlist p) (call_payment e c) (call_token c) pol sp now w1 = (d, w2)"
    and now2: "clock host p w2 = (now2, w3)"
    by (metis surj_pair)
  obtain entry l where app: "Append ed (p_RKey p) (class_byte (d_Class d)) (d_Binding d) (Unix now2) (gw_logs s a)
      = (Return (Inr entry), l)"
    using Append_contract [OF assms(6)] by (metis prod.collapse)
  then have l: "l_entries l = l_entries (gw_logs s a) @ [entry]"
    by (auto elim: Append_cases)
  have decide: "Wrap_decide host p (call_token c) r s = (Return d, s\<lparr>gw_world := w2\<rparr>)"
    using pay ev now by (simp add: Wrap_decide_eq parts Evaluate_iface)
  show thesis
    by (rule that [OF Evaluate_class_byte [OF ev] now2 l app])
      (use Authorize_ready [OF parts(3-5), of host s now w1 c d w2 now2 w3 ed "Inr entry" l] assms(4) now now2 ev app parts
         decide in \<open>simp_all add: Wrap_def pay(1) Let_def and_then_def\<close>)
qed

text \<open>C13. One core under two transports: an HTTP enforcement point and a tool-call enforcer with
  the same allowlist, policy, spend log, transparency log, key and clock, given the same
  payment and token in the same state, take the same decision. They leave the same chain,
  byte for byte; the HTTP request is forwarded exactly when the tool call is allowed, in
  the world the tool call leaves and with the tag of the same entry; and otherwise the
  answer carries the class and reason of the tool call's result. The emitter is one that
  succeeds, and the key signs for the log.\<close>

theorem transports_agree:
  assumes "ready p s" and "same_parts p e" and "same_payment p e r c (gw_world s)" and "working_emitter p"
    and "en_clock host e = clock host p"
    and "p_Log p = Some a" and "ed25519_contract ed (p_RKey p) (l_pub (gw_logs s a))"
  shows "\<exists>res sm rs' sh new entry. Authorize ed host e c s = (Return res, sm)
    \<and> Wrap ed host p nxt r rs s = (Return rs', sh)
    \<and> gw_logs sh = gw_logs sm \<and> l_entries (gw_logs sm a) = l_entries (gw_logs s a) @ [entry]
    \<and> gw_trace sh = gw_trace s @ new \<and> res_LogEntry res = call_tag entry
    \<and> (if Allowed res
       then EvServe r \<in> set new
         \<and> nxt r (Header_Set HeaderLogEntry (logEntryTag entry) rs) (gw_world sm) = (rs', gw_world sh)
       else only_evidence new \<and> gw_world sh = gw_world sm
         \<and> rs' = (if res_Class res = DenyUnavailable
                  then http_Error (''authorization unavailable: '' @ res_Reason res) 503 rs
                  else http_Error (''authorization denied: '' @ res_Reason res) 402 rs))"
  using assms(1-3,5-7)
proof (rule both_decide)
  fix d w2 now2 w3 entry l
  assume dec: "mapDecision (d_Class d) = Return (class_byte (d_Class d))" and now2: "clock host p w2 = (now2, w3)"
    and l: "l_entries l = l_entries (gw_logs s a) @ [entry]"
    and app: "Append ed (p_RKey p) (class_byte (d_Class d)) (d_Binding d) (Unix now2) (gw_logs s a) = (Return (Inr entry), l)"
    and auth: "Authorize ed host e c s =
      (Return \<lparr>res_Class = d_Class d, res_Reason = d_Reason d, res_LogEntry = call_tag entry\<rparr>,
       s\<lparr>gw_world := w3, gw_logs := (gw_logs s)(a := l),
         gw_trace := gw_trace s @ [EvAppend a (class_byte (d_Class d)) (d_Binding d) (Unix now2) (Return (Inr entry))]\<rparr>)"
    and wrap: "\<And>nxt rs. Wrap ed host p nxt r rs s =
      (let rc = receiptFor p d (tokenFingerprint (Header_Get (rq_Header r) HeaderToken)); s1 = s\<lparr>gw_world := w2\<rparr>
       in if d_Class d = Allow then Wrap_allow ed host p nxt r rs rc d s1 else Wrap_deny ed host p rs rc d s1)"
  let ?rc = "receiptFor p d (tokenFingerprint (Header_Get (rq_Header r) HeaderToken))" and ?s1 = "s\<lparr>gw_world := w2\<rparr>"
  obtain em loc where em: "p_Evidence p = Some em" and loc: "em_Emit em ?rc (gw_world ?s1) = (Inr loc, w2)"
    using assms(4) unfolding working_emitter_def by fastforce
  show ?thesis
  proof (cases "d_Class d = Allow")
    case True
    obtain rs' w4 where nxt: "nxt r (Header_Set HeaderLogEntry (logEntryTag entry) rs) w3 = (rs', w4)"
      by fastforce
    have "class_byte (d_Class d) = tl_Allow"
      using True by (simp add: tl_Allow_def)
    with Wrap_allow_recorded [OF em loc assms(6) now2 True, of ed entry l nxt r rs rs' w4] app nxt auth l True show ?thesis
      by (simp add: wrap Allowed_def)
  next
    case False
    with Wrap_deny_recorded [OF em loc assms(6) now2 dec, of ed entry l rs] app auth l show ?thesis
      by (simp add: wrap Allowed_def deny_response_def)
  qed
qed

theorem transports_agree_witness:
  "\<exists>res sm rs' sh new. Authorize digest_scheme sample_host (sample_enforcer\<lparr>en_Policy := p_Policy sample_pep\<rparr>) sample_call
       sample_state = (Return res, sm)
    \<and> Wrap digest_scheme sample_host sample_pep sample_handler sample_request fresh_Response sample_state = (Return rs', sh)
    \<and> gw_logs sh = gw_logs sm \<and> gw_trace sh = new \<and> (Allowed res \<longleftrightarrow> EvServe sample_request \<in> set new)"
proof -
  let ?e = "sample_enforcer\<lparr>en_Policy := p_Policy sample_pep\<rparr>"
  have "same_parts sample_pep ?e" "working_emitter sample_pep"
    by (simp_all add: same_parts_def working_emitter_def sample_emitter_def)
  moreover have "same_payment sample_pep ?e sample_request sample_call (gw_world sample_state)"
    by (simp add: same_payment_def sample_token call_token_def sample_call_def call_payment_def sample_enforcer_def
        sample_payment_def)
  moreover have "en_clock sample_host ?e = clock sample_host sample_pep"
    by (simp add: en_clock_def clock_def)
  moreover have "ed25519_contract digest_scheme (p_RKey sample_pep) (l_pub (gw_logs sample_state 0))"
    using digest_scheme_contract [of "replicate 64 7"] by simp
  ultimately show ?thesis
    using transports_agree [OF sample_ready, of ?e sample_request sample_call sample_host 0 digest_scheme sample_handler
        fresh_Response]
    by (simp add: only_evidence_def split: if_splits) blast
qed

section \<open>What a call does to the logs\<close>

text \<open>At most one \<open>Append\<close>, of a 32-byte binding and a named decision, to one log.\<close>

definition appended :: "ed25519 \<Rightarrow> 'w gw_state \<Rightarrow> 'w gw_state \<Rightarrow> bool" where
  "appended ed s s' \<longleftrightarrow> gw_logs s' = gw_logs s
     \<or> (\<exists>a key dec b t r l. Append ed key dec b t (gw_logs s a) = (r, l) \<and> gw_logs s' = (gw_logs s)(a := l)
          \<and> length b = 32 \<and> (dec = tl_Allow \<or> denial dec))"

lemma Wrap_appended:
  assumes "Wrap ed host p nxt r rs s = (res, s')"
  shows "appended ed s s'"
  using assms
proof (cases rule: Wrap_cases)
  case (unserved new)
  then show ?thesis
    unfolding appended_def logs_step_def by blast
next
  case (served tok d s1 loc a' t e l w rs')
  then show ?thesis
    using Wrap_decide_binding [OF served(2)] unfolding appended_def by blast
qed

lemma Enforcer_Evaluate_typed:
  assumes "Enforcer_Evaluate e c now s = (res, s')"
  shows "gw_logs s' = gw_logs s"
    and "res = Return d \<Longrightarrow> length (d_Binding d) = 32 \<and> mapDecision (d_Class d) = Return (class_byte (d_Class d))"
proof -
  obtain d' w b where ev: "Evaluate (en_Allowlist e) (call_payment e c) (call_token c) (iface_policy (en_Policy e))
             (iface_spend (en_Spend e)) now (gw_world s, False) = (d', (w, b))"
    by (metis surj_pair)
  then show "gw_logs s' = gw_logs s"
    using assms by (auto simp: Enforcer_Evaluate_def)
  have "d_Binding d' = fst (ComputeBinding (en_Allowlist e) (call_payment e c) (tok_Nonce (call_token c)))"
    using Evaluate_binding ev by (metis fst_conv)
  then show "length (d_Binding d) = 32 \<and> mapDecision (d_Class d) = Return (class_byte (d_Class d))" if "res = Return d"
    using assms ev that Evaluate_class_byte [OF ev] by (auto simp: Enforcer_Evaluate_def split: if_splits)
qed

lemma Authorize_appended:
  assumes "Authorize ed host e c s = (res, s')"
  shows "appended ed s s'"
proof -
  define s1 where "s1 = s\<lparr>gw_world := snd (en_clock host e (gw_world s))\<rparr>"
  from assms have "and_then (Enforcer_Evaluate e c (fst (en_clock host e (gw_world s)))) (\<lambda>d.
     and_then (Enforcer_now host e) (\<lambda>now2.
     and_then (Enforcer_Append ed e (class_byte (d_Class d)) (d_Binding d) (Unix now2)) (\<lambda>r.
       let entry = (case r of Inl err \<Rightarrow> zero_Entry | Inr entry \<Rightarrow> entry)
       in ret \<lparr>res_Class = d_Class d, res_Reason = d_Reason d, res_LogEntry = call_tag entry\<rparr>))) s1 = (res, s')"
    unfolding Authorize_def and_then_Enforcer_now [where s = s] s1_def .
  then show ?thesis
  proof (cases rule: and_then_cases)
    case (panic m)
    with Enforcer_Evaluate_typed(1) [OF panic(1)] show ?thesis
      by (simp add: s1_def appended_def)
  next
    case (return d s2)
    then have d: "length (d_Binding d) = 32" "mapDecision (d_Class d) = Return (class_byte (d_Class d))"
      and s2: "gw_logs s2 = gw_logs s"
      using Enforcer_Evaluate_typed [OF return(1)] by (simp_all add: s1_def)
    have named: "class_byte (d_Class d) = tl_Allow \<or> denial (class_byte (d_Class d))"
      using mapDecision_denial [OF d(2)] d(2) by (cases "d_Class d = Allow") simp_all
    from return(2) obtain t s3 x s4 where "Enforcer_Append ed e (class_byte (d_Class d)) (d_Binding d) t s3 = (x, s4)"
      "gw_logs s3 = gw_logs s" "gw_logs s' = gw_logs s4"
      unfolding and_then_Enforcer_now using s2 by (cases rule: and_then_cases) (fastforce simp: Let_def)+
    then consider "gw_logs s' = gw_logs s" | a l where "Append ed (en_RKey e) (class_byte (d_Class d)) (d_Binding d) t (gw_logs s a)
        = (x, l)" "gw_logs s' = (gw_logs s)(a := l)"
      by (auto simp: Enforcer_Append_def split: option.splits prod.splits)
    with d(1) named show ?thesis
      unfolding appended_def by metis
  qed
qed

lemma gateway_call_appended: "appended ed s (snd (gateway_call ed host p nxt e c s))"
proof -
  have "appended ed s (snd (and_then m (\<lambda>x. ret (f x)) s))" if "\<And>res s'. m s = (res, s') \<Longrightarrow> appended ed s s'"
    for m :: "('a gw_state, 'b) proc" and f :: "'b \<Rightarrow> Response + Result"
    using that by (auto simp: and_then_def split: prod.splits outcome.splits)
  with Wrap_appended [of ed host p nxt _ fresh_Response s] Authorize_appended [of ed host e _ s] show ?thesis
    by (cases c) (auto simp: gateway_call_def and_then_def split: prod.splits outcome.splits)
qed

text \<open>So what \<open>Append\<close> keeps of a log, any sequence of calls keeps of every log.\<close>

lemma gateway_calls_keep:
  assumes "\<And>key dec b t l r l'. Append ed key dec b t l = (r, l') \<Longrightarrow> length b = 32 \<Longrightarrow> dec = tl_Allow \<or> denial dec
      \<Longrightarrow> P l \<Longrightarrow> P l'" and "P (gw_logs s a)"
  shows "P (gw_logs (snd (run_seq (gateway_call ed host p nxt e) cs s)) a)"
proof (rule run_seq_invariant [where P = "\<lambda>s. P (gw_logs s a)"])
  fix c and s1 :: "'a gw_state"
  assume "P (gw_logs s1 a)"
  then show "P (gw_logs (snd (gateway_call ed host p nxt e c s1)) a)"
    using gateway_call_appended [of ed s1 host p nxt e c] assms(1) unfolding appended_def by (metis fun_upd_apply)
qed (rule assms(2))

lemma gateway_calls_sound:
  assumes "sound_entries ed (l_pub (gw_logs s a)) (l_entries (gw_logs s a))" and "wf_entries (l_entries (gw_logs s a))"
    and "s' = snd (run_seq (gateway_call ed host p nxt e) cs s)"
  shows "sound_entries ed (l_pub (gw_logs s' a)) (l_entries (gw_logs s' a))
    \<and> wf_entries (l_entries (gw_logs s' a)) \<and> l_pub (gw_logs s' a) = l_pub (gw_logs s a)"
  unfolding assms(3)
proof (rule gateway_calls_keep [where P = "\<lambda>l. sound_entries ed (l_pub l) (l_entries l) \<and> wf_entries (l_entries l)
    \<and> l_pub l = l_pub (gw_logs s a)"])
  fix key dec b t l r l'
  assume "Append ed key dec b t l = (r, l')" "length b = 32"
    "sound_entries ed (l_pub l) (l_entries l) \<and> wf_entries (l_entries l) \<and> l_pub l = l_pub (gw_logs s a)"
  then show "sound_entries ed (l_pub l') (l_entries l') \<and> wf_entries (l_entries l') \<and> l_pub l' = l_pub (gw_logs s a)"
    using Append_sound Append_wf [of l b ed key dec t] Append_pub [of ed key dec b t l] by (metis snd_conv)
qed (use assms(1,2) in simp)

lemma gateway_calls_grow:
  "\<exists>new. l_entries (gw_logs (snd (run_seq (gateway_call ed host p nxt e) cs s)) a) = l_entries (gw_logs s a) @ new"
proof (rule gateway_calls_keep [where P = "\<lambda>l. \<exists>new. l_entries l = l_entries (gw_logs s a) @ new"])
  fix key dec b t l r l'
  assume "Append ed key dec b t l = (r, l')" "\<exists>new. l_entries l = l_entries (gw_logs s a) @ new"
  then show "\<exists>new. l_entries l' = l_entries (gw_logs s a) @ new"
    by (auto elim: Append_cases)
qed simp

text \<open>One entry per call at most.\<close>

lemma gateway_calls_count:
  "Log_Len (gw_logs (snd (run_seq (gateway_call ed host p nxt e) cs s)) a) \<le> Log_Len (gw_logs s a) + length cs"
proof (induction cs arbitrary: s)
  case (Cons c cs)
  have "Log_Len l' \<le> Suc (Log_Len l)" if "Append ed key dec b t l = (r, l')" for key dec b t l r l'
    using that by (cases rule: Append_cases) (simp_all add: Log_Len_def)
  then have "Log_Len (gw_logs (snd (gateway_call ed host p nxt e c s)) a) \<le> Suc (Log_Len (gw_logs s a))"
    using gateway_call_appended [of ed s host p nxt e c] unfolding appended_def by (metis fun_upd_apply le_SucI order_refl)
  with Cons [of "snd (gateway_call ed host p nxt e c s)"] show ?case
    by (simp add: run_seq_snd_Cons del: run_seq.simps(2))
qed simp

section \<open>Widths\<close>

text \<open>The widths of the stored data: \<open>[32]byte\<close> bindings and hashes, 64-byte signatures, a
  32-byte public key, and one of the three named decisions.\<close>

definition entry_typed :: "Entry \<Rightarrow> bool" where
  "entry_typed e \<longleftrightarrow> length (r_Binding (e_Record e)) = 32 \<and> length (r_PrevHash (e_Record e)) = 32
     \<and> length (e_Signature e) = 64 \<and> (r_Decision (e_Record e) = tl_Allow \<or> denial (r_Decision (e_Record e)))"

definition log_typed :: "Log \<Rightarrow> bool" where
  "log_typed l \<longleftrightarrow> length (l_pub l) = 32 \<and> (\<forall>e \<in> set (l_entries l). entry_typed e)"

lemma Append_typed:
  assumes "Append ed key dec b t l = (res, l')" and "log_typed l" "length b = 32" "dec = tl_Allow \<or> denial dec"
  shows "log_typed l'"
  using assms(1)
proof (cases rule: Append_cases)
  case (ok sig)
  have "length sig = 64"
    using ok(3) by (auto simp: Verify_def ed25519_Verify_def split: if_splits)
  moreover have "length (prev_of (l_entries l)) = 32"
    by (simp add: prev_of_def Hash_def)
  ultimately show ?thesis
    using ok(2) assms(2-4) next_record_prev [of dec b t "l_entries l"]
    by (auto simp: log_typed_def entry_typed_def next_record_def)
qed (use assms(2) in simp_all)

text \<open>C17. The widths of the Go types are an invariant: whatever HTTP requests and tool calls
  arrive, in whatever order, and whatever the configuration and its parts do (nil parts and
  panics included), every log keeps a 32-byte key, and every entry of it a 32-byte binding,
  a 32-byte previous hash, a 64-byte signature and one of the three named decisions.\<close>

theorem gateway_calls_typed:
  assumes "\<And>a. log_typed (gw_logs s a)"
  shows "log_typed (gw_logs (snd (run_seq (gateway_call ed host p nxt e) cs s)) a)"
  by (rule gateway_calls_keep) (use assms Append_typed in blast)+

theorem gateway_calls_typed_witness:
  "log_typed (gw_logs (snd (run_seq (gateway_call digest_scheme sample_host sample_pep sample_handler sample_enforcer)
     [HttpCall sample_request, McpCall sample_call] sample_state)) 0)"
proof -
  have "log_typed (gw_logs sample_state a)" for a
    by (simp add: log_typed_def)
  then show ?thesis
    by (rule gateway_calls_typed)
qed

end
