(* ===== verification/Ledger.thy ===== *)
theory Ledger
  imports Transports
begin

text \<open>
  What the two enforcement points promise together, as an abstract service: a set of spent
  nonces and a book of decisions. Deciding a payment is one pure function on it; nothing of
  HTTP, tool calls, receipts, hash chains, signatures, clocks or mutexes is left. The code
  implements it: every call of the gateway, seen through \<open>ledger_of\<close>, is that function, and its
  answer is the class the function gives.
\<close>

section \<open>The abstract service\<close>

record ledger =
  g_spent :: "bytes set"
  g_book :: "(byte \<times> bytes) list"

text \<open>What is asked: a payment with a token, the instant, and what the policy says of it.\<close>

record asked =
  ask_payment :: PaymentRequirements
  ask_token :: Token
  ask_now :: time
  ask_verdict :: "goerror option"

definition ledger_class :: "Allowlist \<Rightarrow> asked \<Rightarrow> bytes set \<Rightarrow> DecisionClass" where
  "ledger_class al q spent =
     (if \<not> bindable al (ask_payment q) \<or> expired (ask_token q) (ask_now q) then DenyViolation
      else case ask_verdict q of
        Some err \<Rightarrow> if isUnavailable err then DenyUnavailable else DenyViolation
      | None \<Rightarrow> if tok_Nonce (ask_token q) \<in> spent then DenyViolation else Allow)"

definition ledger_decide :: "Allowlist \<Rightarrow> asked \<Rightarrow> ledger \<Rightarrow> DecisionClass \<times> ledger" where
  "ledger_decide al q L =
     (let c = ledger_class al q (g_spent L); n = tok_Nonce (ask_token q)
      in (c, \<lparr>g_spent = (if c = Allow then insert n (g_spent L) else g_spent L),
              g_book = g_book L @ [(class_byte c, fst (ComputeBinding al (ask_payment q) n))]\<rparr>))"

section \<open>What a call asks\<close>

text \<open>Read off the state beside the spend log, in the order the code reads it.\<close>

definition http_asks :: "'p host \<Rightarrow> 'p PolicyVerifier \<Rightarrow> 'p PEP \<Rightarrow> Request \<Rightarrow> 'p \<Rightarrow> asked option" where
  "http_asks host pol q r w =
     (case (parseToken (Header_Get (rq_Header r) HeaderToken), p_Requirements q) of
        (Some tok, Some f) \<Rightarrow>
          (case f r w of (req, w1) \<Rightarrow>
          (case clock host q w1 of (now, w2) \<Rightarrow>
             Some \<lparr>ask_payment = req, ask_token = tok, ask_now = now, ask_verdict = fst (pol req tok w2)\<rparr>))
      | _ \<Rightarrow> None)"

definition tool_asks :: "'p host \<Rightarrow> 'p PolicyVerifier \<Rightarrow> 'p Enforcer \<Rightarrow> ToolCall \<Rightarrow> 'p \<Rightarrow> asked" where
  "tool_asks host pol q c w =
     (case en_clock host q w of (now, w1) \<Rightarrow>
        \<lparr>ask_payment = call_payment q c, ask_token = call_token c, ask_now = now,
         ask_verdict = fst (pol (call_payment q c) (call_token c) w1)\<rparr>)"

definition ledger_of :: "nat \<Rightarrow> (MemSpendLog \<times> 'p) gw_state \<Rightarrow> ledger" where
  "ledger_of a s =
     \<lparr>g_spent = seen (fst (gw_world s)),
      g_book = map (\<lambda>e. (r_Decision (e_Record e), r_Binding (e_Record e))) (l_entries (gw_logs s a))\<rparr>"

section \<open>The gate\<close>

lemma Evaluate_ledger:
  assumes "Evaluate al pr tok (beside_mem pol) mem_spend now w = (d, w')"
    and "q = \<lparr>ask_payment = pr, ask_token = tok, ask_now = now, ask_verdict = fst (pol pr tok (snd w))\<rparr>"
  shows "d_Class d = ledger_class al q (seen (fst w))"
    and "seen (fst w') = (if d_Class d = Allow then insert (tok_Nonce tok) (seen (fst w)) else seen (fst w))"
    and "d_Binding d = fst (ComputeBinding al pr (tok_Nonce tok))"
proof -
  show "d_Binding d = fst (ComputeBinding al pr (tok_Nonce tok))"
    using Evaluate_binding assms(1) by (metis fst_conv)
  show "d_Class d = ledger_class al q (seen (fst w))"
    "seen (fst w') = (if d_Class d = Allow then insert (tok_Nonce tok) (seen (fst w)) else seen (fst w))"
    using assms(1)
    by (cases rule: Evaluate_cases;
        auto simp: assms(2) ledger_class_def beside_mem_def mem_spend_def MemSpendLog_Spend_def
          split: prod.splits if_splits)+
qed

text \<open>One appended entry is one line of the book.\<close>

lemma ledger_of_append:
  assumes "Append ed key dec b t (gw_logs s a) = (Return (Inr e), l)" and "gw_logs s' a = l"
    and "seen (fst (gw_world s')) = N"
  shows "ledger_of a s' = \<lparr>g_spent = N, g_book = g_book (ledger_of a s) @ [(dec, b)]\<rparr>"
  using assms by (auto simp: ledger_of_def next_record_def elim!: Append_cases)

section \<open>The two enforcement points\<close>

lemma mem_clocks:
  "clock (mem_host host) (mem_PEP pol q) = beside (clock host q)"
  "en_clock (mem_host host) (mem_Enforcer pol' qe) = beside (en_clock host qe)"
  by (auto simp: clock_def en_clock_def mem_host_def mem_PEP_def mem_Enforcer_def split: option.splits)

lemma beside_eq: "f (snd w) = (x, y) \<Longrightarrow> beside f w = (x, (fst w, y))"
  by (simp add: beside_def)

lemma mem_Enforcer_sel [simp]:
  "en_Policy (mem_Enforcer pol q) = Some (beside_mem pol)" "en_Spend (mem_Enforcer pol q) = Some mem_spend"
  "en_Log (mem_Enforcer pol q) = en_Log q" "en_RKey (mem_Enforcer pol q) = en_RKey q"
  "en_Allowlist (mem_Enforcer pol q) = en_Allowlist q" "call_payment (mem_Enforcer pol q) c = call_payment q c"
  by (simp_all add: mem_Enforcer_def call_payment_def)

lemma mem_PEP_sel [simp]:
  "p_Policy (mem_PEP pol q) = Some (beside_mem pol)" "p_Spend (mem_PEP pol q) = Some mem_spend"
  "p_Log (mem_PEP pol q) = p_Log q" "p_RKey (mem_PEP pol q) = p_RKey q" "p_Allowlist (mem_PEP pol q) = p_Allowlist q"
  "p_Requirements (mem_PEP pol q) = map_option (\<lambda>f r. beside (f r)) (p_Requirements q)"
  by (simp_all add: mem_PEP_def)

lemma Authorize_ledger:
  assumes "en_Log qe = Some a" and "ed25519_contract ed (en_RKey qe) (l_pub (gw_logs s a))"
  shows "\<exists>res s'. Authorize ed (mem_host host) (mem_Enforcer pol qe) c s = (Return res, s')
    \<and> (res_Class res, ledger_of a s') = ledger_decide (en_Allowlist qe) (tool_asks host pol qe c (snd (gw_world s))) (ledger_of a s)"
proof -
  let ?e = "mem_Enforcer pol qe"
  obtain now p1 where now: "en_clock host qe (snd (gw_world s)) = (now, p1)"
    by fastforce
  obtain d w2 where ev: "Evaluate (en_Allowlist qe) (call_payment qe c) (call_token c) (beside_mem pol) mem_spend now
      (fst (gw_world s), p1) = (d, w2)"
    by (metis surj_pair)
  obtain now2 p3 where now2: "en_clock host qe (snd w2) = (now2, p3)"
    by fastforce
  obtain e l where app: "Append ed (en_RKey qe) (class_byte (d_Class d)) (d_Binding d) (Unix now2) (gw_logs s a)
      = (Return (Inr e), l)"
    using Append_contract [OF assms(2)] by (metis prod.collapse)
  let ?s' = "s\<lparr>gw_world := (fst w2, p3), gw_logs := (gw_logs s)(a := l),
     gw_trace := gw_trace s @ [EvAppend a (class_byte (d_Class d)) (d_Binding d) (Unix now2) (Return (Inr e))]\<rparr>"
  have "Authorize ed (mem_host host) ?e c s =
     (Return \<lparr>res_Class = d_Class d, res_Reason = d_Reason d, res_LogEntry = call_tag e\<rparr>, ?s')"
    using Authorize_ready [of ?e "beside_mem pol" mem_spend a "mem_host host" s now "(fst (gw_world s), p1)" c d w2 now2
        "(fst w2, p3)" ed "Inr e" l] assms(1) now now2 ev app
    by (simp add: mem_clocks beside_eq)
  moreover have "ledger_of a ?s' = \<lparr>g_spent = seen (fst w2), g_book = g_book (ledger_of a s) @ [(class_byte (d_Class d), d_Binding d)]\<rparr>"
    by (rule ledger_of_append [OF app]) simp_all
  moreover note Evaluate_ledger [OF ev refl]
  ultimately show ?thesis
    by (simp add: ledger_decide_def tool_asks_def now Let_def call_token_def ledger_of_def)
qed

text \<open>An emitter that records what it is given.\<close>

definition recording :: "'p PEP \<Rightarrow> bool" where
  "recording q \<longleftrightarrow> (\<exists>em. p_Evidence q = Some em \<and> (\<forall>rc w. \<exists>loc w'. em_Emit em rc w = (Inr loc, w')))"

lemma recording_emits:
  assumes "recording q"
  obtains em loc p where "p_Evidence (mem_PEP pol q) = Some em" "em_Emit em rc w = (Inr loc, (fst w, p))"
proof -
  obtain em loc p where "p_Evidence q = Some em" "em_Emit em rc (snd w) = (Inr loc, p)"
    using assms unfolding recording_def by metis
  then show thesis
    by (intro that [of "\<lparr>em_Emit = (\<lambda>rc. beside (em_Emit em rc)), em_Noop = em_Noop em, em_Durable = map_option beside (em_Durable em)\<rparr>" loc p])
      (simp_all add: mem_PEP_def beside_eq)
qed

text \<open>What an HTTP request is answered, by the class of its decision.\<close>

definition http_answer :: "Request \<Rightarrow> DecisionClass \<Rightarrow> event list \<Rightarrow> Response \<Rightarrow> bool" where
  "http_answer r c new rs \<longleftrightarrow>
     (case c of
        Allow \<Rightarrow> EvServe r \<in> set new
      | DenyViolation \<Rightarrow> only_evidence new \<and> rs_Status rs = Some 402
      | DenyUnavailable \<Rightarrow> only_evidence new \<and> rs_Status rs = Some 503
      | UnmappedClass k \<Rightarrow> False)"

lemma Wrap_ledger_unasked:
  assumes "http_asks host pol q r w = None" and "p_Requirements q \<noteq> None"
  shows "Wrap ed host' p nxt r fresh_Response s
    = (Return (http_Error ''missing or malformed X-SPT-Txn authorization'' 401 fresh_Response), s)"
proof -
  have "parseToken (Header_Get (rq_Header r) HeaderToken) = None"
    using assms by (auto simp: http_asks_def split: option.splits prod.splits)
  then show ?thesis
    by (simp add: Wrap_def)
qed

text \<open>The part of a request after its decision: a receipt, a log record, then the answer of
  the class.\<close>

lemma Wrap_answer_recorded:
  assumes em: "p_Evidence p = Some em" and emit: "em_Emit em rc (gw_world s) = (Inr loc, (m, w1))"
    and log: "p_Log p = Some a" and now: "clock host p (m, w1) = (now, (m, w2))"
    and dec: "mapDecision (d_Class d) = Return (class_byte (d_Class d))"
    and app: "Append ed (p_RKey p) (class_byte (d_Class d)) (d_Binding d) (Unix now) (gw_logs s a) = (Return (Inr e), l)"
  shows "\<exists>rs' s' new. (if d_Class d = Allow then Wrap_allow ed host p (mem_handler nxt) r fresh_Response rc d s
        else Wrap_deny ed host p fresh_Response rc d s) = (Return rs', s')
    \<and> gw_trace s' = gw_trace s @ new \<and> http_answer r (d_Class d) new rs' \<and> fst (gw_world s') = m \<and> gw_logs s' a = l"
proof (cases "d_Class d = Allow")
  case True
  obtain rs' w3 where nxt: "mem_handler nxt r (Header_Set HeaderLogEntry (logEntryTag e) fresh_Response) (m, w2) = (rs', (m, w3))"
    unfolding mem_handler_def by (metis beside_eq fst_conv surj_pair)
  have "Append ed (p_RKey p) tl_Allow (d_Binding d) (Unix now) (gw_logs s a) = (Return (Inr e), l)"
    using app True by (simp add: tl_Allow_def)
  from Wrap_allow_recorded [where nxt = "mem_handler nxt" and r = r and rs = fresh_Response, OF em emit log now True this nxt] True
  show ?thesis
    by (simp add: http_answer_def)
next
  case False
  from Wrap_deny_recorded [OF em emit log now dec app, of fresh_Response] False dec show ?thesis
    by (cases "d_Class d") (simp_all add: http_answer_def deny_response_def fresh_Response_def)
qed

lemma Wrap_ledger:
  assumes "http_asks host pol q r (snd (gw_world s)) = Some ask" and "recording q" and log: "p_Log q = Some a"
    and "ed25519_contract ed (p_RKey q) (l_pub (gw_logs s a))"
  shows "\<exists>rs' s' new c. Wrap ed (mem_host host) (mem_PEP pol q) (mem_handler nxt) r fresh_Response s = (Return rs', s')
    \<and> gw_trace s' = gw_trace s @ new \<and> http_answer r c new rs'
    \<and> (c, ledger_of a s') = ledger_decide (p_Allowlist q) ask (ledger_of a s)"
proof -
  let ?p = "mem_PEP pol q" and ?raw = "Header_Get (rq_Header r) HeaderToken"
  obtain tok f req p1 now p2 where tok: "parseToken ?raw = Some tok" and f: "p_Requirements q = Some f"
    "f r (snd (gw_world s)) = (req, p1)" and now: "clock host q p1 = (now, p2)"
    and ask: "ask = \<lparr>ask_payment = req, ask_token = tok, ask_now = now, ask_verdict = fst (pol req tok p2)\<rparr>"
    using assms(1) by (auto simp: http_asks_def split: option.splits prod.splits)
  obtain d w3 where ev: "Evaluate (p_Allowlist q) req tok (beside_mem pol) mem_spend now (fst (gw_world s), p2) = (d, w3)"
    by (metis surj_pair)
  let ?rc = "receiptFor ?p d (tokenFingerprint ?raw)" and ?s1 = "s\<lparr>gw_world := w3\<rparr>"
  obtain em loc p4 where em: "p_Evidence ?p = Some em" "em_Emit em ?rc (gw_world ?s1) = (Inr loc, (fst w3, p4))"
    using recording_emits [OF assms(2), of pol ?rc w3] by auto
  obtain now2 p5 where now2: "clock (mem_host host) ?p (fst w3, p4) = (now2, (fst w3, p5))"
    by (metis beside_eq fst_conv mem_clocks(1) surj_pair)
  obtain e l where app: "Append ed (p_RKey ?p) (class_byte (d_Class d)) (d_Binding d) (Unix now2) (gw_logs ?s1 a)
      = (Return (Inr e), l)"
    using Append_contract [OF assms(4)] by simp (metis prod.collapse)
  have "Wrap_decide (mem_host host) ?p tok r s = (Return d, ?s1)"
    using f now ev by (simp add: Wrap_decide_eq mem_clocks beside_eq Evaluate_iface)
  then have wrap: "Wrap ed (mem_host host) ?p (mem_handler nxt) r fresh_Response s
      = (if d_Class d = Allow then Wrap_allow ed (mem_host host) ?p (mem_handler nxt) r fresh_Response ?rc d ?s1
         else Wrap_deny ed (mem_host host) ?p fresh_Response ?rc d ?s1)"
    by (simp add: Wrap_def tok Let_def and_then_def)
  have "p_Log ?p = Some a"
    using log by simp
  from Wrap_answer_recorded [OF em this now2 Evaluate_class_byte [OF ev] app, of nxt r] obtain rs' s' new where
    answer: "Wrap ed (mem_host host) ?p (mem_handler nxt) r fresh_Response s = (Return rs', s')"
      "gw_trace s' = gw_trace s @ new" "http_answer r (d_Class d) new rs'"
    and "fst (gw_world s') = fst w3" "gw_logs s' a = l"
    unfolding wrap by auto
  with ledger_of_append [of ed "p_RKey ?p" "class_byte (d_Class d)" "d_Binding d" "Unix now2" s a e l s' "seen (fst w3)"]
    Evaluate_ledger [OF ev, of ask] app
  have "(d_Class d, ledger_of a s') = ledger_decide (p_Allowlist q) ask (ledger_of a s)"
    by (simp add: ask ledger_decide_def Let_def ledger_of_def)
  with answer show ?thesis
    by auto
qed

section \<open>Refinement\<close>

text \<open>A call of either transport on the abstract service; a request without a token does not
  reach it.\<close>

definition ledger_call ::
  "'p host \<Rightarrow> 'p PolicyVerifier \<Rightarrow> 'p PEP \<Rightarrow> 'p PolicyVerifier \<Rightarrow> 'p Enforcer \<Rightarrow> gw_call \<Rightarrow> 'p \<Rightarrow> ledger
     \<Rightarrow> DecisionClass option \<times> ledger" where
  "ledger_call host pol q pol' qe c w L =
     (case c of
        HttpCall r \<Rightarrow>
          (case http_asks host pol q r w of
             None \<Rightarrow> (None, L)
           | Some ask \<Rightarrow> apfst Some (ledger_decide (p_Allowlist q) ask L))
      | McpCall tc \<Rightarrow> apfst Some (ledger_decide (en_Allowlist qe) (tool_asks host pol' qe tc w) L))"

fun answered :: "gw_call \<Rightarrow> DecisionClass option \<Rightarrow> event list \<Rightarrow> Response + Result \<Rightarrow> bool" where
  "answered (HttpCall r) None new (Inl rs) \<longleftrightarrow> new = [] \<and> rs_Status rs = Some 401"
| "answered (HttpCall r) (Some c) new (Inl rs) \<longleftrightarrow> http_answer r c new rs"
| "answered (McpCall tc) (Some c) new (Inr res) \<longleftrightarrow> only_evidence new \<and> res_Class res = c"
| "answered _ _ _ _ \<longleftrightarrow> False"

text \<open>C14. The gateway implements the abstract service: with the in-memory spend log, an emitter
  that records and keys that sign for the shared log, every HTTP request and every tool
  call returns, and changes the spent nonces and the book of decisions exactly as the
  abstract decision does: one line for the class and binding, the nonce spent exactly on
  ALLOW. The answer is the class's: forwarded on ALLOW, 402 for a violation, 503 for an
  outage, the class itself for a tool call; a request without a parseable token is
  answered 401 and changes nothing.\<close>

theorem gateway_implements_ledger:
  assumes "mem_ready a q qe" and "recording q"
    and "ed25519_contract ed (p_RKey q) (l_pub (gw_logs s a))" and "ed25519_contract ed (en_RKey qe) (l_pub (gw_logs s a))"
  shows "\<exists>res s' new. gateway_call ed (mem_host host) (mem_PEP pol q) (mem_handler nxt) (mem_Enforcer pol' qe) c s
        = (Return res, s')
    \<and> gw_trace s' = gw_trace s @ new
    \<and> ledger_of a s' = snd (ledger_call host pol q pol' qe c (snd (gw_world s)) (ledger_of a s))
    \<and> answered c (fst (ledger_call host pol q pol' qe c (snd (gw_world s)) (ledger_of a s))) new res"
proof (cases c)
  case (HttpCall r)
  let ?w = "snd (gw_world s)"
  show ?thesis
  proof (cases "http_asks host pol q r ?w")
    case None
    have "p_Requirements q \<noteq> None"
      using assms(1) by (simp add: mem_ready_def)
    then have w: "Wrap ed (mem_host host) (mem_PEP pol q) (mem_handler nxt) r fresh_Response s
        = (Return (http_Error ''missing or malformed X-SPT-Txn authorization'' 401 fresh_Response), s)"
      by (rule Wrap_ledger_unasked [OF None])
    have "rs_Status fresh_Response = None"
      by (simp add: fresh_Response_def)
    then show ?thesis
      by (simp add: HttpCall None gateway_call_def and_then_Return [where p = "Wrap _ _ _ _ _ _", OF w] ledger_call_def)
  next
    case (Some ask)
    have "p_Log q = Some a"
      using assms(1) by (simp add: mem_ready_def)
    from Wrap_ledger [OF Some assms(2) this assms(3), of nxt] obtain rs' s' new c' where
      w: "Wrap ed (mem_host host) (mem_PEP pol q) (mem_handler nxt) r fresh_Response s = (Return rs', s')"
      and "gw_trace s' = gw_trace s @ new" "http_answer r c' new rs'"
      and "(c', ledger_of a s') = ledger_decide (p_Allowlist q) ask (ledger_of a s)"
      by blast
    then show ?thesis
      by (simp add: HttpCall gateway_call_def and_then_Return [where p = "Wrap _ _ _ _ _ _", OF w] ledger_call_def Some
          flip: \<open>(c', ledger_of a s') = _\<close>)
  qed
next
  case (McpCall tc)
  have "en_Log qe = Some a"
    using assms(1) by (simp add: mem_ready_def)
  from Authorize_ledger [OF this assms(4), of host pol' tc] obtain res s' where
    w: "Authorize ed (mem_host host) (mem_Enforcer pol' qe) tc s = (Return res, s')"
    and L: "(res_Class res, ledger_of a s')
      = ledger_decide (en_Allowlist qe) (tool_asks host pol' qe tc (snd (gw_world s))) (ledger_of a s)"
    by blast
  moreover have "\<exists>new. gw_trace s' = gw_trace s @ new \<and> only_evidence new"
    using w by (rule Authorize_Return) simp
  ultimately show ?thesis
    by (auto simp: McpCall gateway_call_def and_then_Return [where p = "Authorize _ _ _ _", OF w] ledger_call_def simp flip: L)
qed

theorem gateway_implements_ledger_witness:
  "\<exists>res s' new. gateway_call digest_scheme (mem_host sample_host) (mem_PEP (exact_policy sample_cap) sample_parts)
        (mem_handler sample_handler) (mem_Enforcer (exact_policy sample_cap) sample_tool_parts) (McpCall sample_call)
        sample_state = (Return res, s')
    \<and> ledger_of 0 s' = snd (ledger_call sample_host (exact_policy sample_cap) sample_parts (exact_policy sample_cap)
        sample_tool_parts (McpCall sample_call) () (ledger_of 0 sample_state))
    \<and> answered (McpCall sample_call) (fst (ledger_call sample_host (exact_policy sample_cap) sample_parts
        (exact_policy sample_cap) sample_tool_parts (McpCall sample_call) () (ledger_of 0 sample_state))) new res"
proof -
  have "mem_ready 0 sample_parts sample_tool_parts" "recording sample_parts"
    by (simp_all add: mem_ready_def recording_def sample_parts_def sample_tool_parts_def sample_emitter_def)
  moreover have "ed25519_contract digest_scheme (replicate 64 7) (replicate 32 7)"
    using digest_scheme_contract [of "replicate 64 7"] by simp
  then have "ed25519_contract digest_scheme (p_RKey sample_parts) (l_pub (gw_logs sample_state 0))"
    "ed25519_contract digest_scheme (en_RKey sample_tool_parts) (l_pub (gw_logs sample_state 0))"
    by (simp_all add: sample_parts_def sample_tool_parts_def)
  ultimately show ?thesis
    using gateway_implements_ledger [of 0 sample_parts sample_tool_parts digest_scheme sample_state sample_host
        "exact_policy sample_cap" sample_handler "exact_policy sample_cap" "McpCall sample_call"]
    by auto
qed

end
