(* ===== verification/Progress.thy ===== *)
theory Progress
  imports Interleaving
begin

text \<open>
  Executions of the step relation of \<open>Interleaving\<close>, infinite and with stuttering. Its steps are
  whole calls of \<open>Spend\<close> and \<open>Append\<close>; that these return, whatever the schedule, is shown in
  \<open>Mutexes\<close>. Granted that, no reachable state leaves an arrived request without a step of its own,
  every own step moves the request strictly forward, and on every weakly fair execution each
  request that arrives is finished after at most five own steps.
\<close>

section \<open>Own steps\<close>

fun rank :: "request_pc \<Rightarrow> nat" where
  "rank Idle = 0"
| "rank (Deciding tr tok pr now) = 1"
| "rank (Spending tr tok b) = 2"
| "rank (Permitted tok b) = 3"
| "rank (Receipted tok b) = 4"
| "rank (Logged tok b) = 5"
| "rank (Denied c b) = 5"
| "rank (Recording tok c b) = 5"
| "rank Finished = 6"

lemma rank_decided [simp]: "Suc 0 < rank (decided tr tok c b)" "2 < rank (decided tr tok c b)"
  by (cases tr; simp)+

lemma rank_le: "rank pc \<le> 6"
  by (cases pc) simp_all

lemma rank_Finished: "rank pc = 6 \<longleftrightarrow> pc = Finished"
  by (cases pc) simp_all

lemma rank_less: "pc \<noteq> Finished \<Longrightarrow> rank pc < 6"
  by (cases pc) simp_all

lemma rank_Idle: "rank pc = 0 \<longleftrightarrow> pc = Idle"
  by (cases pc) simp_all

definition takes ::
  "ed25519 \<Rightarrow> (transport \<Rightarrow> bytes) \<Rightarrow> (transport \<Rightarrow> Allowlist) \<Rightarrow> nat \<Rightarrow> shared \<Rightarrow> shared \<Rightarrow> bool" where
  "takes ed key al i s s' \<longleftrightarrow> moves ed key al s s' \<and> y_pc s' i \<noteq> y_pc s i"

definition enabled :: "ed25519 \<Rightarrow> (transport \<Rightarrow> bytes) \<Rightarrow> (transport \<Rightarrow> Allowlist) \<Rightarrow> nat \<Rightarrow> shared \<Rightarrow> bool" where
  "enabled ed key al i s \<longleftrightarrow> (\<exists>s'. step ed key al s s' \<and> y_pc s' i \<noteq> y_pc s i)"

text \<open>A step moves one request, and moves it forward; so does a panic.\<close>

lemma moves_forward:
  assumes "moves ed key al s s'"
  obtains i where "y_pc s' = (y_pc s)(i := y_pc s' i)" "rank (y_pc s i) < rank (y_pc s' i)"
  using assms unfolding moves_def
proof
  assume "step ed key al s s'"
  then show thesis
    using that by (induction rule: step.induct) fastforce+
next
  assume "panics s s'"
  then show thesis
    using that rank_less unfolding panics_def by fastforce
qed

lemma moves_rank: "moves ed key al s s' \<Longrightarrow> rank (y_pc s i) \<le> rank (y_pc s' i)"
  by (erule moves_forward) (metis fun_upd_apply less_imp_le order_refl)

lemma takes_rank: "takes ed key al i s s' \<Longrightarrow> rank (y_pc s i) < rank (y_pc s' i)"
  unfolding takes_def by (erule conjE, erule moves_forward) (metis fun_upd_apply)

text \<open>Progress: an unfinished request always has a step. Both outcomes of \<open>Spend\<close> and every
  outcome of \<open>Append\<close>, a panic included, lead on; a denied class is one \<open>mapDecision\<close>
  knows.\<close>

text \<open>Whatever an append returns, the request that waits for it has a step.\<close>

lemma append_ahead:
  assumes "inv_class s" and "y_pc s i = Receipted tok b \<or> y_pc s i = Denied c b \<or> y_pc s i = Recording tok c b"
  shows "\<exists>s'. step ed key al s s' \<and> rank (y_pc s i) < rank (y_pc s' i)"
  using assms(2)
proof (elim disjE)
  assume pc: "y_pc s i = Receipted tok b"
  obtain res l where app: "Append ed (key Http) tl_Allow b 0 (y_log s) = (res, l)"
    by fastforce
  show ?thesis
    using step.append [OF pc, of ed key] step.append_fails [OF pc, of ed key] app pc
    by (cases "\<exists>e. res = Return (Inr e)") fastforce+
next
  assume pc: "y_pc s i = Denied c b"
  then have "c = DenyViolation \<or> c = DenyUnavailable"
    using assms(1) unfolding inv_class_def by (metis class_ok.simps(1))
  then obtain dec where dec: "mapDecision c = Return dec"
    by auto
  obtain res l where "Append ed (key Http) dec b 0 (y_log s) = (res, l)"
    by fastforce
  with step.deny [OF pc dec, of ed key] pc show ?thesis
    by fastforce
next
  assume pc: "y_pc s i = Recording tok c b"
  obtain res l where "Append ed (key Mcp) (class_byte c) b 0 (y_log s) = (res, l)"
    by fastforce
  then show ?thesis
    using step.tool_records [OF pc, of ed key] step.tool_panics [OF pc, of ed key] pc
    by (cases res) fastforce+
qed

lemma progress:
  assumes "inv_class s" and "y_pc s i \<noteq> Finished"
  shows "enabled ed key al i s"
proof -
  have "\<exists>s'. step ed key al s s' \<and> rank (y_pc s i) < rank (y_pc s' i)"
  proof (cases "y_pc s i")
    case Idle
    with step.arrive [OF this, of ed key al] show ?thesis
      by fastforce
  next
    case (Deciding tr tok pr now)
    show ?thesis
      using step.refuse [OF Deciding, of al] step.policy_denies [OF Deciding, of al DenyViolation] Deciding
      by (cases "\<not> bindable (al tr) pr \<or> expired tok now") fastforce+
  next
    case (Spending tr tok b)
    obtain serr m where "MemSpendLog_Spend (tok_Nonce tok) (y_spent s) = (serr, m)"
      by fastforce
    then show ?thesis
      using step.spend [OF Spending, of m] step.replay [OF Spending, of _ m] Spending
      by (cases serr) fastforce+
  next
    case (Permitted tok b)
    with step.emit [OF this, of ed key al] show ?thesis
      by fastforce
  next
    case (Logged tok b)
    with step.serve [OF this, of ed key al] show ?thesis
      by fastforce
  qed (use assms append_ahead [OF assms(1)] in blast)+
  then show ?thesis
    unfolding enabled_def by (metis less_irrefl)
qed

section \<open>Executions\<close>

text \<open>An infinite execution from the initial state, with stuttering; and weak fairness: a
  request that has arrived and from some point on always has a step takes one.\<close>

definition execution ::
  "ed25519 \<Rightarrow> (transport \<Rightarrow> bytes) \<Rightarrow> (transport \<Rightarrow> Allowlist) \<Rightarrow> MemSpendLog \<Rightarrow> bytes \<Rightarrow> (nat \<Rightarrow> shared) \<Rightarrow> bool" where
  "execution ed key al m pub \<sigma> \<longleftrightarrow> \<sigma> 0 = start m pub
     \<and> (\<forall>n. moves ed key al (\<sigma> n) (\<sigma> (Suc n)) \<or> \<sigma> (Suc n) = \<sigma> n)"

definition fair :: "ed25519 \<Rightarrow> (transport \<Rightarrow> bytes) \<Rightarrow> (transport \<Rightarrow> Allowlist) \<Rightarrow> (nat \<Rightarrow> shared) \<Rightarrow> bool" where
  "fair ed key al \<sigma> \<longleftrightarrow> (\<forall>i n. (\<forall>k\<ge>n. y_pc (\<sigma> k) i \<noteq> Idle \<and> enabled ed key al i (\<sigma> k))
     \<longrightarrow> (\<exists>k\<ge>n. takes ed key al i (\<sigma> k) (\<sigma> (Suc k))))"

definition own_steps ::
  "ed25519 \<Rightarrow> (transport \<Rightarrow> bytes) \<Rightarrow> (transport \<Rightarrow> Allowlist) \<Rightarrow> (nat \<Rightarrow> shared) \<Rightarrow> nat \<Rightarrow> nat \<Rightarrow> nat set" where
  "own_steps ed key al \<sigma> i n = {k. n \<le> k \<and> takes ed key al i (\<sigma> k) (\<sigma> (Suc k))}"

lemma execution_run: "execution ed key al m pub \<sigma> \<Longrightarrow> run_moves ed key al (start m pub) (\<sigma> n)"
  by (induction n) (auto simp: execution_def run_moves_def intro: rtranclp.rtrancl_into_rtrancl dest: spec)

lemma execution_class: "execution ed key al m pub \<sigma> \<Longrightarrow> inv_class (\<sigma> n)"
  using execution_run run_invariant by blast

lemma execution_rank:
  assumes "execution ed key al m pub \<sigma>" and "n \<le> k"
  shows "rank (y_pc (\<sigma> n) i) \<le> rank (y_pc (\<sigma> k) i)"
  using assms(2)
proof (induction rule: dec_induct)
  case (step k)
  have "moves ed key al (\<sigma> k) (\<sigma> (Suc k)) \<or> \<sigma> (Suc k) = \<sigma> k"
    using assms(1) by (simp add: execution_def)
  with step.IH moves_rank [of ed key al "\<sigma> k" "\<sigma> (Suc k)" i] show ?case
    by auto
qed simp

text \<open>Every own step costs at least one unit of the distance to \<open>Finished\<close>.\<close>

lemma own_steps_rank:
  assumes "execution ed key al m pub \<sigma>"
  shows "card (own_steps ed key al \<sigma> i n \<inter> {..<n + d}) + rank (y_pc (\<sigma> n) i) \<le> rank (y_pc (\<sigma> (n + d)) i)"
proof (induction d)
  case 0
  have "own_steps ed key al \<sigma> i n \<inter> {..<n} = {}"
    by (auto simp: own_steps_def)
  then show ?case
    by simp
next
  case (Suc d)
  let ?S = "\<lambda>k. own_steps ed key al \<sigma> i n \<inter> {..<k}"
  show ?case
  proof (cases "takes ed key al i (\<sigma> (n + d)) (\<sigma> (Suc (n + d)))")
    case True
    then have "?S (n + Suc d) = insert (n + d) (?S (n + d))"
      by (auto simp: own_steps_def less_Suc_eq)
    then have "card (?S (n + Suc d)) = Suc (card (?S (n + d)))"
      by simp
    with Suc.IH takes_rank [OF True] show ?thesis
      by simp
  next
    case False
    then have "?S (n + Suc d) = ?S (n + d)"
      by (auto simp: own_steps_def less_Suc_eq)
    with Suc.IH execution_rank [OF assms, of "n + d" "n + Suc d" i] show ?thesis
      by simp
  qed
qed

lemma own_steps_bounded:
  assumes "execution ed key al m pub \<sigma>"
  shows "finite (own_steps ed key al \<sigma> i n) \<and> card (own_steps ed key al \<sigma> i n) \<le> 6 - rank (y_pc (\<sigma> n) i)"
proof (rule finite_if_finite_subsets_card_bdd)
  fix G
  assume G: "G \<subseteq> own_steps ed key al \<sigma> i n" "finite G"
  obtain b where "G \<subseteq> {..<b}"
    using G(2) unfolding finite_nat_set_iff_bounded by blast
  then have "G \<subseteq> own_steps ed key al \<sigma> i n \<inter> {..<n + b}"
    using G(1) by auto
  then have "card G \<le> card (own_steps ed key al \<sigma> i n \<inter> {..<n + b})"
    by (intro card_mono) auto
  with own_steps_rank [OF assms, of i n b] rank_le [of "y_pc (\<sigma> (n + b)) i"]
  show "card G \<le> 6 - rank (y_pc (\<sigma> n) i)"
    by linarith
qed

lemma eventually_Finished:
  assumes exec: "execution ed key al m pub \<sigma>" and "fair ed key al \<sigma>" and "y_pc (\<sigma> n) i \<noteq> Idle"
  shows "\<exists>k\<ge>n. y_pc (\<sigma> k) i = Finished"
  using assms(3)
proof (induction "6 - rank (y_pc (\<sigma> n) i)" arbitrary: n rule: less_induct)
  case less
  show ?case
  proof (rule ccontr)
    assume none: "\<not> (\<exists>k\<ge>n. y_pc (\<sigma> k) i = Finished)"
    have "y_pc (\<sigma> k) i \<noteq> Idle" if "n \<le> k" for k
      using execution_rank [OF exec that, of i] less.prems rank_Idle by (metis le_zero_eq)
    with none have "\<forall>k\<ge>n. y_pc (\<sigma> k) i \<noteq> Idle \<and> enabled ed key al i (\<sigma> k)"
      using progress [OF execution_class [OF exec]] by blast
    then obtain k where k: "n \<le> k" "takes ed key al i (\<sigma> k) (\<sigma> (Suc k))"
      using assms(2) unfolding fair_def by blast
    then have more: "rank (y_pc (\<sigma> n) i) < rank (y_pc (\<sigma> (Suc k)) i)"
      using execution_rank [OF exec k(1), of i] takes_rank [OF k(2)] by simp
    then have "6 - rank (y_pc (\<sigma> (Suc k)) i) < 6 - rank (y_pc (\<sigma> n) i)" and "y_pc (\<sigma> (Suc k)) i \<noteq> Idle"
      using rank_le [of "y_pc (\<sigma> (Suc k)) i"] rank_Idle by (linarith, metis not_less_zero)
    from less.hyps [OF this] none k(1) show False
      by (meson le_SucI le_trans)
  qed
qed

text \<open>On every weakly fair execution, from any shared state of spend log and
  transparency log, each HTTP request or tool call that arrives is finished some time
  later, stays finished, and takes at most five steps of its own to get there, however the
  others interleave with it and whatever the policy, the emitter and the signature scheme
  answer or panic with.\<close>

lemma requests_finish:
  assumes "execution ed key al m pub \<sigma>" and "fair ed key al \<sigma>" and "y_pc (\<sigma> n) i \<noteq> Idle"
  shows "(\<exists>k\<ge>n. \<forall>j\<ge>k. y_pc (\<sigma> j) i = Finished)
    \<and> finite (own_steps ed key al \<sigma> i n) \<and> card (own_steps ed key al \<sigma> i n) \<le> 5"
proof -
  obtain k where k: "n \<le> k" "y_pc (\<sigma> k) i = Finished"
    using eventually_Finished [OF assms] by blast
  have "y_pc (\<sigma> j) i = Finished" if "k \<le> j" for j
    using execution_rank [OF assms(1) that, of i] k(2) rank_le [of "y_pc (\<sigma> j) i"] rank_Finished
    by (metis antisym_conv rank.simps(9))
  moreover have "6 - rank (y_pc (\<sigma> n) i) \<le> 5"
    using assms(3) rank_Idle [of "y_pc (\<sigma> n) i"] by simp
  ultimately show ?thesis
    using k(1) own_steps_bounded [OF assms(1), of i n] le_trans by blast
qed

text \<open>The race of an HTTP request and a tool call, which then stutters forever, is an
  execution.\<close>

definition race_execution :: "Log \<Rightarrow> Log \<Rightarrow> nat \<Rightarrow> shared" where
  "race_execution l' l'' n = race_states l' l'' ! min n 10"

lemma length_race_states: "length (race_states l' l'') = 11"
  by (simp add: race_states_def Let_def)

lemma race_execution_end: "10 \<le> n \<Longrightarrow> race_execution l' l'' n = race_state Finished Finished race_spent l'' [replicate 32 9]"
  by (simp add: race_execution_def race_states_def Let_def)

lemma race_is_execution:
  "\<exists>l' l''. execution digest_scheme race_key (\<lambda>_. sample_allowlist) NewMemSpendLog (replicate 32 7) (race_execution l' l'')"
proof -
  obtain l' l'' where steps: "successively race_step (race_states l' l'')"
    using race_steps by blast
  have "race_step (race_execution l' l'' n) (race_execution l' l'' (Suc n))
      \<or> race_execution l' l'' (Suc n) = race_execution l' l'' n" for n
    using successively_nth [OF steps, of n] race_execution_end [of n l' l''] race_execution_end [of "Suc n" l' l'']
    by (cases "n < 10") (auto simp: race_execution_def length_race_states min_def)
  moreover have "race_execution l' l'' 0 = start NewMemSpendLog (replicate 32 7)"
    by (simp add: start_race race_execution_def race_states_def Let_def)
  ultimately have "execution digest_scheme race_key (\<lambda>_. sample_allowlist) NewMemSpendLog (replicate 32 7) (race_execution l' l'')"
    unfolding execution_def moves_def by blast
  then show ?thesis
    by blast
qed

end
