(* ===== verification/TransparencyService.thy ===== *)
theory TransparencyService
  imports TransLog Http JsonStruct
begin

text \<open>
  \<open>gateway/transparency.go\<close>: the read-only endpoints over the transparency log. A
  handler takes the log's mutex once per \<open>Log\<close> method it calls, so other requests may
  append between two of its reads. The model numbers the critical sections of one
  request: \<open>reads k a\<close> is the log at address \<open>a\<close> as the \<open>k\<close>-th of them sees it. A
  request that runs alone sees the same log throughout; in a concurrent run later
  reads see extensions of earlier ones (\<open>growing\<close>).
\<close>

record Transparency =
  t_Log :: "nat option"

record rootResp =
  rr_Size :: int
  rr_Root :: string

record proofResp =
  prf_Seq :: int
  prf_Size :: int
  prf_Root :: string
  prf_Leaf :: string
  prf_Proof :: "string list"
  prf_Verified :: bool

definition rootResp_json :: "rootResp \<Rightarrow> json" where
  "rootResp_json v =
     JObj [(''size'', JNum (show_int (rr_Size v))), (''merkle_root'', JStr (rr_Root v))]"

definition proofResp_json :: "proofResp \<Rightarrow> json" where
  "proofResp_json v =
     JObj [(''seq'', JNum (show_int (prf_Seq v))), (''size'', JNum (show_int (prf_Size v))),
           (''merkle_root'', JStr (prf_Root v)), (''leaf_hex'', JStr (prf_Leaf v)),
           (''proof'', JArr (map JStr (prf_Proof v))), (''verified'', JBool (prf_Verified v))]"

definition writeJSON :: "json \<Rightarrow> Response \<Rightarrow> Response" where
  "writeJSON v rs = Write (json_Encode v) (Header_Set ''Content-Type'' ''application/json'' rs)"

definition entry_prefix :: string where
  "entry_prefix = ''/transparency/entry/''"

definition strings_TrimPrefix :: "string \<Rightarrow> string \<Rightarrow> string" where
  "strings_TrimPrefix s p = (case strip_prefix p s of Some r \<Rightarrow> r | None \<Rightarrow> s)"

definition root_handler :: "Transparency \<Rightarrow> (nat \<Rightarrow> nat \<Rightarrow> Log) \<Rightarrow> Request \<Rightarrow> Response \<Rightarrow> Response outcome" where
  "root_handler t reads r rs =
     (case t_Log t of
        None \<Rightarrow> Panic nil_dereference
      | Some a \<Rightarrow>
          let root = Log_Root (reads 0 a)
          in Return (writeJSON (rootResp_json
               \<lparr>rr_Size = int (Log_Len (reads 1 a)), rr_Root = hex_EncodeToString root\<rparr>) rs))"

text \<open>\<open>None\<close> is a handler that does not return: \<open>VerifyInclusion\<close> may not.\<close>

definition entry_handler ::
  "Transparency \<Rightarrow> (nat \<Rightarrow> nat \<Rightarrow> Log) \<Rightarrow> Request \<Rightarrow> Response \<Rightarrow> Response outcome option" where
  "entry_handler t reads r rs =
     (case strconv_Atoi (strings_TrimPrefix (rq_Path r) entry_prefix) of
        None \<Rightarrow> Some (Return (http_Error ''bad sequence number'' 400 rs))
      | Some seq \<Rightarrow>
     (case t_Log t of
        None \<Rightarrow> Some (Panic nil_dereference)
      | Some a \<Rightarrow>
     (case Log_At (reads 0 a) seq of (rec, ok) \<Rightarrow>
      if \<not> ok then Some (Return (http_Error ''no such log entry'' 404 rs))
      else
     (case Log_Proof (reads 1 a) seq of
        Inl err \<Rightarrow> Some (Return (http_Error (Error err) 500 rs))
      | Inr proof \<Rightarrow>
          let root = Log_Root (reads 2 a);
              leaf = CanonicalBytes rec;
              ph = map hex_EncodeToString proof;
              size = int (Log_Len (reads 3 a))
          in map_option (\<lambda>verified.
               Return (writeJSON (proofResp_json
                 \<lparr>prf_Seq = seq, prf_Size = size, prf_Root = hex_EncodeToString root,
                  prf_Leaf = hex_EncodeToString leaf, prf_Proof = ph, prf_Verified = verified\<rparr>) rs))
             (VerifyInclusion root leaf seq (int (Log_Len (reads 4 a))) proof)))))"

text \<open>The registered patterns: one exact path and one subtree. What the mux answers by
  itself (redirects to a clean path, 404 for other paths) is \<open>MuxAnswers\<close>.\<close>

datatype 'a routed = Handled 'a | MuxAnswers

definition Transparency_Handler ::
  "Transparency \<Rightarrow> (nat \<Rightarrow> nat \<Rightarrow> Log) \<Rightarrow> Request \<Rightarrow> Response \<Rightarrow> Response outcome option routed" where
  "Transparency_Handler t reads r rs =
     (if rq_Path r = ''/transparency/root'' then Handled (Some (root_handler t reads r rs))
      else if strip_prefix entry_prefix (rq_Path r) \<noteq> None then Handled (entry_handler t reads r rs)
      else MuxAnswers)"

section \<open>A request that runs alone\<close>

lemma strip_prefix_append [simp]: "strip_prefix p (p @ s) = Some s"
  by (induction p) simp_all

lemma TrimPrefix_append [simp]: "strings_TrimPrefix (p @ s) p = s"
  by (simp add: strings_TrimPrefix_def)

lemma Atoi_show_int: "in_int64 i \<Longrightarrow> strconv_Atoi (show_int i) = Some i"
  by (simp add: strconv_Atoi_def signed_digits_show_int)

lemma length_canonicalLeaves [simp]: "length (canonicalLeaves l) = Log_Len l"
  by (simp add: canonicalLeaves_def Log_Len_def)

lemma Log_At_Some: "m < Log_Len l \<Longrightarrow> Log_At l (int m) = (e_Record (l_entries l ! m), True)"
  by (simp add: Log_At_def Log_Len_def)

lemma Log_Proof_Some: "m < Log_Len l \<Longrightarrow> Log_Proof l (int m) = Inr (auditPath m (canonicalLeaves l))"
  by (simp add: Log_Proof_def InclusionProof_def)

lemma canonicalLeaves_nth: "m < Log_Len l \<Longrightarrow> canonicalLeaves l ! m = CanonicalBytes (e_Record (l_entries l ! m))"
  by (simp add: canonicalLeaves_def Log_Len_def)

lemma Log_proof_verifies:
  assumes "m < Log_Len l" and "Log_Len l \<le> 2 ^ 62"
  shows "VerifyInclusion (Log_Root l) (CanonicalBytes (e_Record (l_entries l ! m))) (int m) (int (Log_Len l))
    (auditPath m (canonicalLeaves l)) = Some True"
  using assms VerifyInclusion_eq [of m "Log_Len l"] root_of_auditPath [of m "canonicalLeaves l"]
  by (simp add: Log_Root_def canonicalLeaves_nth)

lemma entry_handler_ok:
  assumes "t_Log t = Some a" and "rq_Path r = entry_prefix @ show_int (int m)" and "m < 2 ^ 63"
    and "m < Log_Len (reads 0 a)" and "m < Log_Len (reads 1 a)"
  shows "entry_handler t reads r rs =
     map_option (\<lambda>verified. Return (writeJSON (proofResp_json
         \<lparr>prf_Seq = int m, prf_Size = int (Log_Len (reads 3 a)), prf_Root = hex_EncodeToString (Log_Root (reads 2 a)),
          prf_Leaf = hex_EncodeToString (CanonicalBytes (e_Record (l_entries (reads 0 a) ! m))),
          prf_Proof = map hex_EncodeToString (auditPath m (canonicalLeaves (reads 1 a))), prf_Verified = verified\<rparr>) rs))
       (VerifyInclusion (Log_Root (reads 2 a)) (CanonicalBytes (e_Record (l_entries (reads 0 a) ! m))) (int m)
          (int (Log_Len (reads 4 a))) (auditPath m (canonicalLeaves (reads 1 a))))"
  using assms by (simp add: entry_handler_def Atoi_show_int in_int64_def Log_At_Some Log_Proof_Some Let_def)

section \<open>Appends between the reads\<close>

definition growing :: "(nat \<Rightarrow> nat \<Rightarrow> Log) \<Rightarrow> nat \<Rightarrow> bool" where
  "growing reads a \<longleftrightarrow> (\<forall>k. \<exists>new. l_entries (reads (Suc k) a) = l_entries (reads k a) @ new)"

lemma growing_le:
  assumes "growing reads a" and "k \<le> k'"
  shows "\<exists>new. l_entries (reads k' a) = l_entries (reads k a) @ new"
  using assms(2)
proof (induction k' rule: dec_induct)
  case (step n)
  then obtain new where "l_entries (reads n a) = l_entries (reads k a) @ new"
    by blast
  moreover obtain new' where "l_entries (reads (Suc n) a) = l_entries (reads n a) @ new'"
    using assms(1) unfolding growing_def by blast
  ultimately show ?case
    by simp
qed simp

lemma growing_Len: "growing reads a \<Longrightarrow> k \<le> k' \<Longrightarrow> Log_Len (reads k a) \<le> Log_Len (reads k' a)"
  using growing_le [of reads a k k'] by (auto simp: Log_Len_def)

text \<open>Reads that see the same length see the same log.\<close>

lemma growing_same:
  assumes "growing reads a" and "k \<le> k'" and "Log_Len (reads k a) = Log_Len (reads k' a)"
  shows "Log_Root (reads k a) = Log_Root (reads k' a)" "canonicalLeaves (reads k a) = canonicalLeaves (reads k' a)"
  using growing_le [OF assms(1,2)] assms(3) by (auto simp: Log_Len_def Log_Root_def canonicalLeaves_def)

text \<open>C29. The transparency service proves what it serves: a request for an existing entry
  during which the log only grows, and does not grow between computing the proof and the last
  read of the size, is answered with the entry's canonical bytes, the log's size and root, the
  audit path of the entry, and \<open>verified: true\<close>, where the path really verifies against the
  root.\<close>

theorem entry_handler_verified:
  assumes "t_Log t = Some a" and "rq_Path r = entry_prefix @ show_int (int m)" and "growing reads a" and "l = reads 4 a"
    and "m < Log_Len (reads 0 a)" and "Log_Len (reads 1 a) = Log_Len l" and "Log_Len l \<le> 2 ^ 62"
  shows "entry_handler t reads r rs = Some (Return (writeJSON (proofResp_json
      \<lparr>prf_Seq = int m, prf_Size = int (Log_Len l), prf_Root = hex_EncodeToString (Log_Root l),
       prf_Leaf = hex_EncodeToString (CanonicalBytes (e_Record (l_entries l ! m))),
       prf_Proof = map hex_EncodeToString (auditPath m (canonicalLeaves l)), prf_Verified = True\<rparr>) rs))
    \<and> VerifyInclusion (Log_Root l) (CanonicalBytes (e_Record (l_entries l ! m))) (int m) (int (Log_Len l))
        (auditPath m (canonicalLeaves l)) = Some True"
proof -
  have len: "Log_Len (reads k a) = Log_Len l" if "1 \<le> k" "k \<le> 4" for k
    using growing_Len [OF assms(3) that(1)] growing_Len [OF assms(3) that(2)] assms(4,6) by simp
  have same: "Log_Root (reads 2 a) = Log_Root l" "canonicalLeaves (reads 1 a) = canonicalLeaves l"
    using growing_same [OF assms(3), of 2 4] growing_same [OF assms(3), of 1 4] len [of 1] len [of 2] assms(4) by simp_all
  obtain new where new: "l_entries l = l_entries (reads 0 a) @ new"
    using growing_le [OF assms(3), of 0 4] assms(4) by auto
  have m: "m < Log_Len l" "l_entries (reads 0 a) ! m = l_entries l ! m"
    using assms(5) by (simp_all add: new Log_Len_def nth_append)
  moreover have "m < 2 ^ 63"
    using m(1) assms(7) by simp
  ultimately show ?thesis
    using assms(1,2,4,5) Log_proof_verifies [OF m(1) assms(7)] len [of 1] len [of 3]
    by (simp add: entry_handler_ok [of t a r m reads] same del: One_nat_def)
qed

theorem entry_handler_verified_witness:
  "entry_handler \<lparr>t_Log = Some 0\<rparr> (\<lambda>_ _. sample_log) \<lparr>rq_Header = (\<lambda>_. []), rq_Path = ''/transparency/entry/0''\<rparr> fresh_Response
    = Some (Return (writeJSON (proofResp_json
      \<lparr>prf_Seq = 0, prf_Size = 1, prf_Root = hex_EncodeToString (Log_Root sample_log),
       prf_Leaf = hex_EncodeToString (CanonicalBytes (next_record 0 (replicate 32 0x11) 1700000000 [])),
       prf_Proof = [], prf_Verified = True\<rparr>) fresh_Response))"
  using entry_handler_verified [of "\<lparr>t_Log = Some 0\<rparr>" 0 "\<lparr>rq_Header = (\<lambda>_. []), rq_Path = ''/transparency/entry/0''\<rparr>"
      0 "\<lambda>_ _. sample_log" sample_log fresh_Response]
  by (simp add: Log_Len_def sample_log_entries entry_prefix_def show_int_def show_nat_def canonicalLeaves_def growing_def)

text \<open>The service never answers 500: since the log only grows, an entry that \<open>At\<close>
  found is still there when \<open>Proof\<close> is called, so an entry request is answered 400
  for a path that is no integer, 404 for an entry that does not exist, and 200
  otherwise, under every interleaving with appends.\<close>

lemma entry_handler_status:
  assumes "t_Log t = Some a" and "growing reads a" and "Log_Len (reads 4 a) \<le> 2 ^ 62" and "rs_Status rs = None"
  shows "\<exists>rs'. entry_handler t reads r rs = Some (Return rs')
    \<and> rs_Status rs' = Some (case strconv_Atoi (strings_TrimPrefix (rq_Path r) entry_prefix) of
         None \<Rightarrow> 400
       | Some seq \<Rightarrow> if 0 \<le> seq \<and> seq < int (Log_Len (reads 0 a)) then 200 else 404)"
proof (cases "strconv_Atoi (strings_TrimPrefix (rq_Path r) entry_prefix)")
  case None
  then show ?thesis
    using assms(4) by (simp add: entry_handler_def)
next
  case (Some seq)
  show ?thesis
  proof (cases "0 \<le> seq \<and> seq < int (Log_Len (reads 0 a))")
    case False
    then show ?thesis
      using assms(1,4) Some by (auto simp: entry_handler_def Log_At_def Log_Len_def)
  next
    case True
    then obtain m where m: "seq = int m" "m < Log_Len (reads 0 a)"
      using nonneg_int_cases by auto
    moreover have "m < Log_Len (reads 1 a)" "m < Log_Len (reads 4 a)"
      using m(2) growing_Len [OF assms(2), of 0 1] growing_Len [OF assms(2), of 0 4] by simp_all
    ultimately show ?thesis
      using assms Some True
      by (simp add: entry_handler_def Log_At_Some Log_Proof_Some Let_def VerifyInclusion_eq writeJSON_def Write_def
          WriteHeader_def Header_Set_def)
  qed
qed

text \<open>An old proof against a new root: the empty path of a one-entry tree is refused for
  any larger tree before a single hash is compared.\<close>

lemma VerifyInclusion_short:
  assumes "1 < n"
  shows "VerifyInclusion root leaf 0 (int n) [] = Some False"
  using assms by (simp add: VerifyInclusion_def rootFromPath.simps)

text \<open>C33. A torn read: when one entry is appended to a log of one entry after the handler
  has computed the proof and before it reads the root, the answer to the request for
  entry 0 pairs the old proof with the new root and size and reports
  \<open>verified: false\<close>, although the entry is in the log before and after. Likewise the
  root endpoint can answer with the root of the old log and the size of the new one.\<close>

theorem torn_reads:
  assumes "t_Log t = Some a" and "l_entries l = [e]" and "Append ed key dec b tm l = (Return (Inr e'), l')"
    and "reads = (\<lambda>k _. if k < 2 then l else l')" and "rq_Path r = entry_prefix @ ''0''"
    and "reads' = (\<lambda>k _. if k < 1 then l else l')"
  shows "growing reads a
    \<and> entry_handler t reads r rs = Some (Return (writeJSON (proofResp_json
        \<lparr>prf_Seq = 0, prf_Size = 2, prf_Root = hex_EncodeToString (Log_Root l'),
         prf_Leaf = hex_EncodeToString (CanonicalBytes (e_Record e)), prf_Proof = [], prf_Verified = False\<rparr>) rs))
    \<and> root_handler t reads' r rs = Return (writeJSON (rootResp_json
        \<lparr>rr_Size = 2, rr_Root = hex_EncodeToString (Log_Root l)\<rparr>) rs)"
proof -
  have l': "l_entries l' = [e, e']"
    using assms(3,2) by (auto elim!: Append_cases)
  have len: "Log_Len l = 1" "Log_Len l' = 2"
    using assms(2) l' by (simp_all add: Log_Len_def)
  have zero: "show_int 0 = ''0''"
    by (simp add: show_int_def show_nat_def)
  have "entry_handler t reads r rs = Some (Return (writeJSON (proofResp_json
        \<lparr>prf_Seq = 0, prf_Size = 2, prf_Root = hex_EncodeToString (Log_Root l'),
         prf_Leaf = hex_EncodeToString (CanonicalBytes (e_Record e)), prf_Proof = [], prf_Verified = False\<rparr>) rs))"
    using entry_handler_ok [of t a r 0 reads rs] assms(1,2,5) VerifyInclusion_short [of 2]
    by (simp add: zero assms(4) len)
  moreover have "growing reads a"
    using assms(2) l' by (simp add: growing_def assms(4))
  ultimately show ?thesis
    using assms(1) by (simp add: root_handler_def assms(6) len)
qed

theorem torn_reads_witness:
  "\<exists>l' rs'. entry_handler \<lparr>t_Log = Some 0\<rparr> (\<lambda>k _. if k < 2 then sample_log else l')
      \<lparr>rq_Header = (\<lambda>_. []), rq_Path = entry_prefix @ ''0''\<rparr> rs' = Some (Return (writeJSON (proofResp_json
        \<lparr>prf_Seq = 0, prf_Size = 2, prf_Root = hex_EncodeToString (Log_Root l'),
         prf_Leaf = hex_EncodeToString (CanonicalBytes (next_record 0 (replicate 32 0x11) 1700000000 [])),
         prf_Proof = [], prf_Verified = False\<rparr>) rs'))"
proof -
  have pub: "l_pub sample_log = replicate 32 7"
    by (simp add: sample_log_def NewLog_def)
  have "ed25519_contract digest_scheme (replicate 64 7) (l_pub sample_log)"
    using digest_scheme_contract [of "replicate 64 7"] by (simp add: pub)
  then obtain e' l' where app: "Append digest_scheme (replicate 64 7) 1 (replicate 32 0x22) 1700000060 sample_log
      = (Return (Inr e'), l')"
    using Append_contract by (metis prod.collapse)
  show ?thesis
    using torn_reads [OF _ sample_log_entries app refl, of "\<lparr>t_Log = Some 0\<rparr>" 0
        "\<lparr>rq_Header = (\<lambda>_. []), rq_Path = entry_prefix @ ''0''\<rparr>" _ fresh_Response]
    by auto
qed

end
