(* ===== verification/Auditing.thy ===== *)
theory Auditing
  imports Progress TransparencyService
begin

text \<open>
  The transparency service beside the enforcement points: an audit request reads the shared log
  in five critical sections while HTTP requests and tool calls go on appending to it. The reads
  are taken at increasing moments of one execution of the step relation of \<open>Interleaving\<close>;
  that the log only grows between them is a consequence here, not an assumption.
\<close>

lemma step_grows:
  "step ed key al s s' \<Longrightarrow> l_entries (y_log s') = l_entries (y_log s) \<or> (\<exists>e. l_entries (y_log s') = l_entries (y_log s) @ [e])"
  by (induction rule: step.induct) (simp_all, (metis Append_grows snd_conv)+)

lemma execution_step:
  assumes "execution ed key al m pub \<sigma>"
  shows "l_entries (y_log (\<sigma> (Suc k))) = l_entries (y_log (\<sigma> k)) \<or> (\<exists>e. l_entries (y_log (\<sigma> (Suc k))) = l_entries (y_log (\<sigma> k)) @ [e])"
proof -
  have "moves ed key al (\<sigma> k) (\<sigma> (Suc k)) \<or> \<sigma> (Suc k) = \<sigma> k"
    using assms by (simp add: execution_def)
  then show ?thesis
    using step_grows [of ed key al "\<sigma> k" "\<sigma> (Suc k)"] by (auto simp: moves_def panics_def)
qed

lemma execution_Len: "execution ed key al m pub \<sigma> \<Longrightarrow> Log_Len (y_log (\<sigma> n)) \<le> n"
proof (induction n)
  case 0
  then show ?case
    by (simp add: execution_def start_def NewLog_def Log_Len_def)
next
  case (Suc n)
  then show ?case
    using execution_step [OF Suc.prems, of n] by (auto simp: Log_Len_def)
qed

lemma execution_grows:
  assumes "execution ed key al m pub \<sigma>" and "n \<le> k"
  shows "\<exists>new. l_entries (y_log (\<sigma> k)) = l_entries (y_log (\<sigma> n)) @ new"
  using assms(2)
proof (induction rule: dec_induct)
  case (step k)
  with execution_step [OF assms(1), of k] show ?case
    by auto
qed simp

text \<open>What the \<open>k\<close>-th critical section of a request sees when it falls on moment \<open>\<tau> k\<close>.\<close>

definition audit_reads :: "(nat \<Rightarrow> shared) \<Rightarrow> (nat \<Rightarrow> nat) \<Rightarrow> nat \<Rightarrow> nat \<Rightarrow> Log" where
  "audit_reads \<sigma> \<tau> k a = y_log (\<sigma> (\<tau> k))"

lemma audit_reads_growing:
  assumes "execution ed key al m pub \<sigma>" and "mono \<tau>"
  shows "growing (audit_reads \<sigma> \<tau>) a"
  using execution_grows [OF assms(1)] monoD [OF assms(2)] by (simp add: growing_def audit_reads_def)

lemma execution_keeps:
  assumes "execution ed key al m pub \<sigma>" and "n \<le> k" and "i < Log_Len (y_log (\<sigma> n))"
  shows "l_entries (y_log (\<sigma> k)) ! i = l_entries (y_log (\<sigma> n)) ! i"
  using execution_grows [OF assms(1,2)] assms(3) by (auto simp: Log_Len_def nth_append)

text \<open>C20. Auditing under load: while requests and tool calls run concurrently, a request for
  entry \<open>n\<close> is answered 404 when the log did not have it at the first read; otherwise 200 with the
  record that the log holds at \<open>n\<close> at every later moment, with a root and a size the log had
  during the request, and with an audit path that verifies for the log of the moment at which
  it was computed. It is never answered 500 and always returns.\<close>

theorem audited_under_load:
  assumes "execution ed key al m pub \<sigma>" and "mono \<tau>" and "t_Log t = Some a" and "rs_Status rs = None"
    and "rq_Path r = entry_prefix @ show_int (int n)" and "n < 2 ^ 63" and "Log_Len (y_log (\<sigma> (\<tau> 4))) \<le> 2 ^ 62"
    and "L = (\<lambda>k. y_log (\<sigma> (\<tau> k)))" and "rec = e_Record (l_entries (L 0) ! n)" and "path = auditPath n (canonicalLeaves (L 1))"
  shows "if n < Log_Len (L 0)
    then (\<exists>v. entry_handler t (audit_reads \<sigma> \<tau>) r rs = Some (Return (writeJSON (proofResp_json
             \<lparr>prf_Seq = int n, prf_Size = int (Log_Len (L 3)), prf_Root = hex_EncodeToString (Log_Root (L 2)),
              prf_Leaf = hex_EncodeToString (CanonicalBytes rec), prf_Proof = map hex_EncodeToString path,
              prf_Verified = v\<rparr>) rs)))
      \<and> (\<forall>k \<ge> \<tau> 0. e_Record (l_entries (y_log (\<sigma> k)) ! n) = rec)
      \<and> VerifyInclusion (Log_Root (L 1)) (CanonicalBytes rec) (int n) (int (Log_Len (L 1))) path = Some True
    else \<exists>rs'. entry_handler t (audit_reads \<sigma> \<tau>) r rs = Some (Return rs') \<and> rs_Status rs' = Some 404"
proof (cases "n < Log_Len (L 0)")
  case True
  let ?reads = "audit_reads \<sigma> \<tau>"
  have reads: "?reads k a = L k" for k
    by (simp add: audit_reads_def assms(8))
  note grow = audit_reads_growing [OF assms(1,2), of a]
  have len: "n < Log_Len (L 1)" "n < Log_Len (L 4)" "Log_Len (L 1) \<le> 2 ^ 62"
    using growing_Len [OF grow, of 0 1] growing_Len [OF grow, of 0 4] growing_Len [OF grow, of 1 4] True assms(7)
    by (simp_all add: reads) (simp_all add: assms(8))
  have keeps: "e_Record (l_entries (y_log (\<sigma> k)) ! n) = rec" if "\<tau> 0 \<le> k" for k
    using execution_keeps [OF assms(1) that, of n] True by (simp add: assms(8,9))
  then have rec: "e_Record (l_entries (L 1) ! n) = rec"
    using monoD [OF assms(2), of 0 1] by (simp add: assms(8))
  have "Log_Len (L 4) \<le> 2 ^ 62"
    using assms(7,8) by simp
  then obtain v where "VerifyInclusion (Log_Root (L 2)) (CanonicalBytes rec) (int n) (int (Log_Len (L 4))) path = Some v"
    using VerifyInclusion_eq [of n "Log_Len (L 4)"] len(2) by blast
  then have "entry_handler t ?reads r rs = Some (Return (writeJSON (proofResp_json
             \<lparr>prf_Seq = int n, prf_Size = int (Log_Len (L 3)), prf_Root = hex_EncodeToString (Log_Root (L 2)),
              prf_Leaf = hex_EncodeToString (CanonicalBytes rec), prf_Proof = map hex_EncodeToString path,
              prf_Verified = v\<rparr>) rs))"
    using entry_handler_ok [OF assms(3,5,6), of ?reads rs] True len(1) by (simp add: reads assms(9,10) del: One_nat_def)
  moreover have "VerifyInclusion (Log_Root (L 1)) (CanonicalBytes rec) (int n) (int (Log_Len (L 1))) path = Some True"
    using Log_proof_verifies [OF len(1,3)] by (simp add: rec assms(10) del: One_nat_def)
  ultimately show ?thesis
    using True keeps by (simp only: if_True) blast
next
  case False
  have "strconv_Atoi (strings_TrimPrefix (rq_Path r) entry_prefix) = Some (int n)"
    using assms(5,6) by (simp add: Atoi_show_int in_int64_def)
  with False entry_handler_status [OF assms(3) audit_reads_growing [OF assms(1,2)] _ assms(4), of r] assms(7,8) show ?thesis
    by (simp add: audit_reads_def)
qed

text \<open>The race of \<open>Progress\<close>, audited after both calls have finished.\<close>

lemma race_logged:
  assumes "execution digest_scheme race_key (\<lambda>_. sample_allowlist) NewMemSpendLog (replicate 32 7) (race_execution l' l'')"
  shows "0 < Log_Len (y_log (race_execution l' l'' 10))"
proof -
  have "inv_log digest_scheme (race_key Mcp) (race_execution l' l'' 10)"
    using run_invariant [OF execution_run [OF assms]] by blast
  moreover have "length (y_served (race_execution l' l'' 10)) = 1"
    by (simp add: race_execution_end)
  ultimately have "0 < allow_entries (y_log (race_execution l' l'' 10))"
    unfolding inv_log_def by auto
  then show ?thesis
    by (cases "l_entries (y_log (race_execution l' l'' 10))") (simp_all add: allow_entries_def Log_Len_def)
qed

theorem audited_under_load_witness:
  "\<exists>l' l'' rec path rs'. entry_handler \<lparr>t_Log = Some 0\<rparr> (audit_reads (race_execution l' l'') (\<lambda>_. 10))
       \<lparr>rq_Header = (\<lambda>_. []), rq_Path = entry_prefix @ show_int (int 0)\<rparr> fresh_Response = Some (Return rs')
     \<and> VerifyInclusion (Log_Root l'') (CanonicalBytes rec) 0 (int (Log_Len l'')) path = Some True"
proof -
  obtain l' l'' where exec: "execution digest_scheme race_key (\<lambda>_. sample_allowlist) NewMemSpendLog (replicate 32 7)
      (race_execution l' l'')"
    using race_is_execution by blast
  have log: "y_log (race_execution l' l'' 10) = l''"
    by (simp add: race_execution_end)
  have "Log_Len l'' \<le> 2 ^ 62"
    using execution_Len [OF exec, of 10] log by simp
  with audited_under_load [OF exec, of "\<lambda>_. 10" "\<lparr>t_Log = Some 0\<rparr>" 0 fresh_Response
      "\<lparr>rq_Header = (\<lambda>_. []), rq_Path = entry_prefix @ show_int (int 0)\<rparr>" 0, OF _ _ _ _ _ _ refl refl refl] race_logged [OF exec]
  show ?thesis
    by (auto simp: log monoI fresh_Response_def)
qed

end
