(* ===== verification/SingleUse.thy ===== *)
theory SingleUse
  imports Interleaving
begin

text \<open>
  Single use as an auditor sees it. The transparency log holds bindings, not nonces; what the
  spend log guarantees of nonces is here carried over to the chain itself: in every concurrent
  run the ALLOW entries have pairwise different bindings, unless two payments that were
  presented in that very run are a SHA-256 collision. A binding that occurs twice among the ALLOW
  entries of a chain is therefore the trace of a spend log that has forgotten.
\<close>

section \<open>Bindings of a run\<close>

definition allow_bindings :: "Log \<Rightarrow> bytes list" where
  "allow_bindings l = map (\<lambda>e. r_Binding (e_Record e)) (filter (\<lambda>e. r_Decision (e_Record e) = tl_Allow) (l_entries l))"

text \<open>The hash inputs of the payments that requests have presented in a list of states.\<close>

definition presented :: "(transport \<Rightarrow> Allowlist) \<Rightarrow> shared list \<Rightarrow> bytes set" where
  "presented al ss = {p. \<exists>s \<in> set ss. \<exists>i tr tok pr now.
     y_pc s i = Deciding tr tok pr now \<and> binding_input (al tr) pr (tok_Nonce tok) = Some p}"

definition binds :: "(transport \<Rightarrow> Allowlist) \<Rightarrow> bytes set \<Rightarrow> bytes \<Rightarrow> bytes \<Rightarrow> bool" where
  "binds al P n b \<longleftrightarrow> (\<exists>p \<in> P. b = sha256 p \<and> (\<exists>tr pr. binding_input (al tr) pr n = Some p))"

text \<open>The nonce and the binding of a request that is allowed and not yet in the log.\<close>

fun carries :: "request_pc \<Rightarrow> (bytes \<times> bytes) option" where
  "carries (Permitted tok b) = Some (tok_Nonce tok, b)"
| "carries (Receipted tok b) = Some (tok_Nonce tok, b)"
| "carries (Recording tok c b) = (if c = Allow then Some (tok_Nonce tok, b) else None)"
| "carries _ = None"

fun spends :: "request_pc \<Rightarrow> (bytes \<times> bytes) option" where
  "spends (Spending tr tok b) = Some (tok_Nonce tok, b)"
| "spends _ = None"

text \<open>The hash input ends with the nonce, behind fields of fixed width.\<close>

lemma binding_input_nonce:
  assumes "binding_input al pr n = Some p" and "binding_input al' pr' n' = Some p"
  shows "n = n'"
  using assms(1)
proof (rule binding_input_SomeE)
  fix st nt asset payTo a amt
  assume 1: "length asset = 32" "length payTo = 32" "length amt = 16" "p = binding_preimage st nt asset payTo amt (pr_Resource pr) n"
  show ?thesis
    using assms(2)
  proof (rule binding_input_SomeE)
    fix st' nt' asset' payTo' a' amt'
    assume "length asset' = 32" "length payTo' = 32" "length amt' = 16"
      "p = binding_preimage st' nt' asset' payTo' amt' (pr_Resource pr') n'"
    with 1 show ?thesis
      using binding_preimage_eqD by blast
  qed
qed

section \<open>The invariant\<close>

text \<open>The ALLOW entries of the log stand for grants of pairwise different nonces.\<close>

definition inv_grants :: "(transport \<Rightarrow> Allowlist) \<Rightarrow> bytes set \<Rightarrow> shared \<Rightarrow> (bytes \<times> bytes) list \<Rightarrow> bool" where
  "inv_grants al P s G \<longleftrightarrow> map snd G = allow_bindings (y_log s) \<and> distinct (map fst G)
     \<and> (\<forall>n b. (n, b) \<in> set G \<longrightarrow> n \<in> seen (y_spent s) \<and> binds al P n b)
     \<and> (\<forall>i n b. carries (y_pc s i) = Some (n, b) \<longrightarrow> n \<notin> fst ` set G \<and> binds al P n b)
     \<and> (\<forall>i n b. spends (y_pc s i) = Some (n, b) \<longrightarrow> binds al P n b)"

lemma inv_grantsD:
  assumes "inv_grants al P s G"
  shows "map snd G = allow_bindings (y_log s)" "distinct (map fst G)"
    "(n, b) \<in> set G \<Longrightarrow> n \<in> seen (y_spent s)" "(n, b) \<in> set G \<Longrightarrow> binds al P n b"
    "carries (y_pc s i) = Some (n, b) \<Longrightarrow> n \<notin> fst ` set G" "carries (y_pc s i) = Some (n, b) \<Longrightarrow> binds al P n b"
    "spends (y_pc s i) = Some (n, b) \<Longrightarrow> binds al P n b"
  using assms unfolding inv_grants_def by blast+

lemma carries_holds: "carries pc = Some (n, b) \<Longrightarrow> holds pc = Some n"
  by (cases pc) (auto split: if_splits)

lemma carries_decided [simp]:
  "carries (decided tr tok c b) = (if c = Allow then Some (tok_Nonce tok, b) else None)" "spends (decided tr tok c b) = None"
  by (cases tr; simp)+

lemma binds_mono: "binds al P n b \<Longrightarrow> P \<subseteq> P' \<Longrightarrow> binds al P' n b"
  by (auto simp: binds_def)

lemma inv_grants_mono: "inv_grants al P s G \<Longrightarrow> P \<subseteq> P' \<Longrightarrow> inv_grants al P' s G"
  unfolding inv_grants_def by (meson binds_mono)

lemma bindable_binds:
  assumes "binding_input (al tr) pr n = Some p" and "p \<in> P"
  shows "binds al P n (fst (ComputeBinding (al tr) pr n))"
  using assms ComputeBinding_input [of "al tr" pr n] by (auto simp: binds_def)

lemma allow_bindings_Append:
  assumes "Append ed k dec b t l = (res, l')"
  shows "allow_bindings l' = allow_bindings l @ (case res of Return (Inr e) \<Rightarrow> if dec = tl_Allow then [b] else [] | _ \<Rightarrow> [])"
  using assms by (cases rule: Append_cases) (simp_all add: allow_bindings_def next_record_def)

text \<open>A step that moves one request and appends no ALLOW entry.\<close>

lemma inv_grants_goto:
  assumes "inv_grants al P s G" and "y_pc s' = (y_pc s)(i := x)" and "seen (y_spent s) \<subseteq> seen (y_spent s')"
    and "allow_bindings (y_log s') = allow_bindings (y_log s)"
    and "\<And>n b. carries x = Some (n, b) \<Longrightarrow> carries (y_pc s i) = Some (n, b)
          \<or> n \<notin> seen (y_spent s) \<and> spends (y_pc s i) = Some (n, b)"
    and "\<And>n b. spends x = Some (n, b) \<Longrightarrow> binds al P n b"
  shows "inv_grants al P s' G"
proof -
  note old = inv_grantsD [OF assms(1)]
  have "n \<notin> fst ` set G \<and> binds al P n b" if "carries (y_pc s' j) = Some (n, b)" for j n b
  proof (cases "carries (y_pc s j) = Some (n, b)")
    case True
    then show ?thesis
      using old(5,6) by blast
  next
    case False
    then have "n \<notin> seen (y_spent s)" "spends (y_pc s i) = Some (n, b)"
      using that assms(2,5) by (auto split: if_splits)
    then show ?thesis
      using old(3,7) by force
  qed
  moreover have "binds al P n b" if "spends (y_pc s' j) = Some (n, b)" for j n b
    using that assms(2,6) old(7) by (auto split: if_splits)
  ultimately show ?thesis
    using old(1-4) assms(3,4) unfolding inv_grants_def by auto
qed

text \<open>A step that appends the ALLOW entry of the request it moves.\<close>

lemma inv_grants_append:
  assumes "inv_grants al P s G" and "inv_nonces s" and "carries (y_pc s i) = Some (n, b)" and "y_pc s' = (y_pc s)(i := x)"
    and "carries x = None" "spends x = None" and "y_spent s' = y_spent s"
    and "allow_bindings (y_log s') = allow_bindings (y_log s) @ [b]"
  shows "inv_grants al P s' (G @ [(n, b)])"
proof -
  have "holds (y_pc s i) = Some n"
    using assms(3) by (rule carries_holds)
  then have "n \<in> seen (y_spent s)" and "\<And>j b'. carries (y_pc s j) = Some (n, b') \<Longrightarrow> j = i"
    using assms(2) carries_holds unfolding inv_nonces_def by metis+
  note n = this and old = inv_grantsD [OF assms(1)]
  have pc: "j \<noteq> i \<and> carries (y_pc s j) = Some (n', b')" if "carries (y_pc s' j) = Some (n', b')" for j n' b'
    using that assms(4,5) by (auto split: if_splits)
  have "n' \<notin> fst ` set (G @ [(n, b)]) \<and> binds al P n' b'" if "carries (y_pc s' j) = Some (n', b')" for j n' b'
    using pc [OF that] n(2) [of j b'] old(5) [of j n' b'] old(6) [of j n' b'] by auto
  moreover have "binds al P n' b'" if "spends (y_pc s' j) = Some (n', b')" for j n' b'
    using that assms(4,6) old(7) by (auto split: if_splits)
  moreover have "distinct (map fst (G @ [(n, b)]))"
    using old(2) old(5) [OF assms(3)] by auto
  ultimately show ?thesis
    using old(1,3,4) old(6) [OF assms(3)] n(1) assms(7,8) unfolding inv_grants_def by auto
qed

text \<open>The tool call appends whatever its class is; the append may fail.\<close>

lemma inv_grants_records:
  assumes "inv_grants al P s G" and "inv_nonces s" and "y_pc s i = Recording tok c b"
    and "Append ed k (class_byte c) b t (y_log s) = (Return r, l)" and "class_ok (Recording tok c b)"
    and "y_pc s' = (y_pc s)(i := Finished)" and "y_spent s' = y_spent s" and "y_log s' = l"
  shows "\<exists>G'. inv_grants al P s' G'"
proof (cases "c = Allow \<and> (\<exists>e. r = Inr e)")
  case True
  show ?thesis
    by (rule exI, rule inv_grants_append [OF assms(1,2), of i "tok_Nonce tok" b])
      (use True assms class_byte_Allow [OF assms(5)] allow_bindings_Append [OF assms(4)] in auto)
next
  case False
  then have "allow_bindings l = allow_bindings (y_log s)"
    using class_byte_Allow [OF assms(5)] allow_bindings_Append [OF assms(4)] by (auto split: sum.splits)
  then show ?thesis
    using assms(6-8) by (intro exI [of _ G] inv_grants_goto [OF assms(1), of _ i]) auto
qed

lemma step_grants:
  assumes "step ed key al s s'" and "inv_grants al P s G" and "inv_nonces s" and "inv_class s" and "presented al [s] \<subseteq> P"
  shows "\<exists>G'. inv_grants al P s' G'"
  using assms
proof (induction rule: step.induct)
  case (policy_agrees s i tr tok pr now)
  then obtain p where p: "binding_input (al tr) pr (tok_Nonce tok) = Some p"
    using binding_input_bindable by blast
  moreover have "p \<in> presented al [s]"
    unfolding presented_def using policy_agrees.hyps(1) p by simp blast
  then have "p \<in> P"
    using policy_agrees.prems by blast
  ultimately have b: "binds al P (tok_Nonce tok) (fst (ComputeBinding (al tr) pr (tok_Nonce tok)))"
    by (rule bindable_binds)
  show ?case
    by (rule exI, rule inv_grants_goto [OF policy_agrees.prems(1), of _ i]) (use b in auto)
next
  case (spend s i tr tok b m)
  show ?case
    by (rule exI, rule inv_grants_goto [OF spend.prems(1), of _ i]) (use spend.hyps in \<open>auto simp: Spend_None split: if_splits\<close>)
next
  case (append s i tok b t e l)
  show ?case
    by (rule exI, rule inv_grants_append [OF append.prems(1,2), of i "tok_Nonce tok" b _ "Logged tok b"])
      (use append.hyps(1) allow_bindings_Append [OF append.hyps(2)] in auto)
next
  case (deny s i c b dec t res l)
  then have "c \<noteq> Allow"
    unfolding inv_class_def by (metis DecisionClass.distinct(1,3) class_ok.simps(1))
  from mapDecision_deny [OF deny.hyps(2) this] allow_bindings_Append [OF deny.hyps(3)]
  have "allow_bindings l = allow_bindings (y_log s)"
    by (auto split: outcome.splits sum.splits)
  then show ?case
    by (intro exI [of _ G] inv_grants_goto [OF deny.prems(1), of _ i]) auto
next
  case (tool_records s i tok c b t r l)
  then have ok: "class_ok (Recording tok c b)"
    by (metis inv_class_def)
  show ?case
    by (rule inv_grants_records [OF tool_records.prems(1,2) tool_records.hyps ok]) simp_all
next
  case (append_fails s i tok b t res l)
  with allow_bindings_Append [OF append_fails.hyps(2)] have "allow_bindings l = allow_bindings (y_log s)"
    by (auto split: outcome.splits sum.splits)
  then show ?case
    by (intro exI [of _ G] inv_grants_goto [OF append_fails.prems(1), of _ i]) auto
next
  case (tool_panics s i tok c b t msg l)
  with allow_bindings_Append [OF tool_panics.hyps(2)] show ?case
    by (intro exI [of _ G] inv_grants_goto [OF tool_panics.prems(1), of _ i]) auto
next
  case (replay s i tr tok b err m)
  with Spend_Some [OF replay.hyps(2)] show ?case
    by (intro exI [of _ G] inv_grants_goto [OF replay.prems(1), of _ i]) auto
qed (rule exI, erule inv_grants_goto, auto)+

lemma moves_grants:
  assumes "moves ed key al s s'" and "inv_grants al P s G" and "inv_nonces s" and "inv_class s" and "presented al [s] \<subseteq> P"
  shows "\<exists>G'. inv_grants al P s' G'"
  using assms(1) unfolding moves_def
proof
  assume "step ed key al s s'"
  from step_grants [OF this assms(2-5)] show ?thesis .
next
  assume "panics s s'"
  then obtain i where "s' = goto i Finished s"
    unfolding panics_def by blast
  with inv_grants_goto [OF assms(2), of s' i Finished] show ?thesis
    by auto
qed

section \<open>Runs\<close>

lemma presented_mono: "set ss \<subseteq> set ss' \<Longrightarrow> presented al ss \<subseteq> presented al ss'"
  unfolding presented_def by blast

lemma run_grants:
  "successively (moves ed key al) (start m pub # ss) \<Longrightarrow>
     \<exists>G. inv_grants al (presented al (start m pub # ss)) (last (start m pub # ss)) G"
proof (induction ss rule: rev_induct)
  case Nil
  have "inv_grants al P (start m pub) []" for P
    by (simp add: inv_grants_def start_def allow_bindings_def NewLog_def)
  then show ?case
    by auto
next
  case (snoc s' ss)
  let ?hs = "start m pub # ss"
  have hs: "successively (moves ed key al) ?hs" "moves ed key al (last ?hs) s'"
    using snoc.prems successively_append_iff [of "moves ed key al" ?hs "[s']"] by auto
  then have "run_moves ed key al (start m pub) (last ?hs)"
    unfolding run_moves_def by (intro successively_rtranclp)
  note inv = run_invariant [OF this]
  obtain G where "inv_grants al (presented al ?hs) (last ?hs) G"
    using snoc.IH hs(1) by blast
  moreover have "presented al [last ?hs] \<subseteq> presented al ?hs"
    using last_in_set [of ?hs] by (intro presented_mono) simp
  ultimately obtain G' where "inv_grants al (presented al ?hs) s' G'"
    using moves_grants [OF hs(2)] inv by blast
  moreover have "presented al ?hs \<subseteq> presented al (start m pub # ss @ [s'])"
    by (rule presented_mono) auto
  ultimately have "inv_grants al (presented al (start m pub # ss @ [s'])) s' G'"
    by (rule inv_grants_mono)
  then show ?case
    by auto
qed

text \<open>C7. Single use is visible in the chain: in every concurrent run of HTTP requests and tool
  calls, from any spend log and whatever panics, no two ALLOW entries of the log have the same
  binding, unless two of the hash inputs presented in that run collide under SHA-256.\<close>

theorem allow_bindings_distinct:
  assumes "successively (moves ed key al) (start m pub # ss)" and "P = presented al (start m pub # ss)"
  shows "distinct (allow_bindings (y_log (last (start m pub # ss)))) \<or> (\<exists>p \<in> P. \<exists>q \<in> P. collision p q)"
proof (rule disjCI)
  assume none: "\<not> (\<exists>p \<in> P. \<exists>q \<in> P. collision p q)"
  obtain G where G: "inv_grants al P (last (start m pub # ss)) G"
    using run_grants [OF assms(1)] assms(2) by blast
  have "inj_on snd (set G)"
  proof (rule inj_onI)
    fix x y
    assume x: "x \<in> set G" and y: "y \<in> set G" and eq: "snd x = snd y"
    obtain p tr pr where p: "p \<in> P" "snd x = sha256 p" "binding_input (al tr) pr (fst x) = Some p"
      using inv_grantsD(4) [OF G, of "fst x" "snd x"] x by (auto simp: binds_def)
    obtain q tr' pr' where q: "q \<in> P" "snd y = sha256 q" "binding_input (al tr') pr' (fst y) = Some q"
      using inv_grantsD(4) [OF G, of "fst y" "snd y"] y by (auto simp: binds_def)
    have "p = q"
      using sha256_eqD [of p q] none p(1,2) q(1,2) eq by auto
    then show "x = y"
      using binding_input_nonce p(3) q(3) eq by (metis prod.expand)
  qed
  moreover have "distinct G"
    using inv_grantsD(2) [OF G] by (simp add: distinct_map)
  ultimately show "distinct (allow_bindings (y_log (last (start m pub # ss))))"
    using inv_grantsD(1) [OF G] by (metis distinct_map)
qed

theorem allow_bindings_distinct_witness:
  "\<exists>ss. let hs = start NewMemSpendLog (replicate 32 7) # ss; P = presented (\<lambda>_. sample_allowlist) hs
     in successively (moves digest_scheme race_key (\<lambda>_. sample_allowlist)) hs \<and> y_served (last hs) = [replicate 32 9]
        \<and> (distinct (allow_bindings (y_log (last hs))) \<or> (\<exists>p \<in> P. \<exists>q \<in> P. collision p q))"
proof -
  obtain l' l'' where "successively race_step (race_states l' l'')"
    using race_steps by blast
  then have "successively (moves digest_scheme race_key (\<lambda>_. sample_allowlist)) (race_states l' l'')"
    by (rule successively_mono) (simp add: moves_def)
  moreover obtain ss where hs: "race_states l' l'' = start NewMemSpendLog (replicate 32 7) # ss"
    by (simp add: start_race race_states_def Let_def)
  moreover have "y_served (last (race_states l' l'')) = [replicate 32 9]"
    by (simp add: race_states_def Let_def)
  ultimately show ?thesis
    using allow_bindings_distinct [of digest_scheme race_key "\<lambda>_. sample_allowlist" NewMemSpendLog "replicate 32 7" ss] by metis
qed

end
