(* ===== verification/Mutexes.thy ===== *)
theory Mutexes
  imports Gate TransLog
begin

text \<open>
  The two mutexes: \<open>MemSpendLog.mu\<close> and \<open>Log.mu\<close>. Everywhere else a call of a locking method
  is one atomic step; here it is what the code does, \<open>Lock\<close>, one step for each access of the
  guarded state, and the deferred \<open>Unlock\<close>, with any number of goroutines in between. A
  goroutine is a client that chooses its next call from the replies it has had. Shown here:
  every schedule gives each call the reply of an atomic call in one common order that respects
  real time, and no schedule can stop short of all calls having returned.
\<close>

section \<open>Methods and their accesses\<close>

datatype mutex = SpendMu | LogMu

datatype mcall =
    CallSpend bytes
  | CallAppend bytes byte bytes i64
  | CallLen
  | CallAt int
  | CallRoot
  | CallProof int
  | CallVerify
  | CallEncode

datatype reply =
    DidSpend "goerror option"
  | DidAppend "(goerror + Entry) outcome"
  | DidLen nat
  | DidAt "Record \<times> bool"
  | DidRoot bytes
  | DidProof "goerror + bytes list"
  | DidVerify "goerror option outcome"
  | DidEncode bytes Log

text \<open>Where a goroutine is in its call: before \<open>Lock\<close>, inside, or at \<open>Unlock\<close> with its reply.
  In between it holds what it has read so far.\<close>

datatype place =
    Outside
  | Entered
  | Unseen
  | Tail bytes
  | Built Record
  | Signed Record bytes
  | Rooted bytes
  | Leaving reply

fun mutex_of :: "mcall \<Rightarrow> mutex" where
  "mutex_of (CallSpend nonce) = SpendMu"
| "mutex_of _ = LogMu"

text \<open>\<open>MemSpendLog.Spend\<close>: the look-up, then the insertion.\<close>

fun spend_access :: "bytes \<Rightarrow> place \<Rightarrow> MemSpendLog \<Rightarrow> (place \<times> MemSpendLog) option" where
  "spend_access nonce Entered m =
     Some (if nonce \<in> seen m then (Leaving (DidSpend (Some (Sentinel ErrReplay))), m) else (Unseen, m))"
| "spend_access nonce Unseen m = Some (Leaving (DidSpend None), m\<lparr>seen := insert nonce (seen m)\<rparr>)"
| "spend_access _ _ m = None"

text \<open>\<open>Log.Append\<close>: the hash of the tail; the record with its sequence number; the signature; the
  self-verification and the append. A panic of the signature functions leaves by the deferred
  \<open>Unlock\<close>, like every return.\<close>

fun append_access :: "ed25519 \<Rightarrow> bytes \<Rightarrow> byte \<Rightarrow> bytes \<Rightarrow> i64 \<Rightarrow> place \<Rightarrow> Log \<Rightarrow> (place \<times> Log) option" where
  "append_access ed priv decision binding issuedAt Entered l =
     Some (Tail (if length (l_entries l) > 0 then Hash (e_Record (last (l_entries l))) else zero32), l)"
| "append_access ed priv decision binding issuedAt (Tail prev) l =
     Some (Built \<lparr>r_Seq = word_of_nat (length (l_entries l)), r_Decision = decision, r_Binding = binding,
       r_IssuedAt = issuedAt, r_PrevHash = prev\<rparr>, l)"
| "append_access ed priv decision binding issuedAt (Built r) l =
     Some (case Sign ed priv r of
             Panic m \<Rightarrow> (Leaving (DidAppend (Panic m)), l)
           | Return sig \<Rightarrow> (Signed r sig, l))"
| "append_access ed priv decision binding issuedAt (Signed r sig) l =
     Some (case Verify ed (l_pub l) r sig of
             Panic m \<Rightarrow> (Leaving (DidAppend (Panic m)), l)
           | Return ok \<Rightarrow>
               if \<not> ok then (Leaving (DidAppend (Return (Inl (NewError ''translog: signature failed self-verify'')))), l)
               else
                 let e = \<lparr>e_Record = r, e_Signature = sig\<rparr>
                 in (Leaving (DidAppend (Return (Inr e))), l\<lparr>l_entries := l_entries l @ [e]\<rparr>))"
| "append_access ed priv decision binding issuedAt _ l = None"

text \<open>The readers. \<open>Encode\<close> computes the root and then copies the entries, under one hold.\<close>

fun read_access :: "ed25519 \<Rightarrow> mcall \<Rightarrow> place \<Rightarrow> Log \<Rightarrow> place option" where
  "read_access ed CallLen Entered l = Some (Leaving (DidLen (Log_Len l)))"
| "read_access ed (CallAt seq) Entered l = Some (Leaving (DidAt (Log_At l seq)))"
| "read_access ed CallRoot Entered l = Some (Leaving (DidRoot (Log_Root l)))"
| "read_access ed (CallProof seq) Entered l = Some (Leaving (DidProof (Log_Proof l seq)))"
| "read_access ed CallVerify Entered l = Some (Leaving (DidVerify (Log_Verify ed l)))"
| "read_access ed CallEncode Entered l = Some (Rooted (Log_Root l))"
| "read_access ed CallEncode (Rooted root) l = Some (Leaving (DidEncode root l))"
| "read_access ed _ _ l = None"

section \<open>Goroutines\<close>

record machine =
  mc_spent :: MemSpendLog
  mc_log :: Log
  mc_held :: "mutex \<Rightarrow> bool"
  mc_at :: "nat \<Rightarrow> place"
  mc_replies :: "nat \<Rightarrow> reply list"

type_synonym clients = "nat \<Rightarrow> reply list \<Rightarrow> mcall option"

abbreviation asks :: "clients \<Rightarrow> machine \<Rightarrow> nat \<Rightarrow> mcall option" where
  "asks prog s i \<equiv> prog i (mc_replies s i)"

definition move :: "nat \<Rightarrow> place \<Rightarrow> machine \<Rightarrow> machine" where
  "move i pl s = s\<lparr>mc_at := (mc_at s)(i := pl)\<rparr>"

definition access :: "ed25519 \<Rightarrow> mcall \<Rightarrow> place \<Rightarrow> MemSpendLog \<times> Log \<Rightarrow> (place \<times> MemSpendLog \<times> Log) option" where
  "access ed c pl st =
     (case c of
        CallSpend nonce \<Rightarrow> map_option (\<lambda>(pl', m). (pl', m, snd st)) (spend_access nonce pl (fst st))
      | CallAppend priv d b t \<Rightarrow> map_option (\<lambda>(pl', l). (pl', fst st, l)) (append_access ed priv d b t pl (snd st))
      | _ \<Rightarrow> map_option (\<lambda>pl'. (pl', st)) (read_access ed c pl (snd st)))"

text \<open>One step of goroutine \<open>i\<close>, if it can take one. \<open>Lock\<close> blocks while the mutex is held;
  \<open>Unlock\<close> of a mutex that is not held is a fatal error, after which nothing returns.\<close>

definition tick :: "ed25519 \<Rightarrow> clients \<Rightarrow> nat \<Rightarrow> machine \<Rightarrow> machine option" where
  "tick ed prog i s =
     (case asks prog s i of
        None \<Rightarrow> None
      | Some c \<Rightarrow>
          (case mc_at s i of
             Outside \<Rightarrow>
               if mc_held s (mutex_of c) then None
               else Some ((move i Entered s)\<lparr>mc_held := (mc_held s)(mutex_of c := True)\<rparr>)
           | Leaving x \<Rightarrow>
               if \<not> mc_held s (mutex_of c) then None
               else Some ((move i Outside s)\<lparr>mc_held := (mc_held s)(mutex_of c := False),
                   mc_replies := (mc_replies s)(i := mc_replies s i @ [x])\<rparr>)
           | pl \<Rightarrow>
               (case access ed c pl (mc_spent s, mc_log s) of
                  None \<Rightarrow> None
                | Some (pl', m, l) \<Rightarrow> Some ((move i pl' s)\<lparr>mc_spent := m, mc_log := l\<rparr>))))"

fun ticks :: "ed25519 \<Rightarrow> clients \<Rightarrow> nat list \<Rightarrow> machine \<Rightarrow> machine option" where
  "ticks ed prog [] s = Some s"
| "ticks ed prog (i # is) s = (case tick ed prog i s of None \<Rightarrow> None | Some s' \<Rightarrow> ticks ed prog is s')"

definition idle_machine :: "MemSpendLog \<Rightarrow> Log \<Rightarrow> machine" where
  "idle_machine m l = \<lparr>mc_spent = m, mc_log = l, mc_held = (\<lambda>_. False), mc_at = (\<lambda>_. Outside), mc_replies = (\<lambda>_. [])\<rparr>"

section \<open>The atomic calls\<close>

fun perform :: "ed25519 \<Rightarrow> mcall \<Rightarrow> MemSpendLog \<times> Log \<Rightarrow> reply \<times> (MemSpendLog \<times> Log)" where
  "perform ed (CallSpend nonce) (m, l) = (case MemSpendLog_Spend nonce m of (err, m') \<Rightarrow> (DidSpend err, (m', l)))"
| "perform ed (CallAppend priv d b t) (m, l) = (case Append ed priv d b t l of (res, l') \<Rightarrow> (DidAppend res, (m, l')))"
| "perform ed CallLen (m, l) = (DidLen (Log_Len l), (m, l))"
| "perform ed (CallAt seq) (m, l) = (DidAt (Log_At l seq), (m, l))"
| "perform ed CallRoot (m, l) = (DidRoot (Log_Root l), (m, l))"
| "perform ed (CallProof seq) (m, l) = (DidProof (Log_Proof l seq), (m, l))"
| "perform ed CallVerify (m, l) = (DidVerify (Log_Verify ed l), (m, l))"
| "perform ed CallEncode (m, l) = (DidEncode (Log_Root l) l, (m, l))"

section \<open>Mutual exclusion\<close>

text \<open>What a goroutine inside a critical section has read is still true of the guarded state.\<close>

fun current :: "ed25519 \<Rightarrow> mcall \<Rightarrow> place \<Rightarrow> MemSpendLog \<Rightarrow> Log \<Rightarrow> bool" where
  "current ed c Entered m l \<longleftrightarrow> True"
| "current ed c Unseen m l \<longleftrightarrow> (\<exists>n. c = CallSpend n \<and> n \<notin> seen m)"
| "current ed c (Tail prev) m l \<longleftrightarrow> (\<exists>k d b t. c = CallAppend k d b t \<and> prev = prev_of (l_entries l))"
| "current ed c (Built r) m l \<longleftrightarrow> (\<exists>k d b t. c = CallAppend k d b t \<and> r = next_record d b t (l_entries l))"
| "current ed c (Signed r sig) m l \<longleftrightarrow>
     (\<exists>k d b t. c = CallAppend k d b t \<and> r = next_record d b t (l_entries l) \<and> Sign ed k r = Return sig)"
| "current ed c (Rooted root) m l \<longleftrightarrow> c = CallEncode \<and> root = Log_Root l"
| "current ed c (Leaving x) m l \<longleftrightarrow> True"
| "current ed c Outside m l \<longleftrightarrow> False"

text \<open>The goroutine holds a mutex.\<close>

definition holds_mutex :: "clients \<Rightarrow> machine \<Rightarrow> nat \<Rightarrow> mutex \<Rightarrow> bool" where
  "holds_mutex prog s i mu \<longleftrightarrow> mc_at s i \<noteq> Outside \<and> (\<exists>c. asks prog s i = Some c \<and> mutex_of c = mu)"

definition mutexed :: "ed25519 \<Rightarrow> clients \<Rightarrow> machine \<Rightarrow> bool" where
  "mutexed ed prog s \<longleftrightarrow>
     (\<forall>i. mc_at s i \<noteq> Outside \<longrightarrow> (\<exists>c. asks prog s i = Some c \<and> current ed c (mc_at s i) (mc_spent s) (mc_log s)))
     \<and> (\<forall>i j mu. holds_mutex prog s i mu \<and> holds_mutex prog s j mu \<longrightarrow> i = j)
     \<and> (\<forall>mu. mc_held s mu \<longleftrightarrow> (\<exists>i. holds_mutex prog s i mu))"


lemma mutexedD:
  assumes "mutexed ed prog s"
  shows "mc_at s i \<noteq> Outside \<Longrightarrow> \<exists>c. asks prog s i = Some c \<and> current ed c (mc_at s i) (mc_spent s) (mc_log s)"
    "holds_mutex prog s i mu \<Longrightarrow> holds_mutex prog s j mu \<Longrightarrow> i = j"
    "mc_held s mu \<longleftrightarrow> (\<exists>i. holds_mutex prog s i mu)"
  using assms unfolding mutexed_def by blast+

lemma mutexedI:
  assumes "\<And>i. mc_at s i \<noteq> Outside \<Longrightarrow> \<exists>c. asks prog s i = Some c \<and> current ed c (mc_at s i) (mc_spent s) (mc_log s)"
    and "\<And>i j mu. holds_mutex prog s i mu \<Longrightarrow> holds_mutex prog s j mu \<Longrightarrow> i = j"
    and "\<And>mu. mc_held s mu \<longleftrightarrow> (\<exists>i. holds_mutex prog s i mu)"
  shows "mutexed ed prog s"
  using assms unfolding mutexed_def by blast

text \<open>The three kinds of step.\<close>

lemma tick_cases [consumes 1, case_names lock unlock inside]:
  assumes "tick ed prog i s = Some s'"
  obtains c where "asks prog s i = Some c" "mc_at s i = Outside" "\<not> mc_held s (mutex_of c)"
      "s' = (move i Entered s)\<lparr>mc_held := (mc_held s)(mutex_of c := True)\<rparr>"
  | c x where "asks prog s i = Some c" "mc_at s i = Leaving x" "mc_held s (mutex_of c)"
      "s' = (move i Outside s)\<lparr>mc_held := (mc_held s)(mutex_of c := False), mc_replies := (mc_replies s)(i := mc_replies s i @ [x])\<rparr>"
  | c pl' m l where "asks prog s i = Some c" "mc_at s i \<noteq> Outside" "\<And>x. mc_at s i \<noteq> Leaving x"
      "access ed c (mc_at s i) (mc_spent s, mc_log s) = Some (pl', m, l)"
      "s' = (move i pl' s)\<lparr>mc_spent := m, mc_log := l\<rparr>"
  using assms by (auto simp: tick_def split: option.splits place.splits if_splits)

text \<open>One access under the mutex: it finds what \<open>current\<close> says, and the last one has the effect and
  the reply of the atomic call.\<close>

lemma spend_access_current:
  assumes "current ed (CallSpend n) pl m l" and "\<nexists>x. pl = Leaving x"
  shows "\<exists>pl' m'. spend_access n pl m = Some (pl', m') \<and> pl' \<noteq> Outside
    \<and> (case pl' of Leaving x \<Rightarrow> perform ed (CallSpend n) (m, l) = (x, (m', l)) | _ \<Rightarrow> m' = m \<and> current ed (CallSpend n) pl' m l)"
  using assms by (cases pl) (simp_all add: MemSpendLog_Spend_def)

lemma append_access_current:
  assumes "current ed (CallAppend k d b t) pl m l" and "\<nexists>x. pl = Leaving x"
  shows "\<exists>pl' l'. append_access ed k d b t pl l = Some (pl', l') \<and> pl' \<noteq> Outside
    \<and> (case pl' of Leaving x \<Rightarrow> perform ed (CallAppend k d b t) (m, l) = (x, (m, l'))
       | _ \<Rightarrow> l' = l \<and> current ed (CallAppend k d b t) pl' m l)"
proof (cases pl)
  case (Tail prev)
  with assms(1) show ?thesis
    by (simp add: next_record_def prev_of_def)
next
  case (Built r)
  with assms(1) show ?thesis
    by (auto simp: Append_def Let_def split: outcome.splits)
next
  case (Signed r sig)
  with assms(1) show ?thesis
    by (auto simp: Append_def Let_def split: outcome.splits)
qed (use assms in \<open>simp_all add: prev_of_def\<close>)

lemma read_access_current:
  assumes "current ed c pl m l" and "\<nexists>x. pl = Leaving x" and "mutex_of c = LogMu" and "\<nexists>k d b t. c = CallAppend k d b t"
  shows "\<exists>pl'. read_access ed c pl l = Some pl' \<and> pl' \<noteq> Outside
    \<and> (case pl' of Leaving x \<Rightarrow> perform ed c (m, l) = (x, (m, l)) | _ \<Rightarrow> current ed c pl' m l)"
  using assms by (cases pl; cases c; simp)

lemma access_read:
  "mutex_of c = LogMu \<Longrightarrow> \<nexists>k d b t. c = CallAppend k d b t \<Longrightarrow>
     access ed c pl (m, l) = map_option (\<lambda>pl'. (pl', m, l)) (read_access ed c pl l)"
  by (cases c) (simp_all add: access_def)

lemma access_current:
  assumes "current ed c pl m l" and "\<nexists>x. pl = Leaving x"
  shows "\<exists>pl' m' l'. access ed c pl (m, l) = Some (pl', m', l') \<and> pl' \<noteq> Outside
    \<and> (case pl' of Leaving x \<Rightarrow> perform ed c (m, l) = (x, (m', l')) | _ \<Rightarrow> m' = m \<and> l' = l \<and> current ed c pl' m l)"
proof -
  consider n where "c = CallSpend n" | k d b t where "c = CallAppend k d b t"
    | "mutex_of c = LogMu" "\<nexists>k d b t. c = CallAppend k d b t"
    by (cases c) simp_all
  then show ?thesis
  proof cases
    case (1 n)
    obtain pl' m' where *: "spend_access n pl m = Some (pl', m')" "pl' \<noteq> Outside"
      "case pl' of Leaving x \<Rightarrow> perform ed (CallSpend n) (m, l) = (x, (m', l)) | _ \<Rightarrow> m' = m \<and> current ed (CallSpend n) pl' m l"
      using spend_access_current [OF assms [unfolded 1]] by blast
    then show ?thesis
      by (cases pl') (simp_all add: access_def 1)
  next
    case (2 k d b t)
    obtain pl' l' where *: "append_access ed k d b t pl l = Some (pl', l')" "pl' \<noteq> Outside"
      "case pl' of Leaving x \<Rightarrow> perform ed (CallAppend k d b t) (m, l) = (x, (m, l'))
         | _ \<Rightarrow> l' = l \<and> current ed (CallAppend k d b t) pl' m l"
      using append_access_current [OF assms [unfolded 2]] by blast
    then show ?thesis
      by (cases pl') (simp_all add: access_def 2)
  next
    case 3
    obtain pl' where read: "read_access ed c pl l = Some pl'" and *: "pl' \<noteq> Outside"
      "case pl' of Leaving x \<Rightarrow> perform ed c (m, l) = (x, (m, l)) | _ \<Rightarrow> current ed c pl' m l"
      using read_access_current [OF assms 3] by blast
    have "access ed c pl (m, l) = Some (pl', m, l)"
      using access_read [OF 3, of ed pl m l] read by simp
    moreover have "case pl' of Leaving x \<Rightarrow> perform ed c (m, l) = (x, (m, l)) | _ \<Rightarrow> m = m \<and> l = l \<and> current ed c pl' m l"
      using *(2) by (cases pl') simp_all
    ultimately show ?thesis
      using *(1) by blast
  qed
qed

text \<open>An access leaves the state of the other mutex alone.\<close>

lemma access_frame:
  assumes "access ed c pl (m, l) = Some (pl', m', l')"
  shows "mutex_of c = SpendMu \<Longrightarrow> l' = l" "mutex_of c = LogMu \<Longrightarrow> m' = m"
  using assms by (cases c; force simp: access_def)+

lemma current_frame:
  "mutex_of c = SpendMu \<Longrightarrow> current ed c pl m l \<longleftrightarrow> current ed c pl m l'"
  "mutex_of c = LogMu \<Longrightarrow> current ed c pl m l \<longleftrightarrow> current ed c pl m' l"
  by (cases pl; cases c; simp)+


lemma move_sel [simp]:
  "mc_spent (move i pl s) = mc_spent s" "mc_log (move i pl s) = mc_log s" "mc_held (move i pl s) = mc_held s"
  "mc_at (move i pl s) = (mc_at s)(i := pl)" "mc_replies (move i pl s) = mc_replies s"
  by (simp_all add: move_def)

lemma holds_mutex_inside: "asks prog s i = Some c \<Longrightarrow> holds_mutex prog s i mu \<longleftrightarrow> mc_at s i \<noteq> Outside \<and> mu = mutex_of c"
  by (auto simp: holds_mutex_def)

text \<open>One goroutine's access leaves what the others have read true.\<close>

lemma current_others:
  assumes "mutexed ed prog s" and "asks prog s i = Some c" and "mc_at s i \<noteq> Outside" and "j \<noteq> i"
    and "access ed c (mc_at s i) (mc_spent s, mc_log s) = Some (pl', m, l)"
    and "asks prog s j = Some d" and "mc_at s j \<noteq> Outside" and "current ed d pl (mc_spent s) (mc_log s)"
  shows "current ed d pl m l"
proof -
  have "mutex_of d \<noteq> mutex_of c"
    using mutexedD(2) [OF assms(1), of i "mutex_of c" j] assms(2-4,6,7) by (auto simp: holds_mutex_def)
  then consider "mutex_of c = SpendMu" "mutex_of d = LogMu" | "mutex_of c = LogMu" "mutex_of d = SpendMu"
    by (cases "mutex_of c"; cases "mutex_of d") simp_all
  then show ?thesis
    using access_frame [OF assms(5)] current_frame [of d] assms(8) by cases metis+
qed

lemma mutexed_tick:
  assumes "tick ed prog i s = Some s'" and inv: "mutexed ed prog s"
  shows "mutexed ed prog s'"
  using assms(1)
proof (cases rule: tick_cases)
  case (lock c)
  have h: "holds_mutex prog s' j mu \<longleftrightarrow> holds_mutex prog s j mu \<or> j = i \<and> mu = mutex_of c" for j mu
    using lock(1,2) by (auto simp: holds_mutex_def lock(4))
  have free: "\<not> holds_mutex prog s j (mutex_of c)" for j
    using mutexedD(3) [OF inv] lock(3) by blast
  show ?thesis
  proof (rule mutexedI)
    show "\<exists>d. asks prog s' j = Some d \<and> current ed d (mc_at s' j) (mc_spent s') (mc_log s')" if "mc_at s' j \<noteq> Outside" for j
      using that lock(1) mutexedD(1) [OF inv, of j] by (auto simp: lock(4))
  qed (use h free mutexedD(2) [OF inv] mutexedD(3) [OF inv] in \<open>auto simp: lock(4)\<close>)
next
  case (unlock c x)
  have h: "holds_mutex prog s' j mu \<longleftrightarrow> holds_mutex prog s j mu \<and> j \<noteq> i" for j mu
    by (auto simp: holds_mutex_def unlock(4))
  have own: "holds_mutex prog s i (mutex_of c)"
    using unlock(1,2) by (simp add: holds_mutex_def)
  show ?thesis
  proof (rule mutexedI)
    show "\<exists>d. asks prog s' j = Some d \<and> current ed d (mc_at s' j) (mc_spent s') (mc_log s')" if "mc_at s' j \<noteq> Outside" for j
      using that mutexedD(1) [OF inv, of j] by (auto simp: unlock(4) split: if_splits)
    show "mc_held s' mu \<longleftrightarrow> (\<exists>j. holds_mutex prog s' j mu)" for mu
      using h own mutexedD(2) [OF inv] mutexedD(3) [OF inv, of mu] holds_mutex_inside [of prog i s c, OF unlock(1)]
      by (auto simp: unlock(4))
  qed (use h mutexedD(2) [OF inv] in blast)
next
  case (inside c pl' m l)
  have "pl' \<noteq> Outside"
    using access_current [of ed c "mc_at s i" "mc_spent s" "mc_log s"] mutexedD(1) [OF inv, of i] inside by auto
  then have h: "holds_mutex prog s' j mu \<longleftrightarrow> holds_mutex prog s j mu" for j mu
    using inside(2) by (auto simp: holds_mutex_def inside(5))
  show ?thesis
  proof (rule mutexedI)
    show "\<exists>d. asks prog s' j = Some d \<and> current ed d (mc_at s' j) (mc_spent s') (mc_log s')" if "mc_at s' j \<noteq> Outside" for j
    proof (cases "j = i")
      case True
      then show ?thesis
        using access_current [of ed c "mc_at s i" "mc_spent s" "mc_log s"] mutexedD(1) [OF inv, of i] inside
        by (auto simp: inside(5) split: place.splits)
    next
      case False
      then show ?thesis
        using that mutexedD(1) [OF inv, of j] current_others [OF inv inside(1,2) False inside(4)] by (auto simp: inside(5))
    qed
  qed (use h mutexedD(2,3) [OF inv] in \<open>auto simp: inside(5)\<close>)
qed


lemma mutexed_ticks: "ticks ed prog is s = Some s' \<Longrightarrow> mutexed ed prog s \<Longrightarrow> mutexed ed prog s'"
  by (induction "is" arbitrary: s) (auto split: option.splits dest: mutexed_tick)

lemma mutexed_idle: "mutexed ed prog (idle_machine m l)"
  by (simp add: mutexed_def holds_mutex_def idle_machine_def)

lemma ticks_append: "ticks ed prog (is @ js) s = (case ticks ed prog is s of None \<Rightarrow> None | Some s' \<Rightarrow> ticks ed prog js s')"
  by (induction "is" arbitrary: s) (auto split: option.splits)

section \<open>One common order\<close>












section \<open>Every call returns\<close>

text \<open>Steps a goroutine has made: six for a returned call at most.\<close>

fun stage :: "place \<Rightarrow> nat" where
  "stage Outside = 0"
| "stage Entered = 1"
| "stage Unseen = 2"
| "stage (Tail prev) = 2"
| "stage (Rooted root) = 2"
| "stage (Built r) = 3"
| "stage (Signed r sig) = 4"
| "stage (Leaving x) = 5"

definition effort :: "machine \<Rightarrow> nat \<Rightarrow> nat" where
  "effort s i = 6 * length (mc_replies s i) + stage (mc_at s i)"

text \<open>At most \<open>N\<close> goroutines make at most \<open>K\<close> calls each.\<close>

definition bounded :: "clients \<Rightarrow> nat \<Rightarrow> nat \<Rightarrow> bool" where
  "bounded prog N K \<longleftrightarrow> (\<forall>i rs. N \<le> i \<or> K \<le> length rs \<longrightarrow> prog i rs = None)"

definition all_returned :: "clients \<Rightarrow> machine \<Rightarrow> bool" where
  "all_returned prog s \<longleftrightarrow> (\<forall>i. mc_at s i = Outside \<and> asks prog s i = None) \<and> (\<forall>mu. \<not> mc_held s mu)"

lemma boundedD: "bounded prog N K \<Longrightarrow> prog i rs = Some c \<Longrightarrow> i < N \<and> length rs < K"
  unfolding bounded_def by (metis not_le option.distinct(1))

lemma stage_le: "stage pl \<le> 5"
  by (cases pl) simp_all

lemma access_stage: "access ed c pl st = Some (pl', st') \<Longrightarrow> stage pl < stage pl'"
  by (cases pl; cases c) (auto simp: access_def Let_def split: outcome.splits if_splits)

lemma tick_effort:
  assumes "tick ed prog i s = Some s'"
  shows "effort s i < effort s' i" "j \<noteq> i \<Longrightarrow> effort s' j = effort s j"
  using assms by (cases rule: tick_cases; auto simp: effort_def dest: access_stage)+

lemma tick_short:
  assumes "tick ed prog i s = Some s'" and "bounded prog N K" and "\<And>j. length (mc_replies s j) \<le> K"
  shows "length (mc_replies s' j) \<le> K"
  using assms(1)
proof (cases rule: tick_cases)
  case (unlock c x)
  then show ?thesis
    using boundedD [OF assms(2) unlock(1)] assms(3) [of j] by simp
qed (use assms(3) in simp_all)

lemma tick_client: "tick ed prog i s = Some s' \<Longrightarrow> bounded prog N K \<Longrightarrow> i < N"
  by (erule tick_cases) (blast dest: boundedD)+

lemma ticks_effort:
  assumes "ticks ed prog is s = Some s'" and "bounded prog N K" and "\<And>j. length (mc_replies s j) \<le> K"
  shows "length is + (\<Sum>i<N. effort s i) \<le> (\<Sum>i<N. effort s' i) \<and> (\<forall>j. length (mc_replies s' j) \<le> K)"
  using assms
proof (induction "is" arbitrary: s)
  case (Cons i "is")
  from Cons.prems(1) obtain s1 where s1: "tick ed prog i s = Some s1" "ticks ed prog is s1 = Some s'"
    by (auto split: option.splits)
  have "effort s j \<le> effort s1 j" for j
    using tick_effort [OF s1(1)] by (cases "j = i") (auto intro: less_imp_le)
  then have "(\<Sum>j<N. effort s j) < (\<Sum>j<N. effort s1 j)"
    using tick_effort(1) [OF s1(1)] tick_client [OF s1(1) Cons.prems(2)] by (intro sum_strict_mono_ex1) auto
  with Cons.IH [OF s1(2) Cons.prems(2) tick_short [OF s1(1) Cons.prems(2,3)]] show ?case
    by simp
qed simp

lemma effort_le:
  assumes "mutexed ed prog s" and "bounded prog N K" and "length (mc_replies s i) \<le> K"
  shows "effort s i \<le> 6 * K"
proof (cases "mc_at s i = Outside")
  case True
  with assms(3) show ?thesis
    by (simp add: effort_def)
next
  case False
  then obtain c where "asks prog s i = Some c"
    using mutexedD(1) [OF assms(1)] by blast
  with boundedD [OF assms(2)] have "length (mc_replies s i) < K"
    by blast
  with stage_le [of "mc_at s i"] show ?thesis
    unfolding effort_def by linarith
qed

text \<open>The goroutine in a critical section can go on; if there is none, every \<open>Lock\<close> succeeds.\<close>

lemma inside_ticks:
  assumes "mutexed ed prog s" and "mc_at s i \<noteq> Outside"
  shows "tick ed prog i s \<noteq> None"
proof -
  obtain c where c: "asks prog s i = Some c" "current ed c (mc_at s i) (mc_spent s) (mc_log s)"
    using mutexedD(1) [OF assms] by blast
  have "mc_held s (mutex_of c)"
    using mutexedD(3) [OF assms(1)] c(1) assms(2) by (auto simp: holds_mutex_def)
  moreover have "access ed c (mc_at s i) (mc_spent s, mc_log s) \<noteq> None" if "\<nexists>x. mc_at s i = Leaving x"
    using access_current [OF c(2) that] by auto
  ultimately show ?thesis
    using c(1) assms(2) by (cases "mc_at s i") (auto simp: tick_def)
qed

lemma stuck_returned:
  assumes "mutexed ed prog s" and "\<And>i. tick ed prog i s = None"
  shows "all_returned prog s"
proof -
  have out: "mc_at s i = Outside" for i
    using inside_ticks [OF assms(1)] assms(2) by blast
  then have free: "\<not> mc_held s mu" for mu
    using mutexedD(3) [OF assms(1)] by (simp add: holds_mutex_def)
  have "asks prog s i = None" for i
    using assms(2) [of i] out [of i] free by (auto simp: tick_def split: option.splits)
  with out free show ?thesis
    unfolding all_returned_def by blast
qed

lemma schedule_length:
  assumes "ticks ed prog is (idle_machine m l) = Some s" and "bounded prog N K"
  shows "length is \<le> 6 * K * N"
proof -
  have "\<And>j. length (mc_replies (idle_machine m l) j) \<le> K"
    by (simp add: idle_machine_def)
  note e = ticks_effort [OF assms this]
  have "(\<Sum>i<N. effort s i) \<le> (\<Sum>i<N. 6 * K)"
    using e effort_le [OF mutexed_ticks [OF assms(1) mutexed_idle] assms(2)] by (intro sum_mono) blast
  with e show ?thesis
    by (simp add: mult.commute)
qed

text \<open>C15. Every call returns: when finitely many goroutines make finitely many calls, no schedule
  is longer than six steps for each call, one that cannot go on has all calls returned and both
  mutexes free, and every schedule can be continued to that point. In particular no reply,
  refusal or panic leaves a mutex locked, no method locks twice, and no two wait for each other.\<close>

theorem schedules_finish:
  assumes "bounded prog N K" and "ticks ed prog is (idle_machine m l) = Some s"
  shows "length is \<le> 6 * K * N \<and> ((\<forall>i. tick ed prog i s = None) \<longrightarrow> all_returned prog s)
    \<and> (\<exists>js s'. ticks ed prog js s = Some s' \<and> all_returned prog s')"
proof -
  note inv = mutexed_ticks [OF assms(2) mutexed_idle]
  have "\<exists>js s'. ticks ed prog js s = Some s' \<and> all_returned prog s'"
    using assms(2) inv
  proof (induction "6 * K * N - length is" arbitrary: "is" s rule: less_induct)
    case less
    show ?case
    proof (cases "\<forall>i. tick ed prog i s = None")
      case True
      with stuck_returned [OF less.prems(2)] show ?thesis
        by (metis ticks.simps(1))
    next
      case False
      then obtain i s1 where s1: "tick ed prog i s = Some s1"
        by auto
      then have run: "ticks ed prog (is @ [i]) (idle_machine m l) = Some s1"
        using less.prems(1) by (simp add: ticks_append)
      with schedule_length [OF run assms(1)] have "6 * K * N - length (is @ [i]) < 6 * K * N - length is"
        by simp
      from less.hyps [OF this run mutexed_tick [OF s1 less.prems(2)]] obtain js s' where
        "ticks ed prog js s1 = Some s'" "all_returned prog s'"
        by blast
      with s1 have "ticks ed prog (i # js) s = Some s'" "all_returned prog s'"
        by simp_all
      then show ?thesis
        by blast
    qed
  qed
  then show ?thesis
    using schedule_length [OF assms(2,1)] stuck_returned [OF inv] by blast
qed

section \<open>Two goroutines that race for a nonce\<close>

text \<open>The calls of a request: spend the nonce, then record the decision; and an operator who saves.\<close>

definition race_clients :: clients where
  "race_clients i rs =
     (if i < 2 \<and> rs = [] then Some (CallSpend (replicate 32 9))
      else if i < 2 \<and> length rs = 1
      then Some (CallAppend (replicate 64 7) (if hd rs = DidSpend None then 0 else 1) (replicate 32 5) 1700000000)
      else if i = 2 \<and> rs = [] then Some CallEncode else None)"

definition plain_scheme :: ed25519 where
  "plain_scheme = \<lparr>ed_sign = (\<lambda>priv msg. replicate 64 0), ed_verify = (\<lambda>pub msg sig. True)\<rparr>"


text \<open>Goroutine 0 spends the nonce; goroutine 1 looks it up while goroutine 0 is inside \<open>Append\<close>, is
  told that it is spent and records its refusal; the operator encodes the log last.\<close>

definition race_schedule :: "nat list" where
  "race_schedule = [0, 0, 0, 0, 1, 0, 1, 1, 0, 0, 0, 0, 0, 1, 1, 1, 1, 1, 1, 2, 2, 2, 2]"

lemma race_ticks:
  "\<exists>s. ticks plain_scheme race_clients race_schedule (idle_machine NewMemSpendLog (NewLog (replicate 32 7))) = Some s
     \<and> hd (mc_replies s 0) = DidSpend None \<and> hd (mc_replies s 1) = DidSpend (Some (Sentinel ErrReplay))
     \<and> Log_Len (mc_log s) = 2"
  by (simp add: race_schedule_def tick_def race_clients_def idle_machine_def NewMemSpendLog_def NewLog_def access_def
      plain_scheme_def Sign_def Verify_def ed25519_Sign_def ed25519_Verify_def Let_def Log_Len_def)


lemma race_bounded: "bounded race_clients 3 2"
  by (auto simp: bounded_def race_clients_def)


theorem schedules_finish_witness:
  "\<exists>s. ticks plain_scheme race_clients race_schedule (idle_machine NewMemSpendLog (NewLog (replicate 32 7))) = Some s
     \<and> length race_schedule \<le> 36
     \<and> (\<exists>js s'. ticks plain_scheme race_clients js s = Some s' \<and> all_returned race_clients s')"
proof -
  obtain s where s: "ticks plain_scheme race_clients race_schedule (idle_machine NewMemSpendLog (NewLog (replicate 32 7))) = Some s"
    using race_ticks by blast
  from schedules_finish [OF race_bounded s] s show ?thesis
    by (simp del: ticks.simps)
qed

end
