(* ===== verification/MerkleLevels.thy ===== *)
theory MerkleLevels
  imports Merkle
begin

text \<open>
  The recursive tree hash of \<open>translog/merkle.go\<close> against the way an auditor with all leaves at
  hand computes it: hash the leaves, then join neighbours level by level, carrying an odd last
  hash up unchanged, until one hash is left.
\<close>

fun pair_up :: "bytes list \<Rightarrow> bytes list" where
  "pair_up (l # r # hs) = nodeHash l r # pair_up hs"
| "pair_up hs = hs"

lemma length_pair_up: "length (pair_up hs) = (length hs + 1) div 2"
  by (induction hs rule: pair_up.induct) simp_all

function join_levels :: "bytes list \<Rightarrow> bytes" where
  "join_levels hs = (case hs of [] \<Rightarrow> sha256 [] | [h] \<Rightarrow> h | _ \<Rightarrow> join_levels (pair_up hs))"
  by pat_completeness auto
termination
  by (relation "measure length") (simp_all add: length_pair_up)

declare join_levels.simps [simp del]

section \<open>The tree over hashes\<close>

function hash_tree :: "bytes list \<Rightarrow> bytes" where
  "hash_tree hs =
     (if length hs = 0 then sha256 []
      else if length hs = 1 then hs ! 0
      else nodeHash (hash_tree (take (pow2_below (length hs)) hs)) (hash_tree (drop (pow2_below (length hs)) hs)))"
  by pat_completeness auto
termination
  by (relation "measure length") (auto simp: pow2_below_split min_less_iff_disj)

declare hash_tree.simps [simp del]

lemma hash_tree_single [simp]: "hash_tree [h] = h"
  by (simp add: hash_tree.simps)

lemma hash_tree_split:
  "2 \<le> length hs \<Longrightarrow> k = pow2_below (length hs) \<Longrightarrow>
   hash_tree hs = nodeHash (hash_tree (take k hs)) (hash_tree (drop k hs))"
  by (subst hash_tree.simps) auto

lemma MerkleRoot_hash_tree: "MerkleRoot ds = hash_tree (map leafHash ds)"
proof (induction ds rule: MerkleRoot.induct)
  case (1 ds)
  consider "ds = []" | d where "ds = [d]" | "2 \<le> length ds"
    by (cases ds rule: list.exhaust; cases "tl ds") auto
  then show ?case
  proof cases
    case 3
    then have "MerkleRoot (take (pow2_below (length ds)) ds) = hash_tree (map leafHash (take (pow2_below (length ds)) ds))"
      "MerkleRoot (drop (pow2_below (length ds)) ds) = hash_tree (map leafHash (drop (pow2_below (length ds)) ds))"
      using 1 [OF refl _ _ refl] by fastforce+
    with 3 show ?thesis
      by (simp add: MerkleRoot_split hash_tree_split take_map drop_map)
  qed (simp_all add: MerkleRoot_Nil MerkleRoot_single hash_tree.simps)
qed

lemma pow2_below_unique:
  assumes "2 ^ i < n" and "n \<le> 2 * 2 ^ i"
  shows "pow2_below n = 2 ^ i"
proof -
  have "2 \<le> n"
    using assms(1) one_le_power [of "2 :: nat" i] by linarith
  then obtain j where j: "pow2_below n = 2 ^ j" "2 ^ j < n" "n \<le> 2 * 2 ^ j"
    by (rule pow2_below_spec)
  have "(2 :: nat) ^ i < 2 ^ Suc j" "(2 :: nat) ^ j < 2 ^ Suc i"
    using assms j(2,3) by simp_all
  then have "i < Suc j" "j < Suc i"
    by (simp_all only: power_strict_increasing_iff one_less_numeral_iff semiring_norm(76))
  then have "i = j"
    by simp
  with j(1) show ?thesis
    by simp
qed

lemma pair_up_append: "even (length xs) \<Longrightarrow> pair_up (xs @ ys) = pair_up xs @ pair_up ys"
  by (induction xs rule: pair_up.induct) simp_all

text \<open>The split point of a level is half the one of the level below.\<close>

lemma pow2_below_half:
  assumes "2 < n"
  shows "even (pow2_below n)" "2 \<le> pow2_below n" "pow2_below ((n + 1) div 2) = pow2_below n div 2"
proof -
  have "2 \<le> n"
    using assms by simp
  then obtain i where i: "pow2_below n = 2 ^ i" "2 ^ i < n" "n \<le> 2 * 2 ^ i"
    by (rule pow2_below_spec)
  with assms obtain j where j: "i = Suc j"
    by (cases i) auto
  with i show "even (pow2_below n)" "2 \<le> pow2_below n"
    by simp_all
  have "pow2_below ((n + 1) div 2) = 2 ^ j"
    using i(2,3) by (intro pow2_below_unique) (simp_all add: j)
  then show "pow2_below ((n + 1) div 2) = pow2_below n div 2"
    by (simp add: i(1) j)
qed

lemma hash_tree_pair_up: "2 \<le> length hs \<Longrightarrow> hash_tree hs = hash_tree (pair_up hs)"
proof (induction "length hs" arbitrary: hs rule: less_induct)
  case less
  define k where "k = pow2_below (length hs)"
  show ?case
  proof (cases "length hs = 2")
    case True
    then obtain a b where "hs = [a, b]"
      by (auto simp: numeral_2_eq_2 length_Suc_conv)
    moreover have "1 = pow2_below (length [a, b])"
      using pow2_below_unique [of 0 2] by (simp add: numeral_2_eq_2)
    ultimately show ?thesis
      using hash_tree_split [of "[a, b]" 1] by simp
  next
    case False
    with less.prems have n: "2 < length hs"
      by simp
    note half = pow2_below_half [OF n, folded k_def]
    have k: "k < length hs"
      using pow2_below_bounds(2) [OF less.prems] by (simp add: k_def)
    have "hash_tree (take k hs) = hash_tree (pair_up (take k hs))"
      using less.hyps [of "take k hs"] k half(2) by simp
    moreover have "hash_tree (drop k hs) = hash_tree (pair_up (drop k hs))"
    proof (cases "length (drop k hs) = 1")
      case True
      then obtain h where "drop k hs = [h]"
        by (metis One_nat_def length_0_conv length_Suc_conv)
      then show ?thesis
        by simp
    next
      case False
      with less.hyps [of "drop k hs"] k half(2) show ?thesis
        by simp
    qed
    moreover have up: "pair_up hs = pair_up (take k hs) @ pair_up (drop k hs)" "length (pair_up (take k hs)) = k div 2"
      using pair_up_append [of "take k hs" "drop k hs"] half(1) k by (simp_all add: length_pair_up)
    moreover have "hash_tree (pair_up hs)
        = nodeHash (hash_tree (take (k div 2) (pair_up hs))) (hash_tree (drop (k div 2) (pair_up hs)))"
      using n half(3) by (intro hash_tree_split) (simp_all add: length_pair_up)
    moreover have "take (k div 2) (pair_up hs) = pair_up (take k hs)" "drop (k div 2) (pair_up hs) = pair_up (drop k hs)"
      unfolding up(1) up(2) [symmetric] by simp_all
    ultimately show ?thesis
      using hash_tree_split [OF less.prems k_def] by metis
  qed
qed

lemma join_levels_simps:
  "join_levels [] = sha256 []" "join_levels [h] = h" "join_levels (l # r # hs) = join_levels (pair_up (l # r # hs))"
  by (subst join_levels.simps, simp)+

lemma join_levels_hash_tree: "join_levels hs = hash_tree hs"
proof (induction hs rule: join_levels.induct)
  case (1 hs)
  consider "hs = []" | h where "hs = [h]" | l r hs' where "hs = l # r # hs'"
    by (metis neq_Nil_conv)
  then show ?case
  proof cases
    case 3
    then show ?thesis
      using 1 [of l "r # hs'" r hs'] hash_tree_pair_up [of hs] by (simp add: join_levels_simps)
  qed (simp_all add: join_levels_simps hash_tree.simps [of "[]"])
qed

text \<open>C21. The recursive root is the one a level-by-level computation gives: for every list of
  leaves, the empty one included, \<open>MerkleRoot\<close> equals hashing the leaves and joining
  neighbours level by level with an odd last hash carried up unchanged.\<close>

theorem MerkleRoot_by_levels: "MerkleRoot ds = join_levels (map leafHash ds)"
  by (simp add: MerkleRoot_hash_tree join_levels_hash_tree)

end
