(* ===== verification/KnownAnswers.thy ===== *)
theory KnownAnswers
  imports Binding LogRecord Encoding
begin

text \<open>
  The known-answer tests of the repository (\<open>gate/binding_test.go\<close>, \<open>translog/record_test.go\<close>),
  replayed on the model inside the kernel: the payment binding and the hash of a log record,
  SHA-256 included, come out as the published values that the tests and the independent
  reference scripts give. This ties the byte layouts and the hash of the model to the program.

  A block is compressed by rewriting. The rules keep every word literal below \<open>2 ^ 32\<close>, so that
  literals do not grow from round to round.
\<close>

unbundle bit_operations_syntax

section \<open>Evaluating SHA-256\<close>

definition norm32 :: "u32 \<Rightarrow> u32" where
  "norm32 x = x"

lemma word_of_nat_mod: "word_of_nat (n mod 4294967296) = (word_of_nat n :: u32)"
  by (rule unsigned_word_eqI) (simp add: unsigned_of_nat take_bit_eq_mod)

lemma norm32_simps:
  "norm32 0 = 0" "norm32 1 = 1" "norm32 (numeral k) = word_of_nat (numeral k mod 4294967296)"
  by (simp_all only: norm32_def word_of_nat_mod of_nat_numeral)

lemma rotr32_eval: "n < 32 \<Longrightarrow> rotr32 n x = drop_bit n x OR push_bit (32 - n) (take_bit n x)"
  by (rule bit_eqI) (auto simp: rotr32_def bit_simps)

fun sha_step :: "u32 \<Rightarrow> u32 \<Rightarrow> sha_state \<Rightarrow> sha_state" where
  "sha_step t1 t2 (a, b, c, d, e, f, g, h) = (norm32 (t1 + t2), a, b, c, norm32 (d + t1), e, f, g)"

lemma sha256_round_eval:
  "sha256_round (a, b, c, d, e, f, g, h) k w =
     sha_step (norm32 (h + sha_SIGMA1 e + sha_ch e f g + k + w)) (sha_SIGMA0 a + sha_maj a b c) (a, b, c, d, e, f, g, h)"
  by (simp add: norm32_def Let_def)

lemma sha256_schedule_eval:
  "sha256_schedule (numeral n) ws =
     sha256_schedule (pred_numeral n) (norm32 (sha_sigma1 (ws ! 1) + ws ! 6 + sha_sigma0 (ws ! 14) + ws ! 15) # ws)"
  by (simp add: norm32_def numeral_eq_Suc)

lemma sha_state_add_eval:
  "sha_state_add (a, b, c, d, e, f, g, h) (a', b', c', d', e', f', g', h') =
     (norm32 (a + a'), norm32 (b + b'), norm32 (c + c'), norm32 (d + d'), norm32 (e + e'), norm32 (f + f'),
      norm32 (g + g'), norm32 (h + h'))"
  by (simp add: norm32_def)

lemma replicate_numeral: "replicate (numeral k) x = x # replicate (pred_numeral k) x"
  by (simp add: numeral_eq_Suc)

lemmas kat_bytes = replicate_numeral bytes_of_def le64_def upt_rec DomainTagX402_def DomainTagLogEntry_def LayoutVersion_def
  LogLayoutVersion_def CanonicalBytes_def zero32_def

declare sha256_round.simps [simp del] sha_state_add.simps [simp del]

lemmas sha256_eval = sha256_compress_def sha256_K_def sha256_init_def sha256_round_eval sha256_schedule_eval
  sha_state_add_eval sha_ch_def sha_maj_def sha_SIGMA0_def sha_SIGMA1_def sha_sigma0_def sha_sigma1_def rotr32_eval
  norm32_simps

lemma sha256_blocks_simps:
  "sha256_blocks s [] = s"
  "length b = 64 \<Longrightarrow> sha256_blocks s (b @ bs) = sha256_blocks (sha256_compress s b) bs"
  by (subst sha256_blocks.simps, simp)+

section \<open>The payment binding\<close>

lemma resource_block1:
  "sha256_compress sha256_init
     [104, 116, 116, 112, 115, 58, 47, 47, 97, 112, 105, 46, 101, 120, 97, 109,
      112, 108, 101, 46, 99, 111, 109, 47, 114, 101, 115, 111, 117, 114, 99, 101,
      128, 0, 0, 0, 0, 0, 0, 0, 0, 0, 0, 0, 0, 0, 0, 0,
      0, 0, 0, 0, 0, 0, 0, 0, 0, 0, 0, 0, 0, 0, 1, 0] =
     (3977765400, 264394447, 1209000929, 767004850, 1315099334, 1627299031, 3311718011, 3017814589)"
  by (simp add: sha256_eval)

lemma resource_digest:
  "sha256 (bytes_of ''https://api.example.com/resource'') =
     [237, 23, 226, 24, 15, 194, 86, 207, 72, 15, 227, 225, 45, 183, 144, 178,
      78, 98, 210, 198, 96, 254, 156, 215, 197, 100, 206, 123, 179, 224, 50, 61]"
proof -
  let ?b1 = "[104, 116, 116, 112, 115, 58, 47, 47, 97, 112, 105, 46, 101, 120, 97, 109,
      112, 108, 101, 46, 99, 111, 109, 47, 114, 101, 115, 111, 117, 114, 99, 101,
      128, 0, 0, 0, 0, 0, 0, 0, 0, 0, 0, 0, 0, 0, 0, 0,
      0, 0, 0, 0, 0, 0, 0, 0, 0, 0, 0, 0, 0, 0, 1, 0] :: bytes"
  have "sha256_pad (bytes_of ''https://api.example.com/resource'') = ?b1 @ []"
    by (simp add: sha256_pad_def u64_be_def kat_bytes)
  then have "sha256 (bytes_of ''https://api.example.com/resource'') = sha_state_bytes (3977765400, 264394447, 1209000929, 767004850, 1315099334, 1627299031, 3311718011, 3017814589)"
    unfolding sha256_def by (simp only: sha256_blocks_simps list.size resource_block1)
  then show ?thesis
    by (simp add: u32_be_def)
qed

lemma amount_bytes: "amount16LE 1000000 = Inr [64, 66, 15, 0, 0, 0, 0, 0, 0, 0, 0, 0, 0, 0, 0, 0]"
proof -
  have "digits 256 1000000 = [15, 66, 64]"
    by (simp add: digits.simps)
  moreover have "\<not> 128 < big_BitLen 1000000"
    by (simp add: not_less big_BitLen_le_iff)
  ultimately show ?thesis
    by (simp add: amount16LE_def big_Bytes_def replicate_numeral)
qed

lemma binding_block1:
  "sha256_compress sha256_init
     [115, 112, 116, 45, 116, 120, 110, 47, 120, 52, 48, 50, 45, 112, 97, 121,
      109, 101, 110, 116, 47, 118, 49, 0, 1, 1, 2, 17, 17, 17, 17, 17,
      17, 17, 17, 17, 17, 17, 17, 17, 17, 17, 17, 17, 17, 17, 17, 17,
      17, 17, 17, 17, 17, 17, 17, 17, 17, 17, 17, 34, 34, 34, 34, 34] =
     (859603156, 3919647266, 3738198142, 377476200, 1386738583, 2156565922, 553708670, 3550712235)"
  by (simp add: sha256_eval)

lemma binding_block2:
  "sha256_compress 
     (859603156, 3919647266, 3738198142, 377476200, 1386738583, 2156565922, 553708670, 3550712235)
     [34, 34, 34, 34, 34, 34, 34, 34, 34, 34, 34, 34, 34, 34, 34, 34,
      34, 34, 34, 34, 34, 34, 34, 34, 34, 34, 34, 64, 66, 15, 0, 0,
      0, 0, 0, 0, 0, 0, 0, 0, 0, 0, 0, 237, 23, 226, 24, 15,
      194, 86, 207, 72, 15, 227, 225, 45, 183, 144, 178, 78, 98, 210, 198, 96] =
     (3532568968, 3485994209, 1882047934, 1206131975, 2081088738, 2978585773, 2713348842, 2528392240)"
  by (simp add: sha256_eval)

lemma binding_block3:
  "sha256_compress 
     (3532568968, 3485994209, 1882047934, 1206131975, 2081088738, 2978585773, 2713348842, 2528392240)
     [254, 156, 215, 197, 100, 206, 123, 179, 224, 50, 61, 90, 90, 90, 90, 90,
      90, 90, 90, 90, 90, 90, 90, 90, 90, 90, 90, 90, 90, 90, 90, 90,
      90, 90, 90, 90, 90, 90, 90, 90, 90, 90, 90, 128, 0, 0, 0, 0,
      0, 0, 0, 0, 0, 0, 0, 0, 0, 0, 0, 0, 0, 0, 5, 88] =
     (453376580, 2453631589, 2755549299, 195867816, 2297485468, 4293016584, 1278437756, 1946598891)"
  by (simp add: sha256_eval)

lemma binding_digest:
  "sha256 (binding_preimage 1 2 (replicate 32 0x11) (replicate 32 0x22)
     [64, 66, 15, 0, 0, 0, 0, 0, 0, 0, 0, 0, 0, 0, 0, 0]
     ''https://api.example.com/resource'' (replicate 32 0x5A)) =
     [27, 5, 250, 68, 146, 63, 114, 101, 164, 62, 88, 115, 11, 172, 180, 168,
      136, 240, 216, 156, 255, 226, 60, 8, 76, 51, 105, 124, 116, 6, 189, 235]"
proof -
  let ?b1 = "[115, 112, 116, 45, 116, 120, 110, 47, 120, 52, 48, 50, 45, 112, 97, 121,
      109, 101, 110, 116, 47, 118, 49, 0, 1, 1, 2, 17, 17, 17, 17, 17,
      17, 17, 17, 17, 17, 17, 17, 17, 17, 17, 17, 17, 17, 17, 17, 17,
      17, 17, 17, 17, 17, 17, 17, 17, 17, 17, 17, 34, 34, 34, 34, 34] :: bytes"
  let ?b2 = "[34, 34, 34, 34, 34, 34, 34, 34, 34, 34, 34, 34, 34, 34, 34, 34,
      34, 34, 34, 34, 34, 34, 34, 34, 34, 34, 34, 64, 66, 15, 0, 0,
      0, 0, 0, 0, 0, 0, 0, 0, 0, 0, 0, 237, 23, 226, 24, 15,
      194, 86, 207, 72, 15, 227, 225, 45, 183, 144, 178, 78, 98, 210, 198, 96] :: bytes"
  let ?b3 = "[254, 156, 215, 197, 100, 206, 123, 179, 224, 50, 61, 90, 90, 90, 90, 90,
      90, 90, 90, 90, 90, 90, 90, 90, 90, 90, 90, 90, 90, 90, 90, 90,
      90, 90, 90, 90, 90, 90, 90, 90, 90, 90, 90, 128, 0, 0, 0, 0,
      0, 0, 0, 0, 0, 0, 0, 0, 0, 0, 0, 0, 0, 0, 5, 88] :: bytes"
  have "sha256_pad (binding_preimage 1 2 (replicate 32 0x11) (replicate 32 0x22)
     [64, 66, 15, 0, 0, 0, 0, 0, 0, 0, 0, 0, 0, 0, 0, 0]
     ''https://api.example.com/resource'' (replicate 32 0x5A)) = ?b1 @ ?b2 @ ?b3 @ []"
    unfolding binding_preimage_def resource_digest by (simp add: sha256_pad_def u64_be_def kat_bytes)
  then have "sha256 (binding_preimage 1 2 (replicate 32 0x11) (replicate 32 0x22)
     [64, 66, 15, 0, 0, 0, 0, 0, 0, 0, 0, 0, 0, 0, 0, 0]
     ''https://api.example.com/resource'' (replicate 32 0x5A)) = sha_state_bytes (453376580, 2453631589, 2755549299, 195867816, 2297485468, 4293016584, 1278437756, 1946598891)"
    unfolding sha256_def by (simp only: sha256_blocks_simps list.size binding_block1 binding_block2 binding_block3)
  then show ?thesis
    by (simp add: u32_be_def)
qed

text \<open>The binding of the published test vector: scheme 1, network 2, the addresses of 32 bytes
  0x11 and 0x22, a million atomic units, the sample resource and a nonce of 32 bytes 0x5A
  give exactly the digest that \<open>TestBindingKnownAnswer\<close> and the reference script state.\<close>

lemma binding_known_answer:
  "apfst hex_EncodeToString (computeBindingRaw 1 2 (replicate 32 0x11) (replicate 32 0x22) 1000000
       ''https://api.example.com/resource'' (replicate 32 0x5A))
     = (''1b05fa44923f7265a43e58730bacb4a888f0d89cffe23c084c33697c7406bdeb'', None)"
  by (simp add: computeBindingRaw_def amount_bytes binding_digest hex_byte_def hex_digits_def)

section \<open>The record hash\<close>

lemma record_block1:
  "sha256_compress sha256_init
     [115, 112, 116, 45, 116, 120, 110, 47, 108, 111, 103, 101, 110, 116, 114, 121,
      47, 118, 49, 0, 2, 0, 0, 0, 0, 0, 0, 0, 0, 0, 17, 17,
      17, 17, 17, 17, 17, 17, 17, 17, 17, 17, 17, 17, 17, 17, 17, 17,
      17, 17, 17, 17, 17, 17, 17, 17, 17, 17, 17, 17, 17, 17, 0, 241] =
     (4271075120, 4011478828, 3496997141, 1911250960, 3346333349, 3441397270, 3044952574, 3401278842)"
  by (simp add: sha256_eval)

lemma record_block2:
  "sha256_compress 
     (4271075120, 4011478828, 3496997141, 1911250960, 3346333349, 3441397270, 3044952574, 3401278842)
     [83, 101, 0, 0, 0, 0, 0, 0, 0, 0, 0, 0, 0, 0, 0, 0,
      0, 0, 0, 0, 0, 0, 0, 0, 0, 0, 0, 0, 0, 0, 0, 0,
      0, 0, 0, 0, 0, 0, 128, 0, 0, 0, 0, 0, 0, 0, 0, 0,
      0, 0, 0, 0, 0, 0, 0, 0, 0, 0, 0, 0, 0, 0, 3, 48] =
     (227118281, 1400098588, 1352448902, 3568264273, 3765713545, 856794641, 1597806120, 1824510245)"
  by (simp add: sha256_eval)

lemma record_digest:
  "sha256 (CanonicalBytes \<lparr>r_Seq = 0, r_Decision = tl_Allow, r_Binding = replicate 32 0x11, r_IssuedAt = 1700000000,
     r_PrevHash = zero32\<rparr>) =
     [13, 137, 140, 201, 83, 115, 207, 28, 80, 156, 187, 134, 212, 175, 100, 81,
      224, 116, 58, 137, 51, 17, 166, 17, 95, 60, 150, 40, 108, 191, 209, 37]"
proof -
  let ?b1 = "[115, 112, 116, 45, 116, 120, 110, 47, 108, 111, 103, 101, 110, 116, 114, 121,
      47, 118, 49, 0, 2, 0, 0, 0, 0, 0, 0, 0, 0, 0, 17, 17,
      17, 17, 17, 17, 17, 17, 17, 17, 17, 17, 17, 17, 17, 17, 17, 17,
      17, 17, 17, 17, 17, 17, 17, 17, 17, 17, 17, 17, 17, 17, 0, 241] :: bytes"
  let ?b2 = "[83, 101, 0, 0, 0, 0, 0, 0, 0, 0, 0, 0, 0, 0, 0, 0,
      0, 0, 0, 0, 0, 0, 0, 0, 0, 0, 0, 0, 0, 0, 0, 0,
      0, 0, 0, 0, 0, 0, 128, 0, 0, 0, 0, 0, 0, 0, 0, 0,
      0, 0, 0, 0, 0, 0, 0, 0, 0, 0, 0, 0, 0, 0, 3, 48] :: bytes"
  have "sha256_pad (CanonicalBytes \<lparr>r_Seq = 0, r_Decision = tl_Allow, r_Binding = replicate 32 0x11, r_IssuedAt = 1700000000,
     r_PrevHash = zero32\<rparr>) = ?b1 @ ?b2 @ []"
    by (simp add: sha256_pad_def u64_be_def kat_bytes tl_Allow_def)
  then have "sha256 (CanonicalBytes \<lparr>r_Seq = 0, r_Decision = tl_Allow, r_Binding = replicate 32 0x11, r_IssuedAt = 1700000000,
     r_PrevHash = zero32\<rparr>) = sha_state_bytes (227118281, 1400098588, 1352448902, 3568264273, 3765713545, 856794641, 1597806120, 1824510245)"
    unfolding sha256_def by (simp only: sha256_blocks_simps list.size record_block1 record_block2)
  then show ?thesis
    by (simp add: u32_be_def)
qed

text \<open>The hash of the first published record: sequence number 0, ALLOW, a binding of 32 bytes
  0x11, issued at 1700000000, after no other record, hashes to the digest that
  \<open>TestRecordCanonicalKAT\<close> and the reference script state.\<close>

lemma record_known_answer:
  "hex_EncodeToString (Hash \<lparr>r_Seq = 0, r_Decision = tl_Allow, r_Binding = replicate 32 0x11, r_IssuedAt = 1700000000,
       r_PrevHash = zero32\<rparr>)
     = ''0d898cc95373cf1c509cbb86d4af6451e0743a893311a6115f3c96286cbfd125''"
  by (simp add: Hash_def record_digest hex_byte_def hex_digits_def)

section \<open>An address\<close>

text \<open>The mint address of \<open>TestDecodePubkey32\<close>: encoding its 32 bytes gives the published
  spelling, and so decoding the spelling gives the bytes.\<close>

lemma mint_known_answer:
  "decodePubkey32 ''EPjFWdd5AufqSSqeM2qN1xzybapC8G4wEGGkZwyTDt1v'' = Inr
     [198, 250, 122, 243, 190, 219, 173, 58, 61, 101, 243, 106, 171, 201, 116, 49,
      177, 187, 228, 194, 210, 246, 224, 228, 124, 166, 2, 3, 69, 47, 93, 97]"
proof -
  let ?s = "''EPjFWdd5AufqSSqeM2qN1xzybapC8G4wEGGkZwyTDt1v''"
  let ?ds = "[13, 22, 42, 14, 29, 36, 36, 4, 9, 52, 38, 48, 25, 25, 48, 37,
      20, 1, 48, 21, 0, 55, 57, 56, 34, 33, 47, 11, 7, 15, 3, 54,
      13, 15, 15, 43, 32, 54, 56, 26, 12, 51, 0, 53] :: nat list"
  let ?b = "[198, 250, 122, 243, 190, 219, 173, 58, 61, 101, 243, 106, 171, 201, 116, 49,
      177, 187, 228, 194, 210, 246, 224, 228, 124, 166, 2, 3, 69, 47, 93, 97] :: bytes"
  have s: "?s = map ((!) b58Alphabet) ?ds"
    by (simp add: b58Alphabet_def)
  have "\<forall>d \<in> set ?ds. d < 58"
    by simp
  note lt = this
  have "map b58_digit ?s = ?ds"
    unfolding s map_map by (rule map_idI) (use lt in auto)
  moreover have "set ?s \<subseteq> set b58Alphabet"
    by (simp add: b58Alphabet_def)
  ultimately have "b58_value ?s 0 = Some (undigits 58 ?ds)"
    unfolding b58_value_Some_iff by metis
  moreover have "undigits 58 ?ds = big_SetBytes ?b"
    by (simp add: undigits_def big_SetBytes_def)
  ultimately have "decodeBase58 ?s = Inr ?b"
    by (simp add: decodeBase58_def big_Bytes_SetBytes)
  then show ?thesis
    by (simp add: decodePubkey32_def)
qed

end
