(* ===== verification/Store.thy ===== *)
theory Store
  imports TransLog JsonStruct
begin

text \<open>
  \<open>translog/store.go\<close>, the file format: the JSON shape of a log, \<open>Encode\<close> and
  \<open>ReadLog\<close>. Decoding follows \<open>encoding/json\<close> to the letter, including what a
  duplicate \<open>entries\<close> member does to the slice already decoded. The rendering of
  \<open>%q\<close> and the message of a JSON error occur in error texts only and are parameters.
\<close>

definition FormatTransLog :: string where
  "FormatTransLog = ''spt-txn/translog/v1''"

definition maxLogEntries :: nat where
  "maxLogEntries = 100000"

definition maxLogBytes :: nat where
  "maxLogBytes = 64 * 2 ^ 20"

record entryFile =
  ef_Seq :: u64
  ef_Decision :: byte
  ef_Binding :: string
  ef_IssuedAt :: i64
  ef_PrevHash :: string
  ef_Sig :: string

record logFile =
  lf_Format :: string
  lf_Layout :: byte
  lf_PubKey :: string
  lf_Root :: string
  lf_Count :: int
  lf_Entries :: "entryFile list"

record go_text =
  gt_Quote :: "string \<Rightarrow> string"
  gt_json :: "string \<Rightarrow> string"

section \<open>Encode\<close>

definition entryFile_of :: "Entry \<Rightarrow> entryFile" where
  "entryFile_of e =
     \<lparr>ef_Seq = r_Seq (e_Record e), ef_Decision = r_Decision (e_Record e),
      ef_Binding = hex_EncodeToString (r_Binding (e_Record e)), ef_IssuedAt = r_IssuedAt (e_Record e),
      ef_PrevHash = hex_EncodeToString (r_PrevHash (e_Record e)), ef_Sig = hex_EncodeToString (e_Signature e)\<rparr>"

definition logFile_of :: "Log \<Rightarrow> logFile" where
  "logFile_of l =
     \<lparr>lf_Format = FormatTransLog, lf_Layout = LogLayoutVersion, lf_PubKey = hex_EncodeToString (l_pub l),
      lf_Root = hex_EncodeToString (MerkleRoot (canonicalLeaves l)), lf_Count = int (length (l_entries l)),
      lf_Entries = map entryFile_of (l_entries l)\<rparr>"

definition entryFile_json :: "entryFile \<Rightarrow> json" where
  "entryFile_json e =
     JObj [(''seq'', JNum (show_int (int (unat (ef_Seq e))))),
           (''decision'', JNum (show_int (int (unat (ef_Decision e))))),
           (''binding'', JStr (ef_Binding e)), (''issuedAt'', JNum (show_int (sint (ef_IssuedAt e)))),
           (''prevHash'', JStr (ef_PrevHash e)), (''sig'', JStr (ef_Sig e))]"

definition logFile_json :: "logFile \<Rightarrow> json" where
  "logFile_json f =
     JObj [(''format'', JStr (lf_Format f)), (''layout'', JNum (show_int (int (unat (lf_Layout f))))),
           (''pubkey'', JStr (lf_PubKey f)), (''root'', JStr (lf_Root f)),
           (''count'', JNum (show_int (lf_Count f))), (''entries'', JArr (map entryFile_json (lf_Entries f)))]"

text \<open>The snapshot is taken under one hold of the mutex and written with one \<open>Write\<close> after
  it.\<close>

definition Encode_bytes :: "Log \<Rightarrow> bytes" where
  "Encode_bytes l = bytes_of (json_Encode_indent (logFile_json (logFile_of l)))"

definition Log_Encode :: "(bytes \<Rightarrow> 'f \<Rightarrow> goerror option \<times> 'f) \<Rightarrow> Log \<Rightarrow> 'f \<Rightarrow> goerror option \<times> 'f" where
  "Log_Encode write l w = write (Encode_bytes l) w"

section \<open>Decode\<close>

definition zero_entryFile :: entryFile where
  "zero_entryFile = \<lparr>ef_Seq = 0, ef_Decision = 0, ef_Binding = [], ef_IssuedAt = 0, ef_PrevHash = [], ef_Sig = []\<rparr>"

definition entryFile_fields :: "(string \<times> entryFile field_setter) list" where
  "entryFile_fields =
     [(''seq'', set_uint 64 (\<lambda>n x. x\<lparr>ef_Seq := word_of_nat n\<rparr>)),
      (''decision'', set_uint 8 (\<lambda>n x. x\<lparr>ef_Decision := word_of_nat n\<rparr>)),
      (''binding'', set_string (\<lambda>s x. x\<lparr>ef_Binding := s\<rparr>)),
      (''issuedAt'', set_int64 (\<lambda>i x. x\<lparr>ef_IssuedAt := word_of_int i\<rparr>)),
      (''prevHash'', set_string (\<lambda>s x. x\<lparr>ef_PrevHash := s\<rparr>)),
      (''sig'', set_string (\<lambda>s x. x\<lparr>ef_Sig := s\<rparr>))]"

text \<open>A \<open>logFile\<close> being decoded: \<open>lf_spare\<close> holds the elements between the length and the
  capacity of the entries slice, left there by an earlier, longer \<open>entries\<close> member.\<close>

record logFile_decoding = logFile +
  lf_spare :: "entryFile list"

definition zero_logFile :: logFile_decoding where
  "zero_logFile = \<lparr>lf_Format = [], lf_Layout = 0, lf_PubKey = [], lf_Root = [], lf_Count = 0, lf_Entries = [],
     lf_spare = []\<rparr>"

text \<open>Element \<open>i\<close> is decoded on top of what the backing array holds at \<open>i\<close>.\<close>

fun decode_elems :: "json list \<Rightarrow> entryFile list \<Rightarrow> entryFile list option" where
  "decode_elems [] old = Some []"
| "decode_elems (v # vs) old =
     (case decode_struct True entryFile_fields v (case old of [] \<Rightarrow> zero_entryFile | x # _ \<Rightarrow> x) of
        None \<Rightarrow> None
      | Some e \<Rightarrow> map_option (\<lambda>es. e # es) (decode_elems vs (drop 1 old)))"

definition set_entries :: "logFile_decoding field_setter" where
  "set_entries v x =
     (case v of
        JNull \<Rightarrow> Some (x\<lparr>lf_Entries := [], lf_spare := []\<rparr>)
      | JArr vs \<Rightarrow>
          (let old = lf_Entries x @ lf_spare x
           in if vs = [] then Some (x\<lparr>lf_Entries := [], lf_spare := []\<rparr>)
              else map_option (\<lambda>es. x\<lparr>lf_Entries := es, lf_spare := drop (length vs) old\<rparr>) (decode_elems vs old))
      | _ \<Rightarrow> None)"

definition logFile_fields :: "(string \<times> logFile_decoding field_setter) list" where
  "logFile_fields =
     [(''format'', set_string (\<lambda>s x. x\<lparr>lf_Format := s\<rparr>)),
      (''layout'', set_uint 8 (\<lambda>n x. x\<lparr>lf_Layout := word_of_nat n\<rparr>)),
      (''pubkey'', set_string (\<lambda>s x. x\<lparr>lf_PubKey := s\<rparr>)),
      (''root'', set_string (\<lambda>s x. x\<lparr>lf_Root := s\<rparr>)),
      (''count'', set_int64 (\<lambda>i x. x\<lparr>lf_Count := i\<rparr>)),
      (''entries'', set_entries)]"

definition decode_logFile :: "string \<Rightarrow> logFile option" where
  "decode_logFile raw =
     (case json_decode_first raw of
        None \<Rightarrow> None
      | Some (v, rest) \<Rightarrow> map_option logFile.truncate (decode_struct True logFile_fields v zero_logFile))"

definition hex32 :: "string \<Rightarrow> goerror + bytes" where
  "hex32 s =
     (case hex_DecodeString s of
        Inl err \<Rightarrow> Inl err
      | Inr b \<Rightarrow>
          if length b \<noteq> 32 then Inl (NewError (''must be 32 bytes, got '' @ show_nat (length b)))
          else Inr b)"

text \<open>\<open>fmt.Errorf(prefix + "%w", err)\<close>.\<close>

definition Errorf :: "string \<Rightarrow> goerror \<Rightarrow> goerror" where
  "Errorf prefix err = WrapError (prefix @ Error err) [err]"

definition read_entry :: "nat \<Rightarrow> entryFile \<Rightarrow> goerror + Entry" where
  "read_entry i e =
     (let pre = ''receipt '' @ show_nat i @ '': ''
      in case hex32 (ef_Binding e) of
           Inl err \<Rightarrow> Inl (Errorf (pre @ ''binding: '') err)
         | Inr binding \<Rightarrow>
        (case hex32 (ef_PrevHash e) of
           Inl err \<Rightarrow> Inl (Errorf (pre @ ''prevHash: '') err)
         | Inr prev \<Rightarrow>
        (case hex_DecodeString (ef_Sig e) of
           Inl err \<Rightarrow> Inl (Errorf (pre @ ''sig: '') err)
         | Inr sig \<Rightarrow>
             if length sig \<noteq> 64
             then Inl (NewError (pre @ ''signature must be 64 bytes, got '' @ show_nat (length sig)))
             else Inr \<lparr>e_Record = \<lparr>r_Seq = ef_Seq e, r_Decision = ef_Decision e, r_Binding = binding,
                         r_IssuedAt = ef_IssuedAt e, r_PrevHash = prev\<rparr>, e_Signature = sig\<rparr>)))"

fun read_entries :: "nat \<Rightarrow> entryFile list \<Rightarrow> goerror + Entry list" where
  "read_entries i [] = Inr []"
| "read_entries i (e # es) =
     (case read_entry i e of
        Inl err \<Rightarrow> Inl err
      | Inr x \<Rightarrow> (case read_entries (Suc i) es of Inl err \<Rightarrow> Inl err | Inr xs \<Rightarrow> Inr (x # xs)))"

text \<open>The checks on the decoded struct, up to the records.\<close>

definition read_logFile :: "go_text \<Rightarrow> logFile \<Rightarrow> goerror + Log \<times> bytes" where
  "read_logFile tx f =
     (if lf_Format f \<noteq> FormatTransLog
      then Inl (WrapError (Error (Sentinel ErrFormat) @ '': '' @ gt_Quote tx (lf_Format f)) [Sentinel ErrFormat])
      else if lf_Layout f \<noteq> LogLayoutVersion
      then Inl (WrapError (Error (Sentinel ErrFormat) @ '': layout version '' @ show_nat (unat (lf_Layout f))
                  @ '', this build writes '' @ show_nat (unat LogLayoutVersion)) [Sentinel ErrFormat])
      else if maxLogEntries < length (lf_Entries f)
      then Inl (NewError (''translog: log has '' @ show_nat (length (lf_Entries f)) @ '' receipts, cap is ''
                  @ show_nat maxLogEntries))
      else if lf_Count f \<noteq> int (length (lf_Entries f))
      then Inl (NewError (''translog: count field says '' @ show_int (lf_Count f) @ '', file holds ''
                  @ show_nat (length (lf_Entries f)) @ '' receipts''))
      else case hex_DecodeString (lf_PubKey f) of
             Inl err \<Rightarrow> Inl (Errorf ''translog: pubkey: '' err)
           | Inr pub \<Rightarrow>
          if length pub \<noteq> 32
          then Inl (NewError (''translog: pubkey must be 32 bytes, got '' @ show_nat (length pub)))
          else
          (case hex32 (lf_Root f) of
             Inl err \<Rightarrow> Inl (Errorf ''translog: root: '' err)
           | Inr wantRoot \<Rightarrow>
          (case read_entries 0 (lf_Entries f) of
             Inl err \<Rightarrow> Inl err
           | Inr es \<Rightarrow> Inr (\<lparr>l_pub = pub, l_entries = es\<rparr>, wantRoot))))"

text \<open>A reader is the bytes it delivers and the error it ends with (\<open>None\<close> at end of
  input); \<open>io.LimitReader\<close> stops before the error when the limit is reached.\<close>

definition ReadLog :: "ed25519 \<Rightarrow> go_text \<Rightarrow> bytes \<times> goerror option \<Rightarrow> (goerror + Log) outcome" where
  "ReadLog ed tx r =
     (let raw = take (maxLogBytes + 1) (fst r);
          rerr = (if length (fst r) \<le> maxLogBytes then snd r else None)
      in case rerr of
           Some err \<Rightarrow> Return (Inl (Errorf ''translog: read: '' err))
         | None \<Rightarrow>
        if maxLogBytes < length raw
        then Return (Inl (NewError (''translog: log exceeds '' @ show_nat maxLogBytes @ '' bytes'')))
        else
        (case decode_logFile (string_of raw) of
           None \<Rightarrow> Return (Inl (Errorf ''translog: parse: '' (NewError (gt_json tx (string_of raw)))))
         | Some f \<Rightarrow>
        (case read_logFile tx f of
           Inl err \<Rightarrow> Return (Inl err)
         | Inr (l, wantRoot) \<Rightarrow>
        (case Log_Verify ed l of
           Panic m \<Rightarrow> Panic m
         | Return (Some err) \<Rightarrow> Return (Inl err)
         | Return None \<Rightarrow>
             let got = Log_Root l
             in if got \<noteq> wantRoot
                then Return (Inl (WrapError (Error (Sentinel ErrRootMismatch) @ '': file says ''
                       @ hex_EncodeToString wantRoot @ '', receipts hash to '' @ hex_EncodeToString got)
                       [Sentinel ErrRootMismatch]))
                else Return (Inr l)))))"

section \<open>What ReadLog accepts\<close>

lemma hex32_Inr: "hex32 s = Inr b \<longleftrightarrow> hex_DecodeString s = Inr b \<and> length b = 32"
  by (auto simp: hex32_def split: sum.splits)

lemma read_entry_Inr:
  assumes "read_entry i e = Inr x"
  shows "wf_record (e_Record x) \<and> length (e_Signature x) = 64"
  using assms by (auto simp: read_entry_def wf_record_def hex32_Inr Let_def split: sum.splits if_splits)

lemma read_entries_Inr:
  "read_entries i es = Inr xs \<Longrightarrow> length xs = length es \<and> wf_entries xs"
  by (induction es arbitrary: i xs) (auto simp: wf_entries_def read_entry_Inr split: sum.splits)

lemma read_logFile_Inr:
  assumes "read_logFile tx f = Inr (l, root)"
  shows "lf_Format f = FormatTransLog" "lf_Layout f = LogLayoutVersion" "length (lf_Entries f) \<le> maxLogEntries"
    "lf_Count f = int (length (lf_Entries f))" "hex_DecodeString (lf_PubKey f) = Inr (l_pub l)"
    "length (l_pub l) = 32" "hex_DecodeString (lf_Root f) = Inr root" "length root = 32"
    "read_entries 0 (lf_Entries f) = Inr (l_entries l)"
  using assms by (auto simp: read_logFile_def hex32_Inr split: if_splits sum.splits)

lemma verify_entries_returns: "length pub = 32 \<Longrightarrow> \<exists>x. verify_entries ed pub prev i es = Return x"
  by (induction es arbitrary: prev i) (simp_all add: Verify_def ed25519_Verify_def)

lemma ReadLog_Inr:
  assumes "ReadLog ed tx r = Return (Inr l)"
  shows "\<exists>f. length (fst r) \<le> maxLogBytes \<and> snd r = None \<and> decode_logFile (string_of (fst r)) = Some f
    \<and> read_logFile tx f = Inr (l, Log_Root l) \<and> Log_Verify ed l = Return None"
proof -
  have len: "length (fst r) \<le> maxLogBytes"
    using assms by (cases "length (fst r) \<le> maxLogBytes") (simp_all add: ReadLog_def Let_def)
  then show ?thesis
    using assms by (auto simp: ReadLog_def Let_def split: option.splits sum.splits outcome.splits if_splits)
qed

text \<open>C11. Verified, never trusted: whatever bytes \<open>ReadLog\<close> is given, it returns a log only
  if every record's sequence number, chain link and signature check out under the
  key in the file, all fields have their widths, the entry count is the declared one
  and within the cap, and the Merkle root of the records is the root in the file.\<close>

theorem ReadLog_accepts_only_verified:
  assumes "ReadLog ed tx r = Return (Inr l)"
  shows "Log_Verify ed l = Return None \<and> wf_entries (l_entries l) \<and> length (l_pub l) = 32
    \<and> length (l_entries l) \<le> 100000 \<and> length (fst r) \<le> 67108864 \<and> snd r = None
    \<and> (\<exists>f. decode_logFile (string_of (fst r)) = Some f
         \<and> lf_Format f = ''spt-txn/translog/v1'' \<and> lf_Layout f = 2 \<and> lf_Count f = int (length (l_entries l))
         \<and> hex_DecodeString (lf_PubKey f) = Inr (l_pub l) \<and> hex_DecodeString (lf_Root f) = Inr (Log_Root l))"
proof -
  obtain f where f: "length (fst r) \<le> maxLogBytes" "snd r = None" "decode_logFile (string_of (fst r)) = Some f"
    "read_logFile tx f = Inr (l, Log_Root l)" "Log_Verify ed l = Return None"
    using ReadLog_Inr [OF assms] by blast
  note chk = read_logFile_Inr [OF f(4)]
  have "length (l_entries l) = length (lf_Entries f)" "wf_entries (l_entries l)"
    using read_entries_Inr [OF chk(9)] by simp_all
  then show ?thesis
    using f chk by (simp add: FormatTransLog_def LogLayoutVersion_def maxLogEntries_def maxLogBytes_def)
qed

lemma ReadLog_returns: "\<exists>x. ReadLog ed tx r = Return x"
proof -
  have "\<exists>x. Log_Verify ed l = Return x" if "read_logFile tx f = Inr (l, root)" for f l root
    using verify_entries_returns read_logFile_Inr(6) [OF that] by (simp add: Log_Verify_def)
  then show ?thesis
    by (fastforce simp: ReadLog_def Let_def split: option.splits sum.splits outcome.splits)
qed

section \<open>Reading back what was written\<close>

lemma set_uint_word:
  "set_uint 64 upd (JNum (show_int (uint (w :: u64)))) x = Some (upd (unat w) x)"
  "set_uint 8 upd' (JNum (show_int (uint (b :: byte)))) y = Some (upd' (unat b) y)"
  using set_uint_show [of "unat w" 64 upd x] set_uint_show [of "unat b" 8 upd' y]
    unsigned_less [of w, where ?'a = nat] unat_byte_less [of b]
  by simp_all

lemma decode_entryFile: "decode_struct True entryFile_fields (entryFile_json e) x = Some e"
  by (simp add: decode_struct_def entryFile_json_def entryFile_fields_def field_for_def set_string_def
      set_int64_show set_uint_word)

lemma decode_elems_json: "decode_elems (map entryFile_json es) old = Some es"
  by (induction es arbitrary: old) (simp_all add: decode_entryFile)

lemma decode_logFile_json:
  assumes "in_int64 (lf_Count f)"
  shows "map_option logFile.truncate (decode_struct True logFile_fields (logFile_json f) zero_logFile) = Some f"
  using assms
  by (auto simp: decode_struct_def logFile_json_def logFile_fields_def field_for_def set_string_def
      set_int64_show set_uint_word set_entries_def decode_elems_json zero_logFile_def logFile.truncate_def Let_def)

lemma plain_format: "list_all plain FormatTransLog"
  by (simp add: FormatTransLog_def plain_def)

lemma plain_names:
  "list_all (list_all plain) [''format'', ''layout'', ''pubkey'', ''root'', ''count'', ''entries'',
     ''seq'', ''decision'', ''binding'', ''issuedAt'', ''prevHash'', ''sig'']"
  by (simp add: plain_def)

lemma printable_entryFile: "0 < n \<Longrightarrow> printable n (entryFile_json (entryFile_of e))"
  using plain_names by (auto simp: entryFile_json_def entryFile_of_def plain_hex)

lemma printable_entryFiles: "0 < n \<Longrightarrow> list_all (printable n) (map (entryFile_json \<circ> entryFile_of) es)"
  by (induction es) (simp_all add: printable_entryFile)

lemma printable_logFile: "printable maxNestingDepth (logFile_json (logFile_of l))"
  using plain_names printable_entryFiles [of "maxNestingDepth - 2" "l_entries l"]
  by (auto simp: logFile_json_def logFile_of_def plain_hex plain_format maxNestingDepth_def)

lemma decode_Encode:
  assumes "length (l_entries l) < 2 ^ 63"
  shows "decode_logFile (string_of (Encode_bytes l @ rest)) = Some (logFile_of l)"
proof -
  have "string_of (Encode_bytes l @ rest) = json_Encode_indent (logFile_json (logFile_of l)) @ string_of rest"
    by (simp add: Encode_bytes_def string_of_def bytes_of_def comp_def)
  moreover have "in_int64 (lf_Count (logFile_of l))"
    using assms by (simp add: logFile_of_def in_int64_def)
  ultimately show ?thesis
    using json_first_Encode_indent [OF printable_logFile [of l], of "string_of rest"] decode_logFile_json [of "logFile_of l"]
    by (simp add: decode_logFile_def)
qed

lemma read_entry_of:
  assumes "wf_record (e_Record e)" and "length (e_Signature e) = 64"
  shows "read_entry i (entryFile_of e) = Inr e"
  using assms by (simp add: read_entry_def entryFile_of_def hex32_def wf_record_def Let_def)

lemma read_entries_of:
  assumes "\<forall>e \<in> set es. wf_record (e_Record e) \<and> length (e_Signature e) = 64"
  shows "read_entries i (map entryFile_of es) = Inr es"
  using assms by (induction es arbitrary: i) (simp_all add: read_entry_of)

lemma sound_signature:
  assumes "sound_entries ed pub es" and "e \<in> set es"
  shows "length (e_Signature e) = 64"
proof -
  obtain i where "i < length es" "e = es ! i"
    using assms(2) by (auto simp: in_set_conv_nth)
  with assms(1) show ?thesis
    by (auto simp: sound_entries_def Verify_def ed25519_Verify_def split: if_splits)
qed

lemma read_logFile_of:
  assumes "Log_Verify ed l = Return None" and "wf_entries (l_entries l)" and "length (l_pub l) = 32"
    and "length (l_entries l) \<le> maxLogEntries"
  shows "read_logFile tx (logFile_of l) = Inr (l, Log_Root l)"
proof -
  have "read_entries 0 (map entryFile_of (l_entries l)) = Inr (l_entries l)"
    using assms(1,2) sound_signature by (intro read_entries_of) (auto simp: Log_Verify_iff wf_entries_def)
  moreover have "length (MerkleRoot (canonicalLeaves l)) = 32"
    by simp
  ultimately show ?thesis
    using assms(3,4) by (simp add: read_logFile_def logFile_of_def hex32_def Log_Root_def)
qed

lemma ReadLog_Encode_append:
  assumes "Log_Verify ed l = Return None" and "wf_entries (l_entries l)" and "length (l_pub l) = 32"
    and "length (l_entries l) \<le> maxLogEntries" and "length (Encode_bytes l @ rest) \<le> maxLogBytes"
  shows "ReadLog ed tx (Encode_bytes l @ rest, None) = Return (Inr l)"
proof -
  have "length (l_entries l) < 2 ^ 63"
    using assms(4) by (simp add: maxLogEntries_def)
  from decode_Encode [OF this, of rest] read_logFile_of [OF assms(1-4), of tx] assms(1,5) show ?thesis
    by (simp add: ReadLog_def Let_def)
qed

section \<open>The size of a file\<close>

lemma length_join_le:
  "(\<And>x. x \<in> set xs \<Longrightarrow> length x \<le> b) \<Longrightarrow> length (join sep xs) \<le> length xs * (b + length sep)"
proof (induction sep xs rule: join.induct)
  case (3 sep x y ys)
  then have "length (join sep (y # ys)) \<le> length (y # ys) * (b + length sep)" and "length x \<le> b"
    by simp_all
  then show ?case
    by simp
qed simp_all

lemma length_join_ge: "0 < length sep \<Longrightarrow> length xs \<le> Suc (length (join sep xs))"
proof (induction sep xs rule: join.induct)
  case (3 sep x y ys)
  from 3 have "length (y # ys) \<le> Suc (length (join sep (y # ys)))" and "1 \<le> length sep"
    by (simp_all add: Suc_le_eq)
  then show ?case
    by simp
qed simp_all

lemma length_show_nat: "n < 10 ^ k \<Longrightarrow> 0 < k \<Longrightarrow> length (show_nat n) \<le> k"
  using length_digits_le [of 10 n k] by (auto simp: show_nat_def)

lemma length_show_u64: "length (show_int (uint (w :: u64))) \<le> 20"
  using length_show_nat [of "unat w" 20] unsigned_less [of w, where ?'a = nat] show_int_nat [of "unat w"] by simp

lemma length_show_u8: "length (show_int (uint (b :: byte))) \<le> 3"
  using length_show_nat [of "unat b" 3] unat_byte_less [of b] show_int_nat [of "unat b"] by simp

lemma length_show_i64:
  assumes "in_int64 i"
  shows "length (show_int i) \<le> 20"
proof -
  have "nat \<bar>i\<bar> < 10 ^ 19"
    using assms by (auto simp: in_int64_def nat_less_iff abs_if)
  then have "length (show_nat (nat \<bar>i\<bar>)) \<le> 19"
    by (rule length_show_nat) simp
  then show ?thesis
    by (auto simp: show_int_def abs_if split: if_splits)
qed

lemma length_json_quote: "list_all plain s \<Longrightarrow> length (json_quote s) = length s + 2"
  by (simp add: json_quote_plain chars_def)

lemma length_indent_nl [simp]: "length (indent_nl d) = 2 * d + 1"
  by (simp add: indent_nl_def)

lemma length_entryFile_json:
  assumes "wf_record (e_Record e)" and "length (e_Signature e) = 64"
  shows "length (json_show indent_nl '' '' 2 (entryFile_json (entryFile_of e))) \<le> 430"
proof -
  let ?r = "e_Record e"
  have "length (show_int (uint (r_Seq ?r))) \<le> 20" "length (show_int (uint (r_Decision ?r))) \<le> 3"
    "length (show_int (sint (r_IssuedAt ?r))) \<le> 20"
    by (simp_all add: length_show_u64 length_show_u8 length_show_i64)
  moreover have "list_all (\<lambda>s. length (json_quote s) = length s + 2)
      [''seq'', ''decision'', ''binding'', ''issuedAt'', ''prevHash'', ''sig'']"
    using plain_names by (simp add: length_json_quote)
  ultimately show ?thesis
    using assms by (simp add: entryFile_json_def entryFile_of_def wf_record_def length_json_quote plain_hex)
qed

lemma length_entries_json:
  assumes "\<forall>e \<in> set es. wf_record (e_Record e) \<and> length (e_Signature e) = 64"
  shows "length (json_show indent_nl '' '' 1 (JArr (map entryFile_json (map entryFile_of es)))) \<le> length es * 436 + 10"
proof (cases "es = []")
  case False
  let ?xs = "map (json_show indent_nl '' '' 2) (map entryFile_json (map entryFile_of es))"
  have "length x \<le> 430" if "x \<in> set ?xs" for x
    using that assms length_entryFile_json by auto
  then have "length (join ('','' @ indent_nl 2) ?xs) \<le> length ?xs * (430 + length ('','' @ indent_nl 2))"
    by (rule length_join_le)
  then show ?thesis
    using False by (simp add: numeral_2_eq_2 [symmetric])
qed simp

lemma length_Encode_le:
  assumes "Log_Verify ed l = Return None" and "wf_entries (l_entries l)" and "length (l_pub l) = 32"
    and "length (l_entries l) \<le> maxLogEntries"
  shows "length (Encode_bytes l) \<le> length (l_entries l) * 436 + 410"
proof -
  have "\<forall>e \<in> set (l_entries l). wf_record (e_Record e) \<and> length (e_Signature e) = 64"
    using assms(1,2) sound_signature by (auto simp: Log_Verify_iff wf_entries_def)
  then have es: "length (json_show indent_nl '' '' 1 (JArr (map entryFile_json (map entryFile_of (l_entries l)))))
      \<le> length (l_entries l) * 436 + 10"
    by (rule length_entries_json)
  have "in_int64 (int (length (l_entries l)))"
    using assms(4) by (simp add: maxLogEntries_def in_int64_def)
  then have num: "length (show_int (int (length (l_entries l)))) \<le> 20" "length (show_int (uint LogLayoutVersion)) \<le> 3"
    by (simp_all add: length_show_i64 length_show_u8)
  have names: "list_all (\<lambda>s. length (json_quote s) = length s + 2)
      [''format'', ''layout'', ''pubkey'', ''root'', ''count'', ''entries'', FormatTransLog]"
    using plain_names plain_format by (simp add: length_json_quote)
  have "length (Encode_bytes l)
      \<le> length (json_show indent_nl '' '' 1 (JArr (map entryFile_json (map entryFile_of (l_entries l))))) + 400"
    using num names assms(3)
    by (simp add: Encode_bytes_def json_Encode_indent_def logFile_json_def logFile_of_def length_json_quote plain_hex
        FormatTransLog_def del: json_show.simps(5))
  then show ?thesis
    using es by linarith
qed

lemma length_Encode_bytes:
  assumes "Log_Verify ed l = Return None" and "wf_entries (l_entries l)" and "length (l_pub l) = 32"
    and "length (l_entries l) \<le> maxLogEntries"
  shows "length (Encode_bytes l) \<le> maxLogBytes"
  using length_Encode_le [OF assms] assms(4) by (simp add: maxLogEntries_def maxLogBytes_def)

text \<open>C12. What \<open>Encode\<close> writes, \<open>ReadLog\<close> reads back, exactly: for every log that verifies,
  with a 32-byte key, 32-byte fields and at most 100000 entries, the file is within
  the size limit and reading it returns that very log.\<close>

theorem ReadLog_Encode:
  assumes "Log_Verify ed l = Return None" and "wf_entries (l_entries l)" and "length (l_pub l) = 32"
    and "length (l_entries l) \<le> 100000"
  shows "length (Encode_bytes l) \<le> 67108864 \<and> ReadLog ed tx (Encode_bytes l, None) = Return (Inr l)"
proof -
  have n: "length (l_entries l) \<le> maxLogEntries"
    using assms(4) by (simp add: maxLogEntries_def)
  have "length (Encode_bytes l) \<le> maxLogBytes"
    by (rule length_Encode_bytes [OF assms(1,2,3) n])
  with ReadLog_Encode_append [OF assms(1,2,3) n, of "[]"] show ?thesis
    by (simp add: maxLogBytes_def)
qed

lemma sample_log_pub: "l_pub sample_log = replicate 32 7"
  by (simp add: sample_log_def NewLog_def)

definition sample_text :: go_text where
  "sample_text = \<lparr>gt_Quote = (\<lambda>s. s), gt_json = (\<lambda>s. ''invalid JSON'')\<rparr>"

theorem ReadLog_Encode_witness:
  "ReadLog digest_scheme sample_text (Encode_bytes sample_log, None) = Return (Inr sample_log)
   \<and> length (l_entries sample_log) = 1"
  using ReadLog_Encode [OF sample_log_verifies sample_log_wf, of sample_text]
  by (simp add: sample_log_pub sample_log_entries)

lemma sample_read:
  "ReadLog digest_scheme sample_text (Encode_bytes sample_log, None) = Return (Inr sample_log)"
proof -
  have "length (l_entries sample_log) \<le> maxLogEntries"
    by (simp add: sample_log_entries maxLogEntries_def)
  moreover from this have "length (Encode_bytes sample_log) \<le> maxLogBytes"
    by (intro length_Encode_bytes [OF sample_log_verifies sample_log_wf]) (simp_all add: sample_log_pub)
  ultimately show ?thesis
    using ReadLog_Encode_append [OF sample_log_verifies sample_log_wf, of "[]"] by (simp add: sample_log_pub)
qed

theorem ReadLog_accepts_only_verified_witness:
  "\<exists>f. decode_logFile (string_of (Encode_bytes sample_log)) = Some f \<and> lf_Count f = 1
     \<and> hex_DecodeString (lf_Root f) = Inr (Log_Root sample_log)"
  using ReadLog_accepts_only_verified [OF sample_read] by (auto simp: sample_log_entries)

text \<open>Bytes after the JSON value are not looked at: appending anything to a valid file,
  up to the size limit, gives a file that loads to the same log.\<close>

lemma ReadLog_ignores_trailing:
  assumes "Log_Verify ed l = Return None" and "wf_entries (l_entries l)" and "length (l_pub l) = 32"
    and "length (l_entries l) \<le> 100000" and "length (Encode_bytes l) + length rest \<le> 67108864"
  shows "ReadLog ed tx (Encode_bytes l @ rest, None) = Return (Inr l)"
  using ReadLog_Encode_append [OF assms(1,2,3), of rest tx] assms(4,5)
  by (simp add: maxLogEntries_def maxLogBytes_def)

text \<open>\<open>Encode\<close> and \<open>Save\<close> do not know the cap: what they write of a longer log is refused, as too
  many entries or as too many bytes.\<close>

lemma entries_le_Encode: "length (l_entries l) \<le> length (Encode_bytes l)"
proof -
  let ?es = "map entryFile_json (map entryFile_of (l_entries l))"
  have "length ?es \<le> Suc (length (join ('','' @ indent_nl 2) (map (json_show indent_nl '' '' 2) ?es)))"
    using length_join_ge [of "'','' @ indent_nl 2" "map (json_show indent_nl '' '' 2) ?es"] by simp
  then have "length (l_entries l) \<le> length (json_show indent_nl '' '' 1 (JArr ?es))"
    by (simp add: numeral_2_eq_2 [symmetric])
  also have "\<dots> \<le> length (Encode_bytes l)"
    by (simp add: Encode_bytes_def json_Encode_indent_def logFile_json_def logFile_of_def del: json_show.simps(5))
  finally show ?thesis .
qed

lemma ReadLog_over_cap:
  assumes "100000 < length (l_entries l)"
  shows "\<exists>err. ReadLog ed tx (Encode_bytes l, None) = Return (Inl err)"
proof (cases "length (Encode_bytes l) \<le> maxLogBytes")
  case True
  then have "length (l_entries l) < 2 ^ 63"
    using entries_le_Encode [of l] by (simp add: maxLogBytes_def)
  from decode_Encode [OF this, of "[]"] have "decode_logFile (string_of (Encode_bytes l)) = Some (logFile_of l)"
    by simp
  moreover have "\<exists>err. read_logFile tx (logFile_of l) = Inl err"
    using assms by (simp add: read_logFile_def logFile_of_def maxLogEntries_def)
  ultimately show ?thesis
    using True by (auto simp: ReadLog_def Let_def)
qed (simp add: ReadLog_def Let_def)

lemma ReadLog_Encode_cap:
  assumes "Log_Verify ed l = Return None" and "wf_entries (l_entries l)" and "length (l_pub l) = 32"
  shows "if Log_Len l \<le> 100000 then ReadLog ed tx (Encode_bytes l, None) = Return (Inr l)
    else \<exists>err. ReadLog ed tx (Encode_bytes l, None) = Return (Inl err)"
  using ReadLog_Encode_append [OF assms, of "[]" tx] length_Encode_bytes [OF assms] ReadLog_over_cap [of l ed tx]
  by (simp add: Log_Len_def maxLogEntries_def)

section \<open>Tamper evidence of a file\<close>

lemma canonicalLeaves_inj:
  assumes "canonicalLeaves l = canonicalLeaves l'" and "wf_entries (l_entries l)" and "wf_entries (l_entries l')"
  shows "map e_Record (l_entries l) = map e_Record (l_entries l')"
proof (rule nth_equalityI)
  have len: "length (l_entries l) = length (l_entries l')"
    using arg_cong [OF assms(1), of length] by (simp add: canonicalLeaves_def)
  then show "length (map e_Record (l_entries l)) = length (map e_Record (l_entries l'))"
    by simp
  fix i
  assume i: "i < length (map e_Record (l_entries l))"
  have "CanonicalBytes (e_Record (l_entries l ! i)) = CanonicalBytes (e_Record (l_entries l' ! i))"
    using arg_cong [OF assms(1), of "\<lambda>xs. xs ! i"] i len by (simp add: canonicalLeaves_def)
  then have "e_Record (l_entries l ! i) = e_Record (l_entries l' ! i)"
    using assms(2,3) i len by (intro CanonicalBytes_inj) (auto simp: wf_entries_def)
  with i len show "map e_Record (l_entries l) ! i = map e_Record (l_entries l') ! i"
    by simp
qed

text \<open>The root in a file pins its records: two files that both load and whose \<open>root\<close>
  members decode to the same bytes hold the same records in the same order, whatever
  keys they name and however they were edited, or two byte strings hashed in the two
  Merkle trees are a SHA-256 collision.\<close>

lemma ReadLog_root_pins_records:
  assumes "ReadLog ed tx r = Return (Inr l)" and "ReadLog ed' tx' r' = Return (Inr l')"
    and "decode_logFile (string_of (fst r)) = Some f" and "decode_logFile (string_of (fst r')) = Some f'"
    and "hex_DecodeString (lf_Root f) = hex_DecodeString (lf_Root f')"
  shows "map e_Record (l_entries l) = map e_Record (l_entries l')
    \<or> (\<exists>a \<in> set (merkle_inputs (canonicalLeaves l)). \<exists>b \<in> set (merkle_inputs (canonicalLeaves l')). collision a b)"
proof -
  have f: "read_logFile tx f = Inr (l, Log_Root l)" "read_logFile tx' f' = Inr (l', Log_Root l')"
    using ReadLog_Inr [OF assms(1)] ReadLog_Inr [OF assms(2)] assms(3,4) by auto
  have "Log_Root l = Log_Root l'"
    using read_logFile_Inr(7) [OF f(1)] read_logFile_Inr(7) [OF f(2)] assms(5) by simp
  then have "canonicalLeaves l = canonicalLeaves l' \<or> colliding (merkle_inputs (canonicalLeaves l)) (merkle_inputs (canonicalLeaves l'))"
    using MerkleRoot_inj by (auto simp: Log_Root_def)
  moreover have "wf_entries (l_entries l)" "wf_entries (l_entries l')"
    using read_entries_Inr read_logFile_Inr(9) [OF f(1)] read_logFile_Inr(9) [OF f(2)] by blast+
  ultimately show ?thesis
    using canonicalLeaves_inj [of l l'] unfolding colliding_def by argo
qed

end
