(* ===== verification/StoreFile.thy ===== *)
theory StoreFile
  imports Store
begin

text \<open>
  \<open>translog/store.go\<close>, the file operations: \<open>Save\<close> and \<open>LoadLog\<close> over a file system that
  maps clean paths to files. Every system call may fail, as an oracle says; a failed
  write may leave any prefix. \<open>Save\<close> also returns every file system state it passes
  through, which is what a crash or a concurrent reader can see.
\<close>

section \<open>Paths\<close>

fun split_slash :: "string \<Rightarrow> string list" where
  "split_slash [] = [[]]"
| "split_slash (c # s) =
     (if c = CHR ''/'' then [] # split_slash s
      else (case split_slash s of [] \<Rightarrow> [[c]] | x # xs \<Rightarrow> (c # x) # xs))"

definition clean_step :: "bool \<Rightarrow> string list \<Rightarrow> string \<Rightarrow> string list" where
  "clean_step rooted acc c =
     (if c = [] \<or> c = ''.'' then acc
      else if c = ''..'' then
        (if acc \<noteq> [] \<and> last acc \<noteq> ''..'' then butlast acc else if rooted then acc else acc @ [c])
      else acc @ [c])"

definition filepath_Clean :: "string \<Rightarrow> string" where
  "filepath_Clean path =
     (let rooted = (path \<noteq> [] \<and> hd path = CHR ''/'');
          out = (if rooted then ''/'' else []) @ join ''/'' (foldl (clean_step rooted) [] (split_slash path))
      in if out = [] then ''.'' else out)"

definition filepath_Dir :: "string \<Rightarrow> string" where
  "filepath_Dir path = filepath_Clean (rev (dropWhile (\<lambda>c. c \<noteq> CHR ''/'') (rev path)))"

section \<open>Files\<close>

text \<open>\<open>f_synced\<close> says that the data has reached stable storage.\<close>

record fs_file =
  f_mode :: nat
  f_data :: bytes
  f_synced :: bool

type_synonym fs = "string \<rightharpoonup> fs_file"

text \<open>What the system calls of one \<open>Save\<close> do: the random part of the temporary name, the
  mode the file is created with, the error of each call, the number of bytes a failed write got through, and whether the
  deferred removal works.\<close>

record save_io =
  io_random :: string
  io_mode :: nat
  io_create :: "goerror option"
  io_chmod :: "goerror option"
  io_write :: "(goerror \<times> nat) option"
  io_sync :: "goerror option"
  io_close :: "goerror option"
  io_rename :: "goerror option"
  io_removes :: bool

definition mode_0600 :: nat where
  "mode_0600 = 6 * 8 * 8"

definition temp_name :: "save_io \<Rightarrow> string \<Rightarrow> string" where
  "temp_name io dir =
     (dir @ (if dir \<noteq> [] \<and> last dir = CHR ''/'' then [] else ''/'')) @ ''.spt-translog-'' @ io_random io @ ''.tmp''"

definition remove_temp :: "save_io \<Rightarrow> string \<Rightarrow> fs \<Rightarrow> fs" where
  "remove_temp io tmp s = (if io_removes io then s(tmp := None) else s)"

definition Save :: "save_io \<Rightarrow> Log \<Rightarrow> string \<Rightarrow> fs \<Rightarrow> goerror option \<times> fs list" where
  "Save io l path0 s0 =
     (let path = filepath_Clean path0
      in if path = [] \<or> path = ''.'' then (Some (NewError ''translog: empty log path''), [s0])
         else
        (let dir = filepath_Dir path; tmp = filepath_Clean (temp_name io dir)
         in case io_create io of
              Some err \<Rightarrow> (Some (Errorf ''translog: create temp: '' err), [s0])
            | None \<Rightarrow>
           (let s1 = s0(tmp \<mapsto> \<lparr>f_mode = io_mode io, f_data = [], f_synced = False\<rparr>)
            in case io_chmod io of
                 Some err \<Rightarrow> (Some (Errorf ''translog: chmod temp: '' err), [s0, s1, remove_temp io tmp s1])
               | None \<Rightarrow>
              (let s2 = s0(tmp \<mapsto> \<lparr>f_mode = mode_0600, f_data = [], f_synced = False\<rparr>)
               in case io_write io of
                    Some (err, n) \<Rightarrow>
                      (let s3 = s0(tmp \<mapsto> \<lparr>f_mode = mode_0600, f_data = take n (Encode_bytes l), f_synced = False\<rparr>)
                       in (Some (Errorf ''translog: write: '' err), [s0, s1, s2, s3, remove_temp io tmp s3]))
                  | None \<Rightarrow>
                 (let s3 = s0(tmp \<mapsto> \<lparr>f_mode = mode_0600, f_data = Encode_bytes l, f_synced = False\<rparr>)
                  in case io_sync io of
                       Some err \<Rightarrow> (Some (Errorf ''translog: sync: '' err), [s0, s1, s2, s3, remove_temp io tmp s3])
                     | None \<Rightarrow>
                    (let s4 = s0(tmp \<mapsto> \<lparr>f_mode = mode_0600, f_data = Encode_bytes l, f_synced = True\<rparr>)
                     in case io_close io of
                          Some err \<Rightarrow>
                            (Some (Errorf ''translog: close temp: '' err), [s0, s1, s2, s3, s4, remove_temp io tmp s4])
                        | None \<Rightarrow>
                       (case io_rename io of
                          Some err \<Rightarrow>
                            (Some (Errorf ''translog: rename into place: '' err),
                             [s0, s1, s2, s3, s4, remove_temp io tmp s4])
                        | None \<Rightarrow>
                            let s5 = (s4(tmp := None))(path := s4 tmp)
                            in (None, [s0, s1, s2, s3, s4, s5, remove_temp io tmp s5]))))))))"

text \<open>\<open>os.Open\<close> fails for a missing file or for a reason of its own; reading may end with
  an error.\<close>

definition LoadLog ::
  "ed25519 \<Rightarrow> go_text \<Rightarrow> goerror option \<Rightarrow> goerror option \<Rightarrow> string \<Rightarrow> fs \<Rightarrow> (goerror + Log) outcome" where
  "LoadLog ed tx open_err read_err path s =
     (case open_err of
        Some err \<Rightarrow> Return (Inl err)
      | None \<Rightarrow>
          (case s (filepath_Clean path) of
             None \<Rightarrow> Return (Inl (NewError (''open '' @ filepath_Clean path @ '': no such file or directory'')))
           | Some f \<Rightarrow> ReadLog ed tx (f_data f, read_err)))"

section \<open>Atomic replacement\<close>

definition saved_file :: "Log \<Rightarrow> fs_file" where
  "saved_file l = \<lparr>f_mode = mode_0600, f_data = Encode_bytes l, f_synced = True\<rparr>"

definition save_temp :: "save_io \<Rightarrow> string \<Rightarrow> string" where
  "save_temp io path0 = filepath_Clean (temp_name io (filepath_Dir (filepath_Clean path0)))"

lemma Save_states:
  assumes "Save io l path0 s0 = (res, ss)" and "save_temp io path0 \<noteq> filepath_Clean path0" and "s \<in> set ss"
  shows "s (filepath_Clean path0) = s0 (filepath_Clean path0) \<or> s (filepath_Clean path0) = Some (saved_file l)"
  using assms
  by (auto simp: Save_def Let_def save_temp_def remove_temp_def saved_file_def split: if_splits option.splits prod.splits)

lemma Save_frame:
  assumes "Save io l path0 s0 = (res, ss)" and "q \<noteq> save_temp io path0" and "q \<noteq> filepath_Clean path0" and "s \<in> set ss"
  shows "s q = s0 q"
  using assms
  by (auto simp: Save_def Let_def save_temp_def remove_temp_def split: if_splits option.splits prod.splits)

lemma Save_final:
  assumes "Save io l path0 s0 = (res, ss)" and "save_temp io path0 \<noteq> filepath_Clean path0"
  shows "ss \<noteq> [] \<and> last ss (filepath_Clean path0) = (if res = None then Some (saved_file l) else s0 (filepath_Clean path0))"
  using assms
  by (auto simp: Save_def Let_def save_temp_def remove_temp_def saved_file_def split: if_splits option.splits prod.splits)

text \<open>Saving replaces the file atomically, whatever system call fails and wherever a
  crash falls: in every state \<open>Save\<close> passes through, the target holds what it held
  before or the complete new encoding, already synced and with mode 0600, never a
  partial file; no other file but the temporary one changes; after an error the target
  is as before, after success it is the new file.\<close>

lemma Save_atomic:
  assumes "Save io l path s0 = (res, ss)" and "save_temp io path \<noteq> filepath_Clean path"
  shows "(\<forall>s \<in> set ss. s (filepath_Clean path) \<in> {s0 (filepath_Clean path), Some (saved_file l)}
        \<and> (\<forall>q. q \<noteq> filepath_Clean path \<and> q \<noteq> save_temp io path \<longrightarrow> s q = s0 q))
    \<and> ss \<noteq> [] \<and> last ss (filepath_Clean path) = (if res = None then Some (saved_file l) else s0 (filepath_Clean path))"
  using Save_states [OF assms] Save_frame [OF assms(1)] Save_final [OF assms] by auto

text \<open>A saved log loads: after a \<open>Save\<close> that returned nil, \<open>LoadLog\<close> of the same path
  returns exactly the log that was saved, for every log that verifies, has 32-byte
  key and fields and at most 100000 entries.\<close>

lemma LoadLog_Save:
  assumes "Save io l path s0 = (None, ss)" and "save_temp io path \<noteq> filepath_Clean path"
    and "Log_Verify ed l = Return None" and "wf_entries (l_entries l)" and "length (l_pub l) = 32"
    and "length (l_entries l) \<le> maxLogEntries"
  shows "LoadLog ed tx None None path (last ss) = Return (Inr l)"
  using Save_final [OF assms(1,2)] ReadLog_Encode_append [OF assms(3-6), of "[]"] length_Encode_bytes [OF assms(3-6)]
  by (simp add: LoadLog_def saved_file_def)

text \<open>A log that can be written and read back.\<close>

definition storable :: "ed25519 \<Rightarrow> Log \<Rightarrow> bool" where
  "storable ed l \<longleftrightarrow> Log_Verify ed l = Return None \<and> wf_entries (l_entries l) \<and> length (l_pub l) = 32"

lemma storable_Append:
  assumes "storable ed l" and "length b = 32"
  shows "storable ed (snd (Append ed key d b t l))"
  using assms Append_sound [where l = l and ed = ed and priv = key and d = d and b = b and t = t] Append_wf
  by (simp add: storable_def Log_Verify_iff) (metis prod.collapse Append_pub)

lemma LoadLog_saved_cap:
  assumes "s (filepath_Clean path) = Some (saved_file l)" and "storable ed l"
  shows "if Log_Len l \<le> 100000 then LoadLog ed tx None None path s = Return (Inr l)
    else \<exists>err. LoadLog ed tx None None path s = Return (Inl err)"
  using assms ReadLog_Encode_cap [of ed l tx] by (simp add: LoadLog_def saved_file_def storable_def)

lemma storable_appends:
  assumes "storable ed l" and "\<forall>c \<in> set cs. length (fst (snd (snd c))) = 32"
  shows "storable ed (snd (run_seq (Append_call ed) cs l))"
  using assms
proof (induction cs arbitrary: l)
  case (Cons c cs)
  then show ?case
    using storable_Append [of ed l] by (cases c) (simp add: run_seq_snd_Cons Append_call_def del: run_seq.simps(2))
qed simp

lemma call_at_contents: "map snd (map2 call_at ns (map (Pair priv) calls)) = take (length ns) calls"
proof (induction calls arbitrary: ns)
  case (Cons c calls)
  then show ?case
    by (cases ns; cases c) (simp_all add: call_at_def)
qed simp

text \<open>C34. The key of a file is not checked against any other: whoever holds any key pair can write
  a file that \<open>ReadLog\<close> accepts, with any decisions, bindings and times of his choice. That a
  file loads says that it is consistent, not whose log it is; a reader has to compare
  \<open>PublicKey\<close> with a key he knows.\<close>

theorem any_key_loads:
  assumes "ed25519_contract ed priv pub" and "length calls \<le> 100000"
    and "\<forall>(d, b, t) \<in> set calls. length b = 32"
    and "l = snd (run_seq (Append_call ed) (map (Pair priv) calls) (NewLog pub))"
  shows "ReadLog ed tx (Encode_bytes l, None) = Return (Inr l) \<and> PublicKey l = pub
    \<and> map (\<lambda>e. (r_Decision (e_Record e), r_Binding (e_Record e), r_IssuedAt (e_Record e))) (l_entries l) = calls"
proof -
  have "map entry_call (l_entries l) = map2 call_at [0..<length calls] (map (Pair priv) calls)"
    using Log_appends_recorded [OF assms(1), of "map (Pair priv) calls"] by (simp add: assms(4))
  then have "map (snd \<circ> entry_call) (l_entries l) = calls"
    using call_at_contents [of "[0..<length calls]" priv calls] by (metis length_upt map_map minus_nat.diff_0 order_refl take_all)
  moreover have "storable ed (NewLog pub)"
    using assms(1) by (simp add: storable_def ed25519_contract_def NewLog_def Log_Verify_def)
  then have st: "storable ed l"
    using storable_appends [of ed "NewLog pub" "map (Pair priv) calls"] assms(3) by (simp add: assms(4) case_prod_unfold)
  moreover have "l_pub l = pub"
    using run_seq_invariant [where P = "\<lambda>l. l_pub l = pub" and step = "Append_call ed" and s = "NewLog pub"]
    by (auto simp: assms(4) Append_call_def NewLog_def)
  moreover have "length (l_entries l) \<le> maxLogEntries"
    using assms(2) calculation(1) by (metis length_map maxLogEntries_def)
  ultimately show ?thesis
    using ReadLog_Encode_append [of ed l "[]" tx] length_Encode_bytes [of ed l]
    by (simp add: storable_def PublicKey_def entry_call_def comp_def)
qed

definition sample_io :: save_io where
  "sample_io = \<lparr>io_random = ''42'', io_mode = mode_0600, io_create = None, io_chmod = None, io_write = None,
     io_sync = None, io_close = None, io_rename = None, io_removes = True\<rparr>"

lemma sample_temp: "filepath_Clean ''var/log.json'' = ''var/log.json''"
  "save_temp sample_io ''var/log.json'' = ''var/.spt-translog-42.tmp''"
  by (simp_all add: save_temp_def filepath_Clean_def filepath_Dir_def clean_step_def temp_name_def sample_io_def)

lemma sample_save: "\<exists>ss. Save sample_io sample_log ''var/log.json'' (\<lambda>_. None) = (None, ss)"
  by (simp add: Save_def sample_temp Let_def) (simp add: sample_io_def Let_def)

theorem any_key_loads_witness:
  "\<exists>l. ReadLog digest_scheme sample_text (Encode_bytes l, None) = Return (Inr l) \<and> PublicKey l = replicate 32 5
     \<and> map (\<lambda>e. (r_Decision (e_Record e), r_Binding (e_Record e), r_IssuedAt (e_Record e))) (l_entries l)
       = [(0, replicate 32 1, 1700000000), (0, replicate 32 2, 1700000000)]"
  using any_key_loads [of digest_scheme "replicate 64 5" "replicate 32 5" "[(0, replicate 32 1, 1700000000), (0, replicate 32 2, 1700000000)]",
      OF _ _ _ refl, of sample_text] digest_scheme_contract [of "replicate 64 5"]
  by auto

end
