(* ===== verification/Saving.thy ===== *)
theory Saving
  imports StoreFile "HOL-Library.Sublist"
begin

text \<open>
  \<open>translog/store.go\<close>, \<open>Save\<close> under concurrency: several calls of \<open>Save\<close> and any number of
  \<open>Append\<close> calls interleave, one system call or critical section at a time, and the process
  may stop between any two of them. File names refer to inodes, so that a file that is renamed
  or removed stays the file its writer has open. \<open>advance\<close> is one step of one call; running one
  call alone gives the states of \<open>Save\<close>. Shown here: whatever the interleaving, a target path
  holds the file it held or the complete encoding of a log that the current one extends; a
  \<open>Save\<close> that returned nil has made every record appended before the call durable when no other
  call writes that path; both as long as no call draws the temporary name of one that is still
  running. Two further runs show what the code does not promise: overlapping calls
  on one path can put an older snapshot in place of a newer one, and the deferred removal is
  harmless only as long as no call draws the temporary name of one that is still running.
\<close>

section \<open>The steps of a call\<close>

text \<open>Inodes that exist before, and the temporary file of each call.\<close>

datatype inode = Old nat | New nat

datatype save_pc =
    Begun
  | Opened
  | Private
  | Snapshot Log
  | Written Log
  | Synced Log
  | Closed Log
  | Removing "goerror option"
  | Returned "goerror option"

record saving =
  sv_log :: Log
  sv_names :: "string \<rightharpoonup> inode"
  sv_data :: "inode \<Rightarrow> fs_file"
  sv_pc :: "nat \<Rightarrow> save_pc"

definition fs_of :: "saving \<Rightarrow> fs" where
  "fs_of s p = map_option (sv_data s) (sv_names s p)"

definition goes :: "nat \<Rightarrow> save_pc \<Rightarrow> saving \<Rightarrow> saving" where
  "goes i pc s = s\<lparr>sv_pc := (sv_pc s)(i := pc)\<rparr>"

definition put :: "nat \<Rightarrow> (fs_file \<Rightarrow> fs_file) \<Rightarrow> saving \<Rightarrow> saving" where
  "put i f s = s\<lparr>sv_data := (sv_data s)(New i := f (sv_data s (New i)))\<rparr>"

text \<open>One step of call \<open>i\<close> of \<open>Save(path0)\<close>, whose system calls end as \<open>io\<close> says. \<open>CreateTemp\<close>
  only ever succeeds with a name that is not in use; \<open>Encode\<close> takes its snapshot in one critical
  section and writes it afterwards; renaming fails when the temporary name is gone.\<close>

definition advance :: "save_io \<Rightarrow> string \<Rightarrow> nat \<Rightarrow> saving \<Rightarrow> saving option" where
  "advance io path0 i s =
     (let path = filepath_Clean path0; tmp = save_temp io path0;
          fails = (\<lambda>msg err. Some (goes i (Removing (Some (Errorf msg err))) s))
      in case sv_pc s i of
           Begun \<Rightarrow>
             (if path = [] \<or> path = ''.'' then Some (goes i (Returned (Some (NewError ''translog: empty log path''))) s)
              else case io_create io of
                Some err \<Rightarrow> Some (goes i (Returned (Some (Errorf ''translog: create temp: '' err))) s)
              | None \<Rightarrow>
                  if sv_names s tmp \<noteq> None then None
                  else Some ((put i (\<lambda>_. \<lparr>f_mode = io_mode io, f_data = [], f_synced = False\<rparr>) (goes i Opened s))
                         \<lparr>sv_names := (sv_names s)(tmp \<mapsto> New i)\<rparr>))
         | Opened \<Rightarrow>
             (case io_chmod io of
                Some err \<Rightarrow> fails ''translog: chmod temp: '' err
              | None \<Rightarrow> Some (put i (\<lambda>f. f\<lparr>f_mode := mode_0600\<rparr>) (goes i Private s)))
         | Private \<Rightarrow> Some (goes i (Snapshot (sv_log s)) s)
         | Snapshot l \<Rightarrow>
             (case io_write io of
                Some (err, n) \<Rightarrow>
                  Some (put i (\<lambda>f. f\<lparr>f_data := take n (Encode_bytes l)\<rparr>)
                    (goes i (Removing (Some (Errorf ''translog: write: '' err))) s))
              | None \<Rightarrow> Some (put i (\<lambda>f. f\<lparr>f_data := Encode_bytes l\<rparr>) (goes i (Written l) s)))
         | Written l \<Rightarrow>
             (case io_sync io of
                Some err \<Rightarrow> fails ''translog: sync: '' err
              | None \<Rightarrow> Some (put i (\<lambda>f. f\<lparr>f_synced := True\<rparr>) (goes i (Synced l) s)))
         | Synced l \<Rightarrow>
             (case io_close io of
                Some err \<Rightarrow> fails ''translog: close temp: '' err
              | None \<Rightarrow> Some (goes i (Closed l) s))
         | Closed l \<Rightarrow>
             (case io_rename io of
                Some err \<Rightarrow> fails ''translog: rename into place: '' err
              | None \<Rightarrow>
                  (case sv_names s tmp of
                     None \<Rightarrow> fails ''translog: rename into place: '' (NewError ''no such file or directory'')
                   | Some k \<Rightarrow>
                       Some ((goes i (Removing None) s)\<lparr>sv_names := ((sv_names s)(tmp := None))(path \<mapsto> k)\<rparr>)))
         | Removing res \<Rightarrow>
             Some ((goes i (Returned res) s)\<lparr>sv_names := (if io_removes io then (sv_names s)(tmp := None) else sv_names s)\<rparr>)
         | Returned res \<Rightarrow> None)"

text \<open>What may happen next: an append, a step of a call, or bytes of a pending write arriving.\<close>

datatype save_act = LogAppend append_call | Advance nat | WriteSome nat nat

type_synonym save_jobs = "nat \<Rightarrow> save_io \<times> string"

fun save_step :: "ed25519 \<Rightarrow> save_jobs \<Rightarrow> save_act \<Rightarrow> saving \<Rightarrow> saving option" where
  "save_step ed J (LogAppend c) s = Some (s\<lparr>sv_log := snd (Append_call ed c (sv_log s))\<rparr>)"
| "save_step ed J (Advance i) s = advance (fst (J i)) (snd (J i)) i s"
| "save_step ed J (WriteSome i n) s =
     (case sv_pc s i of
        Snapshot l \<Rightarrow> Some (put i (\<lambda>f. f\<lparr>f_data := take n (Encode_bytes l)\<rparr>) s)
      | _ \<Rightarrow> None)"

fun save_run :: "ed25519 \<Rightarrow> save_jobs \<Rightarrow> save_act list \<Rightarrow> saving \<Rightarrow> saving option" where
  "save_run ed J [] s = Some s"
| "save_run ed J (a # as) s =
     (case save_step ed J a s of None \<Rightarrow> None | Some s' \<Rightarrow> save_run ed J as s')"

section \<open>Temporary names\<close>

abbreviation job_tmp :: "save_jobs \<Rightarrow> nat \<Rightarrow> string" where
  "job_tmp J i \<equiv> save_temp (fst (J i)) (snd (J i))"

abbreviation job_path :: "save_jobs \<Rightarrow> nat \<Rightarrow> string" where
  "job_path J i \<equiv> filepath_Clean (snd (J i))"

definition tmp_named :: "string \<Rightarrow> bool" where
  "tmp_named p \<longleftrightarrow> suffix ''.tmp'' p"

lemma split_slash_plain: "CHR ''/'' \<notin> set t \<Longrightarrow> split_slash t = [t]"
  by (induction t) auto

lemma split_slash_suffix:
  assumes "CHR ''/'' \<notin> set t"
  shows "\<exists>ys y. split_slash (xs @ t) = ys @ [y @ t]"
proof (induction xs)
  case Nil
  show ?case
    using split_slash_plain [OF assms] by (metis append_Nil)
next
  case (Cons c xs)
  then obtain ys y where *: "split_slash (xs @ t) = ys @ [y @ t]"
    by blast
  show ?case
  proof (cases "c = CHR ''/''")
    case True
    then show ?thesis
      using * by (simp add: exI [of _ "[] # ys"])
  next
    case False
    show ?thesis
    proof (cases ys)
      case Nil
      then show ?thesis
        using False * by (intro exI [of _ "[]"] exI [of _ "c # y"]) simp
    next
      case (Cons a zs)
      then show ?thesis
        using False * by (intro exI [of _ "(c # a) # zs"] exI [of _ y]) simp
    qed
  qed
qed

lemma suffix_join_last: "suffix x (join sep (xs @ [x]))"
  by (induction sep xs rule: join.induct) (auto simp: suffix_def)

lemma Clean_tmp: "\<exists>z. filepath_Clean (xs @ ''.tmp'') = z @ ''.tmp''"
proof -
  define r where "r \<longleftrightarrow> hd (xs @ ''.tmp'') = CHR ''/''"
  obtain ys y where ys: "split_slash (xs @ ''.tmp'') = ys @ [y @ ''.tmp'']"
    using split_slash_suffix [of "''.tmp''" xs] by auto
  have "y @ ''.tmp'' \<noteq> ''..''" "y @ ''.tmp'' \<noteq> ''.''"
    by (cases y; simp)+
  then have "foldl (clean_step r) [] (split_slash (xs @ ''.tmp'')) = foldl (clean_step r) [] ys @ [y @ ''.tmp'']"
    by (simp add: ys clean_step_def)
  moreover obtain z where "join ''/'' (foldl (clean_step r) [] ys @ [y @ ''.tmp'']) = z @ ''.tmp''"
    using suffix_join_last [of "y @ ''.tmp''" "''/''" "foldl (clean_step r) [] ys"] by (auto simp: suffix_def)
  ultimately have "filepath_Clean (xs @ ''.tmp'') = ((if r then ''/'' else []) @ z) @ ''.tmp''"
    by (simp add: filepath_Clean_def Let_def flip: r_def)
  then show ?thesis
    by blast
qed

lemma temp_tmp_named: "tmp_named (save_temp io path0)"
proof -
  obtain xs where "temp_name io (filepath_Dir (filepath_Clean path0)) = xs @ ''.tmp''"
    unfolding temp_name_def by (metis append.assoc)
  then show ?thesis
    using Clean_tmp [of xs] by (auto simp: tmp_named_def save_temp_def suffix_def)
qed

text \<open>Calls that are kept apart: no target looks like a temporary file, and no temporary name is
  drawn twice.\<close>

definition separate :: "save_jobs \<Rightarrow> bool" where
  "separate J \<longleftrightarrow> (\<forall>i. \<not> tmp_named (job_path J i)) \<and> (\<forall>i j. job_tmp J i = job_tmp J j \<longrightarrow> i = j)"

lemma separateD:
  assumes "separate J"
  shows "job_path J i \<noteq> job_tmp J j" "job_tmp J i = job_tmp J j \<longleftrightarrow> i = j"
  using assms temp_tmp_named [of "fst (J j)" "snd (J j)"] unfolding separate_def by metis+

text \<open>What the invariant needs, of the calls and of a run: no target is a temporary name, and no
  call draws the name of a call that is still running. \<open>CreateTemp\<close> refuses a name that is in
  use; a name that is free again, because its file was renamed, it may draw anew.\<close>

definition off_temps :: "save_jobs \<Rightarrow> string \<Rightarrow> bool" where
  "off_temps J p \<longleftrightarrow> (\<forall>j. p \<noteq> job_tmp J j)"

definition targets_off_temps :: "save_jobs \<Rightarrow> bool" where
  "targets_off_temps J \<longleftrightarrow> (\<forall>i. off_temps J (job_path J i))"

fun live :: "save_pc \<Rightarrow> bool" where
  "live Begun \<longleftrightarrow> False"
| "live (Returned res) \<longleftrightarrow> False"
| "live _ \<longleftrightarrow> True"

definition apart :: "save_jobs \<Rightarrow> saving \<Rightarrow> bool" where
  "apart J s \<longleftrightarrow> (\<forall>i j. live (sv_pc s i) \<and> live (sv_pc s j) \<and> job_tmp J i = job_tmp J j \<longrightarrow> i = j)"

fun kept_apart :: "ed25519 \<Rightarrow> save_jobs \<Rightarrow> save_act list \<Rightarrow> saving \<Rightarrow> bool" where
  "kept_apart ed J [] s \<longleftrightarrow> apart J s"
| "kept_apart ed J (a # as) s \<longleftrightarrow> apart J s
     \<and> (case save_step ed J a s of None \<Rightarrow> True | Some s' \<Rightarrow> kept_apart ed J as s')"

lemma targets_off_tempsD: "targets_off_temps J \<Longrightarrow> job_path J i \<noteq> job_tmp J j"
  by (simp add: targets_off_temps_def off_temps_def)

lemma kept_apart_hd: "kept_apart ed J as s \<Longrightarrow> apart J s"
  by (cases as) simp_all

lemma separate_apart:
  assumes "separate J"
  shows "targets_off_temps J" "kept_apart ed J as s"
proof -
  have apart: "apart J s" for s
    using separateD(2) [OF assms] by (simp add: apart_def)
  then show "kept_apart ed J as s"
    by (induction as arbitrary: s) (simp_all split: option.split)
  show "targets_off_temps J"
    using separateD(1) [OF assms] by (simp add: targets_off_temps_def off_temps_def)
qed

section \<open>The invariant\<close>

text \<open>A log between two others: it holds at least \<open>B\<close> and is a state the log \<open>L\<close> has passed
  through.\<close>

definition between :: "Entry list \<Rightarrow> Log \<Rightarrow> Log \<Rightarrow> bool" where
  "between B l L \<longleftrightarrow> l_pub l = l_pub L \<and> prefix B (l_entries l) \<and> prefix (l_entries l) (l_entries L)"

fun file_ok :: "Entry list \<Rightarrow> save_pc \<Rightarrow> fs_file \<Rightarrow> Log \<Rightarrow> bool" where
  "file_ok B Private f L \<longleftrightarrow> f_mode f = mode_0600"
| "file_ok B (Snapshot l) f L \<longleftrightarrow> f_mode f = mode_0600 \<and> between B l L"
| "file_ok B (Written l) f L \<longleftrightarrow> f_mode f = mode_0600 \<and> f_data f = Encode_bytes l \<and> between B l L"
| "file_ok B (Synced l) f L \<longleftrightarrow> f = saved_file l \<and> between B l L"
| "file_ok B (Closed l) f L \<longleftrightarrow> f = saved_file l \<and> between B l L"
| "file_ok B (Removing None) f L \<longleftrightarrow> (\<exists>l. f = saved_file l \<and> between B l L)"
| "file_ok B (Returned None) f L \<longleftrightarrow> (\<exists>l. f = saved_file l \<and> between B l L)"
| "file_ok B _ f L \<longleftrightarrow> True"

fun pending :: "save_pc \<Rightarrow> bool" where
  "pending Begun \<longleftrightarrow> False"
| "pending (Removing res) \<longleftrightarrow> False"
| "pending (Returned res) \<longleftrightarrow> False"
| "pending _ \<longleftrightarrow> True"

definition landed :: "save_pc \<Rightarrow> bool" where
  "landed pc \<longleftrightarrow> pc = Removing None \<or> pc = Returned None"

definition job_ok :: "save_jobs \<Rightarrow> (nat \<Rightarrow> Entry list) \<Rightarrow> saving \<Rightarrow> nat \<Rightarrow> bool" where
  "job_ok J B s i \<longleftrightarrow> prefix (B i) (l_entries (sv_log s))
     \<and> (pending (sv_pc s i) \<longrightarrow> sv_names s (job_tmp J i) = Some (New i))
     \<and> file_ok (B i) (sv_pc s i) (sv_data s (New i)) (sv_log s)"

definition names_ok :: "save_jobs \<Rightarrow> saving \<Rightarrow> saving \<Rightarrow> bool" where
  "names_ok J s0 s \<longleftrightarrow> (\<forall>k. sv_data s (Old k) = sv_data s0 (Old k))
     \<and> (\<forall>p i. sv_names s p = Some (New i) \<longrightarrow> p = job_tmp J i \<or> p = job_path J i \<and> landed (sv_pc s i))
     \<and> (\<forall>p. off_temps J p \<longrightarrow> sv_names s p = sv_names s0 p \<or> (\<exists>i. sv_names s p = Some (New i)))
     \<and> (\<forall>i. landed (sv_pc s i) \<longrightarrow> (\<exists>j. sv_names s (job_path J i) = Some (New j)))"

lemma between_mono: "between B l L \<Longrightarrow> l_pub L' = l_pub L \<Longrightarrow> prefix (l_entries L) (l_entries L') \<Longrightarrow> between B l L'"
  by (auto simp: between_def)

lemma file_ok_mono:
  "file_ok B pc f L \<Longrightarrow> l_pub L' = l_pub L \<Longrightarrow> prefix (l_entries L) (l_entries L') \<Longrightarrow> file_ok B pc f L'"
  by (induction B pc f L rule: file_ok.induct) (auto intro: between_mono)

lemma put_goes_simps [simp]:
  "sv_log (goes i pc s) = sv_log s" "sv_names (goes i pc s) = sv_names s" "sv_data (goes i pc s) = sv_data s"
  "sv_pc (goes i pc s) = (sv_pc s)(i := pc)"
  "sv_log (put i f s) = sv_log s" "sv_names (put i f s) = sv_names s" "sv_pc (put i f s) = sv_pc s"
  "sv_data (put i f s) = (sv_data s)(New i := f (sv_data s (New i)))"
  by (simp_all add: goes_def put_def)

text \<open>What a step of one call leaves alone.\<close>

lemma advance_frame:
  assumes "advance io path0 i s = Some s'"
  shows "sv_log s' = sv_log s" "j \<noteq> i \<Longrightarrow> sv_pc s' j = sv_pc s j" "k \<noteq> New i \<Longrightarrow> sv_data s' k = sv_data s k"
    "q \<noteq> save_temp io path0 \<Longrightarrow> q \<noteq> filepath_Clean path0 \<Longrightarrow> sv_names s' q = sv_names s q"
  using assms by (auto simp: advance_def Let_def split: save_pc.splits option.splits if_splits)

lemma file_ok_returned: "file_ok B (Removing res) f L \<Longrightarrow> file_ok B (Returned res) f L"
  by (cases res) simp_all

lemma advance_own:
  assumes "advance (fst (J i)) (snd (J i)) i s = Some s'" and "job_ok J B s i" and "targets_off_temps J"
  shows "job_ok J B s' i"
  using assms targets_off_tempsD [OF assms(3), of i i]
  by (auto simp: advance_def job_ok_def Let_def between_def saved_file_def intro: file_ok_returned split: save_pc.splits option.splits if_splits)

lemma advance_names:
  assumes "advance io path0 i s = Some s'" and "sv_names s' q \<noteq> sv_names s q"
  shows "q = save_temp io path0
    \<or> q = filepath_Clean path0 \<and> pending (sv_pc s i) \<and> landed (sv_pc s' i) \<and> sv_names s' q = sv_names s (save_temp io path0)"
  using assms by (auto simp: advance_def Let_def landed_def split: save_pc.splits option.splits if_splits)

lemma advance_temp:
  assumes "advance io path0 i s = Some s'" and "save_temp io path0 \<noteq> filepath_Clean path0"
    and "sv_names s' (save_temp io path0) = Some k"
  shows "k = New i \<or> sv_names s (save_temp io path0) = Some k"
  using assms by (auto simp: advance_def Let_def split: save_pc.splits option.splits if_splits)

lemma advance_landed:
  assumes "advance io path0 i s = Some s'" and "landed (sv_pc s j)"
  shows "landed (sv_pc s' j)"
proof (cases "j = i")
  case True
  with assms show ?thesis
    by (auto simp: advance_def Let_def landed_def split: option.splits if_splits)
next
  case False
  with advance_frame(2) [OF assms(1)] assms(2) show ?thesis
    by simp
qed

lemma advance_lands:
  assumes "advance io path0 i s = Some s'" and "landed (sv_pc s' j)"
  shows "landed (sv_pc s j)
    \<or> j = i \<and> pending (sv_pc s i) \<and> sv_names s' (filepath_Clean path0) = sv_names s (save_temp io path0)"
proof (cases "j = i")
  case True
  with assms show ?thesis
    by (auto simp: advance_def Let_def landed_def split: save_pc.splits option.splits if_splits)
next
  case False
  with advance_frame(2) [OF assms(1)] assms(2) show ?thesis
    by simp
qed

lemma advance_live:
  assumes "advance io path0 i s = Some s'" and "sv_names s' q \<noteq> sv_names s q"
  shows "live (sv_pc s i) \<or> live (sv_pc s' i)"
  using assms by (auto simp: advance_def Let_def split: save_pc.splits option.splits if_splits)

lemma pending_live: "pending pc \<Longrightarrow> live pc"
  by (cases pc) simp_all

text \<open>The temporary name of another call under way is not touched.\<close>

lemma advance_other_temp:
  assumes "advance (fst (J i)) (snd (J i)) i s = Some s'" and "targets_off_temps J" and "apart J s" and "apart J s'"
    and "j \<noteq> i" and "live (sv_pc s j)"
  shows "sv_names s' (job_tmp J j) = sv_names s (job_tmp J j)"
proof (rule ccontr)
  assume changed: "sv_names s' (job_tmp J j) \<noteq> sv_names s (job_tmp J j)"
  then have "job_tmp J j = job_tmp J i"
    using advance_frame(4) [OF assms(1)] targets_off_tempsD [OF assms(2), of i j] by metis
  moreover have "live (sv_pc s i) \<or> live (sv_pc s' i)"
    by (rule advance_live [OF assms(1) changed])
  moreover have "sv_pc s' j = sv_pc s j"
    using advance_frame(2) [OF assms(1)] assms(5) by blast
  ultimately show False
    using assms(3-6) unfolding apart_def by metis
qed

lemma advance_job_ok:
  assumes "advance (fst (J i)) (snd (J i)) i s = Some s'" and "\<And>j. job_ok J B s j" and "targets_off_temps J"
    and "apart J s" and "apart J s'"
  shows "job_ok J B s' j"
proof (cases "j = i")
  case True
  with assms advance_own show ?thesis
    by blast
next
  case False
  then have "pending (sv_pc s j) \<Longrightarrow> sv_names s' (job_tmp J j) = sv_names s (job_tmp J j)"
    using advance_other_temp [OF assms(1,3-5)] pending_live by blast
  with False assms(2) [of j] advance_frame(1-3) [OF assms(1)] show ?thesis
    by (auto simp: job_ok_def)
qed

lemma advance_names_ok:
  assumes "advance (fst (J i)) (snd (J i)) i s = Some s'" and "\<And>j. job_ok J B s j" and "names_ok J s0 s" and "targets_off_temps J"
  shows "names_ok J s0 s'"
proof -
  have tmp: "pending (sv_pc s i) \<Longrightarrow> sv_names s (job_tmp J i) = Some (New i)"
    using assms(2) by (simp add: job_ok_def)
  have new: "p = job_tmp J j \<or> p = job_path J j \<and> landed (sv_pc s' j)" if "sv_names s' p = Some (New j)" for p j
  proof (cases "sv_names s' p = sv_names s p")
    case True
    with that assms(3) advance_landed [OF assms(1)] show ?thesis
      unfolding names_ok_def by metis
  next
    case False
    from advance_names [OF assms(1) this] show ?thesis
    proof
      assume p: "p = job_tmp J i"
      with advance_temp [OF assms(1)] that targets_off_tempsD [OF assms(4)] False show ?thesis
        by (metis inode.inject(2))
    qed (use that tmp in auto)
  qed
  moreover have "sv_names s' p = sv_names s0 p \<or> (\<exists>j. sv_names s' p = Some (New j))" if "off_temps J p" for p
  proof (cases "sv_names s' p = sv_names s p")
    case True
    with assms(3) that show ?thesis
      by (simp add: names_ok_def)
  next
    case False
    from advance_names [OF assms(1) this] that tmp show ?thesis
      by (auto simp: off_temps_def)
  qed
  moreover have "\<exists>k. sv_names s' (job_path J j) = Some (New k)" if "landed (sv_pc s' j)" for j
    using advance_lands [OF assms(1) that]
  proof
    assume "landed (sv_pc s j)"
    then obtain k where "sv_names s (job_path J j) = Some (New k)"
      using assms(3) unfolding names_ok_def by blast
    then show ?thesis
      using advance_names [OF assms(1), of "job_path J j"] tmp targets_off_tempsD [OF assms(4), of j i]
      by (cases "sv_names s' (job_path J j) = sv_names s (job_path J j)") auto
  qed (use tmp in auto)
  moreover have "sv_data s' (Old k) = sv_data s0 (Old k)" for k
    using advance_frame(3) [OF assms(1), of "Old k"] assms(3) by (simp add: names_ok_def)
  ultimately show ?thesis
    unfolding names_ok_def by blast
qed

text \<open>Appends only lengthen the log; the bytes of a pending write only reach the writer's own
  temporary file.\<close>

lemma Append_call_prefix: "prefix (l_entries l) (l_entries (snd (Append_call ed c l)))" "l_pub (snd (Append_call ed c l)) = l_pub l"
  using tl.append_grows [of ed c l] by (auto simp: Append_call_def split: prod.splits)

lemma save_step_invariant:
  assumes "save_step ed J a s = Some s'" and "\<And>j. job_ok J B s j" and "names_ok J s0 s" and "targets_off_temps J"
    and "apart J s" and "apart J s'"
  shows "(\<forall>j. job_ok J B s' j) \<and> names_ok J s0 s'"
proof (cases a)
  case (LogAppend c)
  then have s': "s' = s\<lparr>sv_log := snd (Append_call ed c (sv_log s))\<rparr>"
    using assms(1) by simp
  note grows = Append_call_prefix [where l = "sv_log s" and ed = ed and c = c]
  have "job_ok J B s' j" for j
    using assms(2) [of j] grows file_ok_mono [OF _ grows(2,1)] by (auto simp: job_ok_def s')
  moreover have "names_ok J s0 s'"
    using assms(3) by (simp add: names_ok_def s')
  ultimately show ?thesis
    by blast
next
  case (Advance i)
  with assms advance_job_ok advance_names_ok show ?thesis
    by (metis save_step.simps(2))
next
  case (WriteSome i n)
  with assms(1) obtain l where l: "sv_pc s i = Snapshot l"
    and s': "s' = put i (\<lambda>f. f\<lparr>f_data := take n (Encode_bytes l)\<rparr>) s"
    by (auto split: save_pc.splits)
  have "job_ok J B s' j" for j
    using assms(2) [of j] l by (cases "j = i") (auto simp: job_ok_def s')
  moreover have "names_ok J s0 s'"
    using assms(3) by (simp add: names_ok_def s')
  ultimately show ?thesis
    by blast
qed

lemma save_run_invariant:
  assumes "save_run ed J as s = Some s'" and "\<And>j. job_ok J B s j" and "names_ok J s0 s" and "targets_off_temps J"
    and "kept_apart ed J as s"
  shows "(\<forall>j. job_ok J B s' j) \<and> names_ok J s0 s'"
  using assms(1-3,5)
proof (induction as arbitrary: s)
  case (Cons a as)
  from Cons.prems(1) obtain s1 where s1: "save_step ed J a s = Some s1" "save_run ed J as s1 = Some s'"
    by (auto split: option.splits)
  then have "apart J s" and kept: "kept_apart ed J as s1"
    using Cons.prems(4) by simp_all
  from save_step_invariant [OF s1(1) Cons.prems(2,3) assms(4) this(1) kept_apart_hd [OF this(2)]] Cons.IH [OF s1(2) _ _ kept]
  show ?case
    by blast
qed auto

section \<open>What a reader finds\<close>

text \<open>Before any call: nothing is under way and no name refers to a file of a call.\<close>

definition at_rest :: "saving \<Rightarrow> bool" where
  "at_rest s \<longleftrightarrow> (\<forall>i. sv_pc s i = Begun) \<and> (\<forall>p i. sv_names s p \<noteq> Some (New i))"

lemma at_rest_ok: "at_rest s \<Longrightarrow> job_ok J (\<lambda>_. []) s i" "at_rest s \<Longrightarrow> names_ok J s s"
  by (simp_all add: at_rest_def job_ok_def names_ok_def landed_def)

definition binding_widths :: "save_act list \<Rightarrow> bool" where
  "binding_widths as \<longleftrightarrow> (\<forall>key d b t. LogAppend (key, d, b, t) \<in> set as \<longrightarrow> length b = 32)"

lemma binding_widths_Cons: "binding_widths (a # as) \<Longrightarrow> binding_widths as"
  unfolding binding_widths_def by (meson list.set_intros(2))

lemma save_run_storable:
  assumes "save_run ed J as s = Some s'" and "storable ed (sv_log s)" and "binding_widths as"
  shows "storable ed (sv_log s')"
  using assms
proof (induction as arbitrary: s)
  case (Cons a as)
  from Cons.prems(1) obtain s1 where s1: "save_step ed J a s = Some s1" "save_run ed J as s1 = Some s'"
    by (auto split: option.splits)
  have "storable ed (sv_log s1)"
  proof (cases a)
    case (LogAppend c)
    with s1(1) Cons.prems(2,3) storable_Append show ?thesis
      by (cases c) (auto simp: Append_call_def binding_widths_def)
  next
    case (Advance i)
    with s1(1) Cons.prems(2) advance_frame(1) show ?thesis
      by simp
  next
    case (WriteSome i n)
    with s1(1) Cons.prems(2) show ?thesis
      by (auto split: save_pc.splits)
  qed
  with Cons.IH [OF s1(2)] binding_widths_Cons [OF Cons.prems(3)] show ?case
    by blast
qed simp

lemma sound_entries_append: "sound_entries ed pub (es @ zs) \<Longrightarrow> sound_entries ed pub es"
  by (induction zs rule: rev_induct) (simp_all add: sound_entries_snoc flip: append_assoc)

lemma sound_entries_prefix: "sound_entries ed pub es \<Longrightarrow> prefix es' es \<Longrightarrow> sound_entries ed pub es'"
  by (auto simp: prefix_def sound_entries_append)

lemma storable_between:
  assumes "storable ed L" and "between B l L"
  shows "storable ed l"
  using assms sound_entries_prefix [of ed "l_pub L" "l_entries L" "l_entries l"] set_mono_prefix [of "l_entries l" "l_entries L"]
  by (auto simp: storable_def between_def Log_Verify_iff wf_entries_def prefix_length_le)

text \<open>The file of a call that has put it in place.\<close>

lemma landed_file:
  assumes "job_ok J B s i" and "landed (sv_pc s i)"
  obtains l where "sv_data s (New i) = saved_file l" "between (B i) l (sv_log s)"
  using assms by (auto simp: job_ok_def landed_def)

lemma new_name_landed:
  assumes "names_ok J s0 s" and "sv_names s p = Some (New i)" and "off_temps J p"
  shows "p = job_path J i \<and> landed (sv_pc s i)"
proof -
  have "p \<noteq> job_tmp J i"
    using assms(3) by (simp add: off_temps_def)
  with assms(1,2) show ?thesis
    unfolding names_ok_def by blast
qed

text \<open>C18. A saved log is never torn. Start from a log that verifies and has 32-byte fields, let any
  number of \<open>Save\<close> calls and \<open>Append\<close> calls interleave, let any of their system calls fail, and
  stop anywhere, provided that no target is a temporary name and no call draws a temporary name
  while another call that drew it is still running. A path that is no temporary name then holds
  exactly what it held before, or a synced file of mode 0600 with the complete encoding of a log
  that the current one extends; \<open>LoadLog\<close> returns that very log if it has at most 100000 entries,
  and an error if it has more.\<close>

theorem saved_file_always_loads:
  assumes "at_rest s0" and "targets_off_temps J" and "save_run ed J as s0 = Some s" and "kept_apart ed J as s0"
    and "storable ed (sv_log s0)" and "binding_widths as" and "off_temps J (filepath_Clean path)"
  shows "fs_of s (filepath_Clean path) = fs_of s0 (filepath_Clean path)
    \<or> (\<exists>l. fs_of s (filepath_Clean path) = Some (saved_file l) \<and> l_pub l = l_pub (sv_log s)
         \<and> prefix (l_entries l) (l_entries (sv_log s))
         \<and> (if Log_Len l \<le> 100000 then LoadLog ed tx None None path (fs_of s) = Return (Inr l)
            else \<exists>err. LoadLog ed tx None None path (fs_of s) = Return (Inl err)))"
proof -
  let ?p = "filepath_Clean path"
  have inv: "\<And>j. job_ok J (\<lambda>_. []) s j" "names_ok J s0 s"
    using save_run_invariant [OF assms(3) at_rest_ok(1,2) [OF assms(1)] assms(2,4)] by blast+
  consider "sv_names s ?p = sv_names s0 ?p" | i where "sv_names s ?p = Some (New i)"
    using inv(2) assms(7) unfolding names_ok_def by blast
  then show ?thesis
  proof cases
    case 1
    then have "fs_of s ?p = fs_of s0 ?p"
      using inv(2) assms(1) by (cases "sv_names s0 ?p"; cases "the (sv_names s0 ?p)")
        (auto simp: fs_of_def names_ok_def at_rest_def)
    then show ?thesis ..
  next
    case (2 i)
    then have "landed (sv_pc s i)"
      using new_name_landed [OF inv(2) _ assms(7)] by blast
    then obtain l where l: "sv_data s (New i) = saved_file l" "between [] l (sv_log s)"
      using landed_file [OF inv(1)] by blast
    have "fs_of s ?p = Some (saved_file l)"
      using 2 l(1) by (simp add: fs_of_def)
    with LoadLog_saved_cap [of "fs_of s" path l, OF this storable_between [OF save_run_storable [OF assms(3,5,6)] l(2)]] l(2)
    show ?thesis
      by (auto simp: between_def)
  qed
qed

text \<open>C19. A nil from \<open>Save\<close> means durable, from such a log and under the same two conditions on
  names: when the
  call began at a moment at which the log was \<open>sv_log s1\<close> and no other call targets its path,
  then once it has returned nil the path holds, now and after any further steps, the synced
  encoding of a log that contains every record of that moment. \<open>LoadLog\<close> returns that log if it
  has at most 100000 entries; a longer one has been saved with nil and is refused.\<close>

theorem Save_durable:
  assumes "at_rest s0" and "targets_off_temps J" and "save_run ed J as1 s0 = Some s1" and "save_run ed J as2 s1 = Some s"
    and "kept_apart ed J as1 s0" and "kept_apart ed J as2 s1"
    and "storable ed (sv_log s0)" and "binding_widths (as1 @ as2)"
    and "sv_pc s1 i = Begun" and "sv_pc s i = Returned None" and "\<And>j. j \<noteq> i \<Longrightarrow> job_path J j \<noteq> job_path J i"
  shows "\<exists>l. fs_of s (job_path J i) = Some (saved_file l) \<and> l_pub l = l_pub (sv_log s)
    \<and> prefix (l_entries (sv_log s1)) (l_entries l) \<and> prefix (l_entries l) (l_entries (sv_log s))
    \<and> (if Log_Len l \<le> 100000 then LoadLog ed tx None None (snd (J i)) (fs_of s) = Return (Inr l)
       else \<exists>err. LoadLog ed tx None None (snd (J i)) (fs_of s) = Return (Inl err))"
proof -
  let ?B = "(\<lambda>_. [])(i := l_entries (sv_log s1))"
  have widths: "binding_widths as1" "binding_widths as2"
    using assms(8) by (auto simp: binding_widths_def)
  have s1: "\<And>j. job_ok J (\<lambda>_. []) s1 j" "names_ok J s0 s1"
    using save_run_invariant [OF assms(3) at_rest_ok(1,2) [OF assms(1)] assms(2,5)] by blast+
  then have "job_ok J ?B s1 j" for j
    using assms(9) s1(1) [of j] by (simp add: job_ok_def)
  then have inv: "\<And>j. job_ok J ?B s j" "names_ok J s0 s"
    using save_run_invariant [OF assms(4) _ s1(2) assms(2,6)] by blast+
  have landed: "landed (sv_pc s i)"
    using assms(10) by (simp add: landed_def)
  then obtain l where l: "sv_data s (New i) = saved_file l" "between (l_entries (sv_log s1)) l (sv_log s)"
    using landed_file [OF inv(1) [of i]] by auto
  obtain j where j: "sv_names s (job_path J i) = Some (New j)"
    using inv(2) landed unfolding names_ok_def by blast
  then have "j = i"
    using new_name_landed [OF inv(2)] assms(2,11) unfolding targets_off_temps_def by metis
  then have here: "fs_of s (job_path J i) = Some (saved_file l)"
    using j l(1) by (simp add: fs_of_def)
  have "storable ed (sv_log s)"
    using save_run_storable [OF assms(4) save_run_storable [OF assms(3,7)]] widths by blast
  with LoadLog_saved_cap [of "fs_of s" "snd (J i)" l, OF here storable_between [OF this l(2)]] l(2) here show ?thesis
    by (auto simp: between_def)
qed

section \<open>One call alone\<close>

fun solo :: "save_io \<Rightarrow> string \<Rightarrow> nat \<Rightarrow> nat \<Rightarrow> saving \<Rightarrow> saving list" where
  "solo io path0 i 0 s = [s]"
| "solo io path0 i (Suc n) s = s # (case advance io path0 i s of None \<Rightarrow> [] | Some s' \<Rightarrow> solo io path0 i n s')"

text \<open>The states a lone call passes through: its temporary file and its program counter change,
  nothing else.\<close>

definition with_temp :: "nat \<Rightarrow> string \<Rightarrow> fs_file \<Rightarrow> save_pc \<Rightarrow> saving \<Rightarrow> saving" where
  "with_temp i tmp f pc s =
     s\<lparr>sv_names := (sv_names s)(tmp \<mapsto> New i), sv_data := (sv_data s)(New i := f), sv_pc := (sv_pc s)(i := pc)\<rparr>"

definition read_names :: "(inode \<Rightarrow> fs_file) \<Rightarrow> (string \<rightharpoonup> inode) \<Rightarrow> fs" where
  "read_names d m = (\<lambda>p. map_option d (m p))"

lemma fs_of_read_names: "fs_of s = read_names (sv_data s) (sv_names s)"
  by (simp add: fs_of_def read_names_def fun_eq_iff)

lemma read_names_upd: "read_names d (m(p := x)) = (read_names d m)(p := map_option d x)"
  by (simp add: read_names_def fun_eq_iff)

lemma read_names_fresh:
  assumes "\<And>p. sv_names s p \<noteq> Some (New i)"
  shows "read_names ((sv_data s)(New i := f)) (sv_names s) = fs_of s"
proof -
  have "map_option ((sv_data s)(New i := f)) (sv_names s q) = map_option (sv_data s) (sv_names s q)" for q
    using assms [of q] by (cases "sv_names s q") auto
  then show ?thesis
    by (simp add: read_names_def fs_of_def fun_eq_iff)
qed

lemma with_temp_sel:
  "sv_pc (with_temp i tmp f pc s) i = pc" "sv_log (with_temp i tmp f pc s) = sv_log s"
  "sv_names (with_temp i tmp f pc s) = (sv_names s)(tmp \<mapsto> New i)" "sv_data (with_temp i tmp f pc s) = (sv_data s)(New i := f)"
  "goes i pc' (with_temp i tmp f pc s) = with_temp i tmp f pc' s"
  "put i g (with_temp i tmp f pc s) = with_temp i tmp (g f) pc s"
  "goes i pc (s\<lparr>sv_names := m\<rparr>) = (goes i pc s)\<lparr>sv_names := m\<rparr>"
  "(put i (\<lambda>_. f) (goes i pc s))\<lparr>sv_names := (sv_names s)(tmp \<mapsto> New i)\<rparr> = with_temp i tmp f pc s"
  by (simp_all add: with_temp_def goes_def put_def)

text \<open>The steps of the lone call, one equation for each program counter.\<close>

lemma advance_Begun:
  assumes "sv_pc s i = Begun" and "sv_names s (save_temp io path0) = None"
  shows "advance io path0 i s =
    (if filepath_Clean path0 = [] \<or> filepath_Clean path0 = ''.''
     then Some (goes i (Returned (Some (NewError ''translog: empty log path''))) s)
     else case io_create io of
       Some err \<Rightarrow> Some (goes i (Returned (Some (Errorf ''translog: create temp: '' err))) s)
     | None \<Rightarrow> Some (with_temp i (save_temp io path0) \<lparr>f_mode = io_mode io, f_data = [], f_synced = False\<rparr> Opened s))"
  using assms by (simp add: advance_def Let_def with_temp_sel split: option.split)

lemma advance_with_temp:
  assumes "w = (\<lambda>f pc. with_temp i (save_temp io path0) f pc s)"
  shows "advance io path0 i (w f Opened) =
      Some (case io_chmod io of Some err \<Rightarrow> w f (Removing (Some (Errorf ''translog: chmod temp: '' err)))
            | None \<Rightarrow> w (f\<lparr>f_mode := mode_0600\<rparr>) Private)"
    "advance io path0 i (w f Private) = Some (w f (Snapshot (sv_log s)))"
    "advance io path0 i (w f (Snapshot l)) =
      Some (case io_write io of
              Some en \<Rightarrow> w (f\<lparr>f_data := take (snd en) (Encode_bytes l)\<rparr>) (Removing (Some (Errorf ''translog: write: '' (fst en))))
            | None \<Rightarrow> w (f\<lparr>f_data := Encode_bytes l\<rparr>) (Written l))"
    "advance io path0 i (w f (Written l)) =
      Some (case io_sync io of Some err \<Rightarrow> w f (Removing (Some (Errorf ''translog: sync: '' err)))
            | None \<Rightarrow> w (f\<lparr>f_synced := True\<rparr>) (Synced l))"
    "advance io path0 i (w f (Synced l)) =
      Some (case io_close io of Some err \<Rightarrow> w f (Removing (Some (Errorf ''translog: close temp: '' err)))
            | None \<Rightarrow> w f (Closed l))"
    "advance io path0 i (w f (Closed l)) =
      Some (case io_rename io of Some err \<Rightarrow> w f (Removing (Some (Errorf ''translog: rename into place: '' err)))
            | None \<Rightarrow> (w f (Removing None))\<lparr>sv_names := ((sv_names s)(save_temp io path0 := None))(filepath_Clean path0 \<mapsto> New i)\<rparr>)"
  using assms by (simp_all add: advance_def Let_def with_temp_sel split: option.split)

lemma advance_Removing:
  assumes "sv_pc x i = Removing res"
  shows "advance io path0 i x =
    Some ((goes i (Returned res) x)\<lparr>sv_names := (if io_removes io then (sv_names x)(save_temp io path0 := None) else sv_names x)\<rparr>)"
  using assms by (simp add: advance_def Let_def)

lemma advance_Returned: "sv_pc x i = Returned res \<Longrightarrow> advance io path0 i x = None"
  by (simp add: advance_def Let_def)

text \<open>The deferred removal ends every call that has opened its file.\<close>

lemma solo_Removing:
  assumes "sv_pc x i = Removing res"
  shows "\<exists>y. solo io path0 i (Suc (Suc n)) x = [x, y] \<and> sv_pc y i = Returned res
    \<and> fs_of y = remove_temp io (save_temp io path0) (fs_of x)"
  by (simp add: advance_Removing [OF assms] advance_Returned [of _ i res] remove_temp_def fs_of_read_names read_names_upd)

lemma fs_of_with_temp:
  assumes "\<And>p. sv_names s p \<noteq> Some (New i)"
  shows "fs_of (with_temp i tmp f pc s) = (fs_of s)(tmp \<mapsto> f)"
    "fs_of ((with_temp i tmp f pc s)\<lparr>sv_names := ((sv_names s)(tmp := None))(p \<mapsto> New i)\<rparr>) = ((fs_of s)(tmp := None))(p \<mapsto> f)"
  using read_names_fresh [OF assms, of f] by (simp_all add: fs_of_read_names [of "with_temp i tmp f pc s"]
      fs_of_read_names [of "(with_temp i tmp f pc s)\<lparr>sv_names := _\<rparr>"] with_temp_sel read_names_upd)

definition ends_as :: "nat \<Rightarrow> saving list \<Rightarrow> goerror option \<times> fs list \<Rightarrow> bool" where
  "ends_as i xs r \<longleftrightarrow> xs \<noteq> [] \<and> snd r \<noteq> [] \<and> set (map fs_of xs) = set (snd r)
     \<and> sv_pc (last xs) i = Returned (fst r) \<and> fs_of (last xs) = last (snd r)"

lemma ends_as_Cons: "ends_as i xs (res, ss) \<Longrightarrow> ends_as i (x # xs) (res, fs_of x # ss)"
  by (auto simp: ends_as_def)

lemma ends_as_stutter: "ends_as i xs (res, ss) \<Longrightarrow> fs_of x \<in> set ss \<Longrightarrow> ends_as i (x # xs) (res, ss)"
  by (auto simp: ends_as_def)

lemma ends_as_Removing:
  assumes "sv_pc x i = Removing res"
  shows "ends_as i (solo io path0 i (Suc (Suc n)) x) (res, [fs_of x, remove_temp io (save_temp io path0) (fs_of x)])"
proof -
  obtain y where "solo io path0 i (Suc (Suc n)) x = [x, y]" "sv_pc y i = Returned res"
    "fs_of y = remove_temp io (save_temp io path0) (fs_of x)"
    using solo_Removing [OF assms] by blast
  then show ?thesis
    by (simp add: ends_as_def del: solo.simps)
qed

lemma solo_Suc: "advance io path0 i s = Some s' \<Longrightarrow> solo io path0 i (Suc n) s = s # solo io path0 i n s'"
  by simp

lemma solo_ok:
  assumes "advance io path0 i x = Some y" and "ends_as i (solo io path0 i n y) (res, ss)"
  shows "ends_as i (solo io path0 i (Suc n) x) (res, fs_of x # ss)"
    and "fs_of x \<in> set ss \<Longrightarrow> ends_as i (solo io path0 i (Suc n) x) (res, ss)"
  using assms(2) ends_as_Cons ends_as_stutter unfolding solo_Suc [OF assms(1)] by blast+

lemma solo_fails:
  assumes "advance io path0 i x = Some y" and "sv_pc y i = Removing res"
  shows "ends_as i (solo io path0 i (Suc (Suc (Suc n))) x)
      (res, [fs_of x, fs_of y, remove_temp io (save_temp io path0) (fs_of y)])"
    and "fs_of x = fs_of y \<Longrightarrow> ends_as i (solo io path0 i (Suc (Suc (Suc n))) x)
      (res, [fs_of y, remove_temp io (save_temp io path0) (fs_of y)])"
  using solo_ok [OF assms(1) ends_as_Removing [OF assms(2)]] by auto

text \<open>From the written file to the end, and from the opened file to the written one.\<close>

lemma solo_Written:
  assumes fresh: "\<And>p. sv_names s p \<noteq> Some (New i)" and tmp: "tmp = save_temp io path0"
    and w: "w = (\<lambda>f pc. with_temp i tmp f pc s)" and F: "F = (\<lambda>f. (fs_of s)(tmp \<mapsto> f))"
    and G: "G = (\<lambda>f. ((fs_of s)(tmp := None))(filepath_Clean path0 \<mapsto> f))" and f': "f' = f\<lparr>f_synced := True\<rparr>"
  shows "ends_as i (solo io path0 i (Suc (Suc (Suc (Suc (Suc n))))) (w f (Written l)))
    (case io_sync io of
       Some err \<Rightarrow> (Some (Errorf ''translog: sync: '' err), [F f, remove_temp io tmp (F f)])
     | None \<Rightarrow>
    (case io_close io of
       Some err \<Rightarrow> (Some (Errorf ''translog: close temp: '' err), [F f, F f', remove_temp io tmp (F f')])
     | None \<Rightarrow>
    (case io_rename io of
       Some err \<Rightarrow> (Some (Errorf ''translog: rename into place: '' err), [F f, F f', remove_temp io tmp (F f')])
     | None \<Rightarrow> (None, [F f, F f', G f', remove_temp io tmp (G f')]))))"
proof -
  note sel = w F G tmp fs_of_with_temp [OF fresh] with_temp_sel
  have adv: "w = (\<lambda>f pc. with_temp i (save_temp io path0) f pc s)"
    using w tmp by simp
  note adv = advance_with_temp [OF adv]
  show ?thesis
  proof (cases "io_sync io")
    case (Some err)
    with solo_fails(2) [where n = "Suc (Suc n)", OF adv(4) [of f l]] show ?thesis
      by (simp add: sel del: solo.simps)
  next
    case None
    note written = solo_ok(1) [OF adv(4) [of f l, unfolded None option.case]]
    show ?thesis
    proof (cases "io_close io")
      case (Some err)
      with solo_fails(2) [where n = "Suc n", OF adv(5) [of f' l]] written None show ?thesis
        by (simp add: sel f' del: solo.simps)
    next
      case close: None
      note synced = solo_ok(2) [OF adv(5) [of f' l, unfolded close option.case]]
      show ?thesis
      proof (cases "io_rename io")
        case (Some err)
        with solo_fails(2) [where n = n, OF adv(6) [of f' l]] synced written None close show ?thesis
          by (simp add: sel f' del: solo.simps)
      next
        case rename: None
        with solo_fails(1) [where n = n, OF adv(6) [of f' l]] synced written None close show ?thesis
          by (simp add: sel f' del: solo.simps)
      qed
    qed
  qed
qed

lemma solo_Opened:
  assumes fresh: "\<And>p. sv_names s p \<noteq> Some (New i)" and tmp: "tmp = save_temp io path0"
    and w: "w = (\<lambda>f pc. with_temp i tmp f pc s)" and F: "F = (\<lambda>f. (fs_of s)(tmp \<mapsto> f))"
    and f: "f = \<lparr>f_mode = io_mode io, f_data = [], f_synced = False\<rparr>"
    and path: "filepath_Clean path0 \<noteq> []" "filepath_Clean path0 \<noteq> ''.''" and create: "io_create io = None"
    and save: "Save io (sv_log s) path0 (fs_of s) = (res, fs_of s # ss)"
  shows "ends_as i (solo io path0 i (Suc (Suc (Suc (Suc (Suc (Suc (Suc (Suc n)))))))) (w f Opened)) (res, ss)"
proof -
  note sel = w F tmp fs_of_with_temp [OF fresh] with_temp_sel
  have adv: "w = (\<lambda>f pc. with_temp i (save_temp io path0) f pc s)"
    using w tmp by simp
  note adv = advance_with_temp [OF adv]
  note save = save [unfolded Save_def Let_def, folded save_temp_def, simplified path create, simplified, folded tmp]
  show ?thesis
  proof (cases "io_chmod io")
    case (Some err)
    with solo_fails(2) [where n = "Suc (Suc (Suc (Suc (Suc n))))", OF adv(1) [of f]] save show ?thesis
      by (auto simp: sel f simp del: solo.simps)
  next
    case chmod: None
    let ?f1 = "f\<lparr>f_mode := mode_0600\<rparr>" and ?l = "sv_log s"
    note opened = solo_ok(1) [OF adv(1) [of f, unfolded chmod option.case]] and moded = solo_ok(2) [OF adv(2) [of ?f1]]
    show ?thesis
    proof (cases "io_write io")
      case (Some en)
      with solo_fails(1) [where n = "Suc (Suc (Suc n))", OF adv(3) [of ?f1 ?l]] moded opened save chmod show ?thesis
        by (cases en) (auto simp: sel f simp del: solo.simps)
    next
      case wrote: None
      note snapshot = solo_ok(1) [OF adv(3) [of ?f1 ?l, unfolded wrote option.case]]
      from solo_Written [OF fresh tmp w F refl refl, of n "?f1\<lparr>f_data := Encode_bytes ?l\<rparr>" ?l] snapshot moded opened save chmod wrote
      show ?thesis
        by (auto simp: sel f simp del: solo.simps split: option.splits)
    qed
  qed
qed

lemma solo_refused:
  assumes "advance io path0 i s = Some (goes i (Returned res) s)"
  shows "ends_as i (solo io path0 i (Suc (Suc n)) s) (res, [fs_of s])"
  by (simp add: assms advance_Returned [of _ i res] ends_as_def fs_of_read_names)

lemma Save_refused:
  "filepath_Clean path0 = [] \<or> filepath_Clean path0 = ''.'' \<Longrightarrow>
     Save io l path0 s0 = (Some (NewError ''translog: empty log path''), [s0])"
  "filepath_Clean path0 \<noteq> [] \<Longrightarrow> filepath_Clean path0 \<noteq> ''.'' \<Longrightarrow> io_create io = Some err \<Longrightarrow>
     Save io l path0 s0 = (Some (Errorf ''translog: create temp: '' err), [s0])"
  by (auto simp: Save_def Let_def)

lemma Save_hd: "\<exists>ss. snd (Save io l path0 s0) = s0 # ss"
  by (simp add: Save_def Let_def split: option.split prod.split)

text \<open>The steps are the steps of \<open>Save\<close>: a call that runs alone, on a name \<open>CreateTemp\<close> may
  draw, passes through exactly the file system states of \<open>Save\<close>, ends in the last of them and
  returns what \<open>Save\<close> returns, whatever system call fails.\<close>

lemma Save_is_solo:
  assumes "sv_pc s i = Begun" and "sv_names s (save_temp io path0) = None" and "\<And>p. sv_names s p \<noteq> Some (New i)"
    and "Save io (sv_log s) path0 (fs_of s) = (res, ss)"
  shows "set (map fs_of (solo io path0 i 9 s)) = set ss
    \<and> sv_pc (last (solo io path0 i 9 s)) i = Returned res \<and> fs_of (last (solo io path0 i 9 s)) = last ss"
proof -
  note adv = advance_Begun [OF assms(1,2)]
  have "ends_as i (solo io path0 i 9 s) (res, ss)"
  proof (cases "filepath_Clean path0 = [] \<or> filepath_Clean path0 = ''.'' \<or> io_create io \<noteq> None")
    case True
    then obtain err where "advance io path0 i s = Some (goes i (Returned (Some err)) s)"
      and "Save io (sv_log s) path0 (fs_of s) = (Some err, [fs_of s])"
      using adv Save_refused [where io = io and l = "sv_log s" and ?s0.0 = "fs_of s" and ?path0.0 = path0]
      by (cases "filepath_Clean path0 = [] \<or> filepath_Clean path0 = ''.''") auto
    with solo_refused [of io path0 i s "Some err" 7] assms(4) show ?thesis
      by (simp add: eval_nat_numeral del: solo.simps)
  next
    case False
    obtain ss' where ss: "ss = fs_of s # ss'"
      using Save_hd [of io "sv_log s" path0 "fs_of s"] by (auto simp: assms(4))
    with solo_Opened [OF assms(3) refl refl refl refl, of path0 io res ss' 0] False assms(4)
      solo_ok(1) [of io path0 i s] adv show ?thesis
      by (simp add: eval_nat_numeral del: solo.simps)
  qed
  then show ?thesis
    by (simp add: ends_as_def)
qed

section \<open>Runs of calls that meet no error\<close>

definition smooth :: "save_io \<times> string \<Rightarrow> bool" where
  "smooth j \<longleftrightarrow> io_create (fst j) = None \<and> io_chmod (fst j) = None \<and> io_write (fst j) = None \<and> io_sync (fst j) = None
     \<and> io_close (fst j) = None \<and> io_rename (fst j) = None \<and> io_removes (fst j)
     \<and> filepath_Clean (snd j) \<noteq> [] \<and> filepath_Clean (snd j) \<noteq> ''.''"

lemma save_run_append:
  "save_run ed J (as @ bs) s = (case save_run ed J as s of None \<Rightarrow> None | Some s' \<Rightarrow> save_run ed J bs s')"
  by (induction as arbitrary: s) (auto split: option.splits)

definition temp_file :: "save_io \<Rightarrow> fs_file" where
  "temp_file io = \<lparr>f_mode = io_mode io, f_data = [], f_synced = False\<rparr>"

text \<open>Creating the file; up to the snapshot; up to the closed file; renaming; removing.\<close>

lemma run_creates:
  assumes "smooth (J i)" and "sv_pc s i = Begun" and "sv_names s (job_tmp J i) = None"
  shows "save_run ed J [Advance i] s = Some (with_temp i (job_tmp J i) (temp_file (fst (J i))) Opened s)"
  using assms by (simp add: advance_Begun [OF assms(2,3)] smooth_def temp_file_def)

lemma run_snapshots:
  assumes "smooth (J i)" and "sv_pc x i = Opened"
  shows "save_run ed J [Advance i, Advance i] x = Some (goes i (Snapshot (sv_log x)) (put i (\<lambda>f. f\<lparr>f_mode := mode_0600\<rparr>) x))"
  using assms by (simp add: advance_def smooth_def Let_def goes_def put_def)

lemma run_closes:
  assumes "smooth (J i)" and "sv_pc x i = Snapshot l"
  shows "save_run ed J [Advance i, Advance i, Advance i] x
    = Some (goes i (Closed l) (put i (\<lambda>f. f\<lparr>f_data := Encode_bytes l, f_synced := True\<rparr>) x))"
  using assms by (simp add: advance_def smooth_def Let_def goes_def put_def)

lemma run_renames:
  assumes "smooth (J i)" and "sv_pc x i = Closed l" and "sv_names x (job_tmp J i) = Some k"
  shows "save_run ed J [Advance i] x
    = Some ((goes i (Removing None) x)\<lparr>sv_names := ((sv_names x)(job_tmp J i := None))(job_path J i \<mapsto> k)\<rparr>)"
  using assms by (simp add: advance_def smooth_def Let_def)

lemma run_removes:
  assumes "smooth (J i)" and "sv_pc x i = Removing res"
  shows "save_run ed J [Advance i] x = Some ((goes i (Returned res) x)\<lparr>sv_names := (sv_names x)(job_tmp J i := None)\<rparr>)"
  using assms by (simp add: advance_Removing [OF assms(2)] smooth_def)

lemma run_appends: "save_run ed J [LogAppend c] s = Some (s\<lparr>sv_log := snd (Append_call ed c (sv_log s))\<rparr>)"
  by simp

text \<open>From the snapshot to the end.\<close>

lemma run_finishes:
  assumes "smooth (J i)" and "sv_pc x i = Snapshot l" and "sv_names x (job_tmp J i) = Some (New i)"
    and "f_mode (sv_data x (New i)) = mode_0600" and "job_path J i \<noteq> job_tmp J i"
  shows "\<exists>y. save_run ed J (replicate 5 (Advance i)) x = Some y \<and> sv_pc y = (sv_pc x)(i := Returned None) \<and> sv_log y = sv_log x
    \<and> sv_data y = (sv_data x)(New i := saved_file l)
    \<and> sv_names y = ((sv_names x)(job_tmp J i := None))(job_path J i \<mapsto> New i)"
proof -
  let ?c = "goes i (Closed l) (put i (\<lambda>f. f\<lparr>f_data := Encode_bytes l, f_synced := True\<rparr>) x)"
  let ?r = "(goes i (Removing None) ?c)\<lparr>sv_names := ((sv_names ?c)(job_tmp J i := None))(job_path J i \<mapsto> New i)\<rparr>"
  let ?z = "(goes i (Returned None) ?r)\<lparr>sv_names := (sv_names ?r)(job_tmp J i := None)\<rparr>"
  have five: "replicate 5 (Advance i) = [Advance i, Advance i, Advance i] @ [Advance i] @ [Advance i]"
    by (simp add: eval_nat_numeral)
  have renames: "save_run ed J [Advance i] ?c = Some ?r"
    by (rule run_renames [of J i ?c l, OF assms(1)]) (use assms(3) in simp_all)
  have removes: "save_run ed J [Advance i] ?r = Some ?z"
    by (rule run_removes [of J i ?r None, OF assms(1)]) simp
  have "save_run ed J (replicate 5 (Advance i)) x = Some ?z"
    by (simp only: five save_run_append run_closes [of J i x l, OF assms(1,2)] renames removes option.case)
  moreover have "(sv_data x (New i))\<lparr>f_data := Encode_bytes l, f_synced := True\<rparr> = saved_file l"
    using assms(4) by (simp add: saved_file_def)
  ultimately show ?thesis
    using assms(5) by (simp add: fun_upd_twist del: save_run.simps)
qed

text \<open>From the beginning to the snapshot.\<close>

lemma run_begins:
  assumes "smooth (J i)" and "sv_pc s i = Begun" and "sv_names s (job_tmp J i) = None"
  shows "\<exists>f. save_run ed J (replicate 3 (Advance i)) s = Some (with_temp i (job_tmp J i) f (Snapshot (sv_log s)) s)
    \<and> f_mode f = mode_0600"
proof -
  let ?o = "with_temp i (job_tmp J i) (temp_file (fst (J i))) Opened s"
  have three: "replicate 3 (Advance i) = [Advance i] @ [Advance i, Advance i]"
    by (simp add: eval_nat_numeral)
  have snapshots: "save_run ed J [Advance i, Advance i] ?o
      = Some (goes i (Snapshot (sv_log ?o)) (put i (\<lambda>f. f\<lparr>f_mode := mode_0600\<rparr>) ?o))"
    by (rule run_snapshots [of J i ?o, OF assms(1)]) (simp add: with_temp_sel)
  have "save_run ed J (replicate 3 (Advance i)) s
      = Some (goes i (Snapshot (sv_log ?o)) (put i (\<lambda>f. f\<lparr>f_mode := mode_0600\<rparr>) ?o))"
    by (simp only: three save_run_append run_creates [of J i s, OF assms] snapshots option.case)
  then show ?thesis
    by (auto simp: with_temp_sel simp del: save_run.simps)
qed

text \<open>C35. Overlapping calls can roll a file back: call \<open>i\<close> takes its snapshot, a record is
  appended, call \<open>j\<close> on the same path runs to the end and returns nil with the new record in
  the file; when call \<open>i\<close> finishes, also with nil, the file is the older snapshot and the record
  is gone from it.\<close>

theorem Save_overlap_rolls_back:
  assumes "at_rest s" and "separate J" and "smooth (J i)" and "smooth (J j)" and "i \<noteq> j" and "job_path J i = job_path J j"
    and "sv_names s (job_tmp J i) = None" and "sv_names s (job_tmp J j) = None"
    and "Append_call ed c (sv_log s) = (Return (Inr e), l')"
  shows "\<exists>s1 s2. save_run ed J (replicate 3 (Advance i) @ [LogAppend c] @ replicate 3 (Advance j) @ replicate 5 (Advance j)) s = Some s1
    \<and> sv_pc s1 j = Returned None \<and> fs_of s1 (job_path J j) = Some (saved_file l')
    \<and> save_run ed J (replicate 5 (Advance i)) s1 = Some s2
    \<and> sv_pc s2 i = Returned None \<and> fs_of s2 (job_path J j) = Some (saved_file (sv_log s))
    \<and> l_entries l' = l_entries (sv_log s) @ [e]"
proof -
  note sep = separateD [OF assms(2)]
  have begun: "sv_pc s i = Begun" "sv_pc s j = Begun"
    using assms(1) by (simp_all add: at_rest_def)
  obtain f where f: "save_run ed J (replicate 3 (Advance i)) s = Some (with_temp i (job_tmp J i) f (Snapshot (sv_log s)) s)"
    "f_mode f = mode_0600"
    using run_begins [of J i s ed, OF assms(3) begun(1) assms(7)] by blast
  define x where "x = (with_temp i (job_tmp J i) f (Snapshot (sv_log s)) s)\<lparr>sv_log := l'\<rparr>"
  have xj: "sv_pc x j = Begun" "sv_names x (job_tmp J j) = None"
    using assms(5,8) begun sep by (simp_all add: x_def with_temp_def)
  obtain g where g: "save_run ed J (replicate 3 (Advance j)) x = Some (with_temp j (job_tmp J j) g (Snapshot l') x)"
    "f_mode g = mode_0600"
    using run_begins [of J j x ed, OF assms(4) xj] by (auto simp: x_def)
  let ?y = "with_temp j (job_tmp J j) g (Snapshot l') x"
  obtain s1 where s1: "save_run ed J (replicate 5 (Advance j)) ?y = Some s1" "sv_pc s1 = (sv_pc ?y)(j := Returned None)"
    "sv_data s1 = (sv_data ?y)(New j := saved_file l')"
    "sv_names s1 = ((sv_names ?y)(job_tmp J j := None))(job_path J j \<mapsto> New j)"
    using run_finishes [of J j ?y l' ed, OF assms(4)] g(2) sep by (auto simp: with_temp_sel)
  have "sv_pc s1 i = Snapshot (sv_log s)" "sv_names s1 (job_tmp J i) = Some (New i)" "f_mode (sv_data s1 (New i)) = mode_0600"
    using assms(5,6) sep f(2) by (simp_all add: s1(2-4) x_def with_temp_def) metis+
  from run_finishes [of J i s1 "sv_log s" ed, OF assms(3) this sep(1)] obtain s2 where
    s2: "save_run ed J (replicate 5 (Advance i)) s1 = Some s2" "sv_pc s2 i = Returned None"
    "fs_of s2 (job_path J j) = Some (saved_file (sv_log s))"
    by (auto simp: fs_of_def assms(6))
  have "save_run ed J (replicate 3 (Advance i) @ [LogAppend c] @ replicate 3 (Advance j) @ replicate 5 (Advance j)) s = Some s1"
    by (simp only: save_run_append f(1) run_appends with_temp_sel assms(9) snd_conv g(1) s1(1) option.case flip: x_def)
  moreover have "l_entries l' = l_entries (sv_log s) @ [e]"
    using assms(9) by (cases c) (auto simp: Append_call_def elim!: Append_cases)
  ultimately show ?thesis
    using s1(2-4) s2 by (auto simp: fs_of_def)
qed

text \<open>C36. The deferred removal after a successful rename is no no-op once a temporary name is drawn
  twice. Call \<open>i\<close> has renamed its file and not yet run the removal; call \<open>j\<close> draws the free name
  again, the removal of \<open>i\<close> unlinks it, call \<open>k\<close> draws it a third time, and \<open>j\<close> renames the file
  of \<open>k\<close>, still empty, into place and returns nil: the path does not load although two calls
  have reported success.\<close>

theorem Save_reused_name:
  assumes "at_rest s" and "smooth (J i)" and "smooth (J j)" and "smooth (J k)" and "distinct [i, j, k]"
    and tmp: "job_tmp J i = t" "job_tmp J j = t" "job_tmp J k = t" and path: "job_path J i = p" "job_path J j = p"
    and "p \<noteq> t" and "sv_names s t = None"
  shows "\<exists>s'. save_run ed J (replicate 7 (Advance i) @ [Advance j] @ [Advance i] @ replicate 5 (Advance j) @ [Advance k]
        @ replicate 2 (Advance j)) s = Some s'
    \<and> sv_pc s' i = Returned None \<and> sv_pc s' j = Returned None
    \<and> fs_of s' p = Some \<lparr>f_mode = io_mode (fst (J k)), f_data = [], f_synced = False\<rparr>
    \<and> (\<exists>err. LoadLog ed tx None None (snd (J i)) (fs_of s') = Return (Inl err))"
proof -
  have ne: "i \<noteq> j" "i \<noteq> k" "j \<noteq> k" "j \<noteq> i" "k \<noteq> i" "k \<noteq> j"
    using assms(5) by auto
  have path': "filepath_Clean (snd (J i)) = p"
    using path by simp
  have *: "\<exists>s'. save_run ed J (replicate 7 (Advance i) @ [Advance j] @ [Advance i] @ replicate 5 (Advance j) @ [Advance k]
        @ replicate 2 (Advance j)) s = Some s'
    \<and> sv_pc s' i = Returned None \<and> sv_pc s' j = Returned None
    \<and> fs_of s' p = Some \<lparr>f_mode = io_mode (fst (J k)), f_data = [], f_synced = False\<rparr>"
    using assms(1-4,11,12) ne
    by (simp add: eval_nat_numeral smooth_def at_rest_def advance_def Let_def goes_def put_def tmp path fs_of_def)
  have "decode_logFile (string_of []) = None"
    by (simp add: decode_logFile_def json_decode_first_def string_of_def json_read.simps lex_token_def)
  with * path' show ?thesis
    by (fastforce simp: LoadLog_def ReadLog_def Let_def)
qed

section \<open>Concrete runs\<close>

definition sample_jobs :: "(nat \<Rightarrow> string) \<Rightarrow> save_jobs" where
  "sample_jobs path = (\<lambda>i. (sample_io\<lparr>io_random := replicate i (CHR ''7'')\<rparr>, path i))"

definition sample_saving :: saving where
  "sample_saving = \<lparr>sv_log = sample_log, sv_names = (\<lambda>_. None), sv_data = (\<lambda>_. saved_file sample_log), sv_pc = (\<lambda>_. Begun)\<rparr>"

abbreviation one_path :: "nat \<Rightarrow> string" where
  "one_path \<equiv> \<lambda>i. ''var/log.json''"

abbreviation two_paths :: "nat \<Rightarrow> string" where
  "two_paths \<equiv> \<lambda>i. if i = 0 then ''var/log.json'' else ''var/old.json''"

lemma sample_paths:
  "filepath_Clean ''var/log.json'' = ''var/log.json''" "filepath_Clean ''var/old.json'' = ''var/old.json''"
  "filepath_Dir ''var/log.json'' = ''var''" "filepath_Dir ''var/old.json'' = ''var''"
  by (simp_all add: filepath_Clean_def filepath_Dir_def clean_step_def)

lemma Clean_var:
  assumes "CHR ''/'' \<notin> set x" and "x \<noteq> []" "x \<noteq> ''.''" "x \<noteq> ''..''"
  shows "filepath_Clean (''var/'' @ x) = ''var/'' @ x"
  using assms by (simp add: filepath_Clean_def split_slash_plain clean_step_def)

lemma sample_job_tmp:
  assumes "path i \<in> {''var/log.json'', ''var/old.json''}"
  shows "job_tmp (sample_jobs path) i = ''var/.spt-translog-'' @ replicate i (CHR ''7'') @ ''.tmp''"
  using assms Clean_var [of "''.spt-translog-'' @ replicate i (CHR ''7'') @ ''.tmp''"] sample_paths
  by (auto simp: save_temp_def temp_name_def sample_jobs_def)

lemma sample_not_tmp: "\<not> tmp_named ''var/log.json''" "\<not> tmp_named ''var/old.json''"
  by (auto simp: tmp_named_def suffix_def append_eq_append_conv2 Cons_eq_append_conv)

lemma sample_separate: "separate (sample_jobs one_path)" "separate (sample_jobs two_paths)"
proof -
  have "separate (sample_jobs path)" if *: "\<And>i. path i \<in> {''var/log.json'', ''var/old.json''}" for path
  proof -
    have "job_path (sample_jobs path) i = path i" for i
      using * [of i] sample_paths by (auto simp: sample_jobs_def)
    moreover have "\<not> tmp_named (path i)" for i
      using * [of i] sample_not_tmp by auto
    ultimately show ?thesis
      unfolding separate_def sample_job_tmp [OF *] by (auto dest: arg_cong [where f = length])
  qed
  then show "separate (sample_jobs one_path)" "separate (sample_jobs two_paths)"
    by simp_all
qed

lemma sample_smooth: "smooth (sample_jobs one_path i)" "smooth (sample_jobs two_paths i)"
  using sample_paths by (simp_all add: smooth_def sample_jobs_def sample_io_def)

lemma sample_saving_rest: "at_rest sample_saving" "storable digest_scheme (sv_log sample_saving)"
  "sv_names sample_saving q = None" "sv_log sample_saving = sample_log" "sv_pc sample_saving i = Begun"
  using sample_log_verifies sample_log_wf sample_log_pub by (simp_all add: at_rest_def sample_saving_def storable_def)

text \<open>One whole call.\<close>

lemma run_whole:
  assumes "smooth (J i)" and "sv_pc s i = Begun" and "sv_names s (job_tmp J i) = None" and "job_path J i \<noteq> job_tmp J i"
  shows "\<exists>y. save_run ed J (replicate 3 (Advance i) @ replicate 5 (Advance i)) s = Some y
    \<and> sv_pc y i = Returned None \<and> sv_log y = sv_log s \<and> fs_of y (job_path J i) = Some (saved_file (sv_log s))"
proof -
  obtain f where f: "save_run ed J (replicate 3 (Advance i)) s = Some (with_temp i (job_tmp J i) f (Snapshot (sv_log s)) s)"
    "f_mode f = mode_0600"
    using run_begins [of J i s ed, OF assms(1-3)] by blast
  let ?x = "with_temp i (job_tmp J i) f (Snapshot (sv_log s)) s"
  from run_finishes [of J i ?x "sv_log s" ed, OF assms(1)] f(2) assms(4) obtain y where
    "save_run ed J (replicate 5 (Advance i)) ?x = Some y" "sv_pc y i = Returned None" "sv_log y = sv_log s"
    "fs_of y (job_path J i) = Some (saved_file (sv_log s))"
    by (auto simp: with_temp_sel fs_of_def)
  then show ?thesis
    using f(1) by (simp add: save_run_append del: save_run.simps)
qed

lemma sample_run:
  "\<exists>y. save_run digest_scheme (sample_jobs two_paths) (replicate 3 (Advance 0) @ replicate 5 (Advance 0)) sample_saving = Some y
    \<and> sv_pc y 0 = Returned None \<and> sv_log y = sample_log \<and> fs_of y ''var/log.json'' = Some (saved_file sample_log)"
  using run_whole [of "sample_jobs two_paths" 0 sample_saving digest_scheme, OF sample_smooth(2)] sample_saving_rest
    separateD(1) [OF sample_separate(2), of 0 0] sample_paths(1)
  by (simp add: sample_jobs_def del: save_run.simps)

lemma sample_small: "Log_Len sample_log \<le> 100000" "binding_widths (replicate n (Advance i))"
  by (simp_all add: Log_Len_def sample_log_entries binding_widths_def)

theorem saved_file_always_loads_witness:
  "\<exists>s l. save_run digest_scheme (sample_jobs two_paths) (replicate 3 (Advance 0) @ replicate 5 (Advance 0)) sample_saving = Some s
     \<and> LoadLog digest_scheme sample_text None None ''var/log.json'' (fs_of s) = Return (Inr l)
     \<and> prefix (l_entries l) (l_entries sample_log)"
proof -
  obtain s where s: "save_run digest_scheme (sample_jobs two_paths) (replicate 3 (Advance 0) @ replicate 5 (Advance 0)) sample_saving
      = Some s" "sv_log s = sample_log" "fs_of s ''var/log.json'' = Some (saved_file sample_log)"
    using sample_run by blast
  note apart = separate_apart [OF sample_separate(2)]
  have "off_temps (sample_jobs two_paths) (filepath_Clean ''var/log.json'')"
    using targets_off_tempsD [OF apart(1), of 0] by (simp add: off_temps_def sample_jobs_def)
  moreover have "fs_of sample_saving ''var/log.json'' = None"
    by (simp add: fs_of_def sample_saving_def)
  ultimately obtain l where l: "l_pub l = l_pub sample_log" "prefix (l_entries l) (l_entries sample_log)"
    "if Log_Len l \<le> 100000 then LoadLog digest_scheme sample_text None None ''var/log.json'' (fs_of s) = Return (Inr l)
     else \<exists>err. LoadLog digest_scheme sample_text None None ''var/log.json'' (fs_of s) = Return (Inl err)"
    using saved_file_always_loads [OF sample_saving_rest(1) apart(1) s(1) apart(2) sample_saving_rest(2), of "''var/log.json''" sample_text]
      s(2,3) sample_small(2) sample_paths(1)
    by (auto simp: binding_widths_def)
  moreover have "Log_Len l \<le> 100000"
    using prefix_length_le [OF l(2)] sample_small(1) by (simp add: Log_Len_def)
  ultimately show ?thesis
    using s(1) by auto
qed

theorem Save_durable_witness:
  "\<exists>s l. save_run digest_scheme (sample_jobs two_paths) (replicate 3 (Advance 0) @ replicate 5 (Advance 0)) sample_saving = Some s
     \<and> fs_of s ''var/log.json'' = Some (saved_file l) \<and> prefix (l_entries sample_log) (l_entries l)"
proof -
  obtain s where s: "save_run digest_scheme (sample_jobs two_paths) (replicate 3 (Advance 0) @ replicate 5 (Advance 0)) sample_saving
      = Some s" "sv_log s = sample_log" "sv_pc s 0 = Returned None"
    using sample_run by blast
  note apart = separate_apart [OF sample_separate(2)]
  have "job_path (sample_jobs two_paths) j \<noteq> job_path (sample_jobs two_paths) 0" if "j \<noteq> 0" for j
    using that sample_paths by (simp add: sample_jobs_def)
  from Save_durable [where ?as1.0 = "[]" and tx = sample_text,
      OF sample_saving_rest(1) apart(1) _ s(1) apart(2) apart(2) sample_saving_rest(2) _ _ s(3) this]
    s sample_small sample_saving_rest(4,5) sample_paths(1) show ?thesis
    by (auto simp: binding_widths_def sample_jobs_def)
qed

lemma sample_append:
  "\<exists>e l'. Append_call digest_scheme (replicate 64 7, 0, replicate 32 0x22, 1700000060) (sv_log sample_saving) = (Return (Inr e), l')"
  using Append_contract [of digest_scheme "replicate 64 7" sample_log] digest_scheme_contract [of "replicate 64 7"]
  by (simp add: Append_call_def sample_saving_rest(4) sample_log_pub) (metis prod.collapse)

theorem Save_overlap_rolls_back_witness:
  "\<exists>s1 s2 l' e. fs_of s1 ''var/log.json'' = Some (saved_file l') \<and> l_entries l' = l_entries sample_log @ [e]
     \<and> save_run digest_scheme (sample_jobs one_path) (replicate 5 (Advance 0)) s1 = Some s2
     \<and> fs_of s2 ''var/log.json'' = Some (saved_file sample_log)"
proof -
  obtain e l' where app: "Append_call digest_scheme (replicate 64 7, 0, replicate 32 0x22, 1700000060) (sv_log sample_saving)
      = (Return (Inr e), l')"
    using sample_append by blast
  have same: "job_path (sample_jobs one_path) i = ''var/log.json''" for i
    using sample_paths by (simp add: sample_jobs_def)
  from Save_overlap_rolls_back [OF sample_saving_rest(1) sample_separate(1) sample_smooth(1) sample_smooth(1), of 0 1, OF _ _ _ _ app] show ?thesis
    by (auto simp: same sample_saving_rest simp del: save_run.simps)
qed

theorem Save_reused_name_witness:
  "\<exists>s'. sv_pc s' 0 = Returned None \<and> sv_pc s' 1 = Returned None
     \<and> fs_of s' ''var/log.json'' = Some \<lparr>f_mode = mode_0600, f_data = [], f_synced = False\<rparr>"
proof -
  define J :: save_jobs where "J = (\<lambda>_. (sample_io, ''var/log.json''))"
  have J: "smooth (J i)" "job_tmp J i = ''var/.spt-translog-42.tmp''" "job_path J i = ''var/log.json''" for i
    using sample_paths by (simp_all add: J_def smooth_def sample_temp) (simp_all add: sample_io_def)
  from Save_reused_name [where J = J and i = 0 and j = 1 and k = 2 and ed = digest_scheme and tx = sample_text,
      OF sample_saving_rest(1) J(1) J(1) J(1) _ J(2) J(2) J(2) J(3) J(3)]
  show ?thesis
    by (auto simp: sample_saving_rest(3) J_def sample_io_def simp del: save_run.simps)
qed

end
