(* ===== verification/Spec2Isabelle.thy ===== *)
theory Spec2Isabelle
  imports Ledger Auditing SingleUse Mutexes MerkleLevels KnownAnswers Saving
begin

text \<open>
  A verification development for the SPT-Txn policy enforcement point: an x402
  authorization gate, its tamper-evident transparency log, the HTTP and MCP front ends
  that enforce it, and the log's file format.

  \<^bold>\<open>The program.\<close> A request presents a single-use token and is measured against the
  payment its resource demands. \<open>gate.Evaluate\<close> binds payment and nonce into a digest,
  checks the token's expiry, asks a policy and spends the nonce. \<open>gateway.PEP.Wrap\<close> turns
  the decision into an HTTP answer: an allowed request is forwarded only after a receipt
  (\<open>evidence.Emitter\<close>) and then an entry of the hash-chained, signed log
  (\<open>translog.Log.Append\<close>) are recorded; denials are recorded best-effort.
  \<open>mcpgate.Enforcer.Authorize\<close> does the same for tool calls.
  \<open>gateway.Transparency\<close> serves Merkle roots and inclusion proofs of the log, and
  \<open>translog/store.go\<close> writes the log to a file and reads it back, verifying everything.

  \<^bold>\<open>Theories.\<close>
  \<^item> \<open>Prelude\<close>: bytes, strings, fixed-width integers, Go errors and panics, instants with
    their wrap-around, digit expansions, sequencing of calls that may panic, and runs of
    atomic calls (\<open>run_seq\<close>).
  \<^item> \<open>Sha256\<close>: SHA-256 (FIPS 180-4), executable; \<open>collision a b\<close> names two different
    inputs with one digest. Nothing is assumed of the hash: statements that rest on
    collision resistance conclude that a named pair of inputs collides.
  \<^item> \<open>GoNum\<close>, \<open>Encoding\<close>, \<open>Json\<close>, \<open>JsonRoundtrip\<close>, \<open>JsonStruct\<close>, \<open>Http\<close>: what the source
    uses of \<open>math/big\<close>, \<open>strconv\<close>, \<open>encoding/hex\<close>, \<open>encoding/base64\<close>, \<open>encoding/json\<close>
    (scanner with its nesting limit, printer, struct decoding with case folding, null,
    duplicates and unknown fields) and \<open>net/http\<close>, with the round trips the components need.
  \<^item> \<open>Base58\<close> (\<open>gate/base58.go\<close>), \<open>Binding\<close> (\<open>gate/binding.go\<close>), \<open>Gate\<close>
    (\<open>gate/gate.go\<close>, \<open>gate/mem_spendlog.go\<close>): address decoding is exactly the inverse of
    encoding; amounts are exact on the u128 range; a binding exists exactly for bindable
    payments and pins payment and nonce; ALLOW and DENY_UNAVAILABLE are characterised;
    no nonce is allowed twice (locales \<open>spend_store\<close>, \<open>gate_env\<close>, interpreted on
    \<open>MemSpendLog\<close>).
  \<^item> \<open>LogRecord\<close> (\<open>translog/record.go\<close>), \<open>Merkle\<close> (\<open>translog/merkle.go\<close>), \<open>TransLog\<close>
    (\<open>translog/log.go\<close>): the record layout is injective; proofs that are generated verify,
    proofs that verify are the generated ones; the root binds the leaves; a log built by
    \<open>Append\<close> always verifies and only grows (locale \<open>append_log\<close>); verified logs with the same
    head agree. \<open>MerkleLevels\<close>: the recursive root equals a level-by-level computation.
  \<^item> \<open>KnownAnswers\<close>: the published test vectors of the binding, the record hash and an address,
    evaluated on the model.
  \<^item> \<open>Evidence\<close> (\<open>evidence/evidence.go\<close>), \<open>PepToken\<close> and \<open>Pep\<close> (\<open>gateway/pep.go\<close>),
    \<open>PepSafety\<close>: token header round trip and its edge cases; served requests have their
    evidence in order; ALLOW entries are exactly the served requests; every request is
    answered; nonces are served once (locales \<open>pep_parts\<close> and, extending it and \<open>gate_env\<close>,
    \<open>pep_env\<close>, interpreted on a PEP with the in-memory spend log).
  \<^item> \<open>McpGate\<close> (\<open>mcpgate/mcpgate.go\<close>): allowed tool calls are within the approved
    capability, recorded, and allowed once (locale \<open>mcp_env\<close>).
  \<^item> \<open>Interleaving\<close>: concurrent HTTP requests and tool calls on one spend log and one
    transparency log, as a step relation between the calls that take a mutex; no nonce is
    granted twice, the log verifies and counts what was granted, by rule induction; requests
    that end early because a supplied function panics (\<open>panics\<close>) included.
  \<^item> \<open>Mutexes\<close>: why a call of a locking method may be one step. \<open>Lock\<close>, every access of the
    guarded state and \<open>Unlock\<close> of \<open>Spend\<close>, \<open>Append\<close>, \<open>Len\<close>, \<open>At\<close>, \<open>Root\<close>, \<open>Proof\<close>, \<open>Verify\<close>
    and \<open>Encode\<close> as steps of any number of goroutines: every schedule is explained by one order
    of atomic calls that respects real time, and none stops before all calls have returned.
  \<^item> \<open>Progress\<close>: executions of the step relation of \<open>Interleaving\<close>; an arrived request always
    has a step of its own and under weak fairness it finishes after at most five.
  \<^item> \<open>SingleUse\<close>: the same runs as an auditor of the chain sees them. The ALLOW entries stand
    for grants of pairwise different nonces, so that their bindings differ too, up to a
    collision of hash inputs presented in the run.
  \<^item> \<open>Sequential\<close>: the step relation covers the code. A call of \<open>Wrap\<close> or \<open>Authorize\<close> is a run
    of one request's steps under the abstraction \<open>shared_of\<close>, and a sequence of calls
    (\<open>gateway_call\<close>) is one interleaving.
  \<^item> \<open>Transports\<close>: the two enforcement points side by side. On the same parts they decide the
    same payment and token alike and leave the same chain; a call makes at most one append,
    so that soundness, widths and growth of the logs are kept by any mix of calls.
  \<^item> \<open>Ledger\<close>: an abstract service with a set of spent nonces and a book of decisions; every
    call of the gateway implements one decision of it (simulation under \<open>ledger_of\<close>).
  \<^item> \<open>TransparencyService\<close> (\<open>gateway/transparency.go\<close>): what the endpoints answer when no
    append falls between their critical reads, when one does, and that 500 is unreachable.
  \<^item> \<open>Auditing\<close>: the service beside concurrent requests and tool calls; its reads fall on
    moments of an execution of \<open>Interleaving\<close>, and every answer is one the log can stand by.
  \<^item> \<open>Store\<close> and \<open>StoreFile\<close> (\<open>translog/store.go\<close>): reading returns only verified logs,
    is the inverse of writing, the file stays below the size limit, the root pins the
    records, saving is atomic under every failing system call; the key in a file is taken as
    it is.
  \<^item> \<open>Saving\<close>: several \<open>Save\<close> calls and \<open>Append\<close> calls interleaved at the grain of system calls,
    on names and inodes, stopped anywhere. As long as no call draws the
    temporary name of one that is still running, target paths are never torn and a nil means
    durable; they load up to the cap of 100000 entries, which \<open>Save\<close> does not check. One call
    alone is \<open>Save\<close>; and two runs of what the code does not exclude.
  \<^item> this theory: properties that span the gateway, the log, the transparency service and
    the file format.

  \<^bold>\<open>State and calls.\<close> Go structs are records with the source's field names behind a short
  prefix, enums are datatypes, \<open>[32]byte\<close> is a byte list whose length is a
  well-formedness fact. A pointer to a log is an address into a store of logs
  (\<open>gw_logs\<close>), so that the PEP, the enforcer and the transparency service can share one.
  Interfaces and functions that a caller supplies (policy, spend log, emitter,
  requirements, clock, alarm sink, protected handler) are functions on an abstract world
  \<open>'w\<close>, arbitrary unless a statement restricts them; nil is \<open>None\<close> and panics where the code
  would. The protected handler is a function on that world, so it does not call back
  into the log. Each method of \<open>Log\<close> and \<open>MemSpendLog\<close> holds its mutex throughout and is one
  atomic step, which \<open>Mutexes\<close> justifies. The trace \<open>gw_trace\<close> records receipts, appends, alarms and forwarding in
  program order for the statements; the code does not read it.

  \<^bold>\<open>Parameters.\<close> \<open>crypto/ed25519\<close> is a pair of functions; a statement that needs more than
  its documented panics and length checks says so with \<open>ed25519_contract\<close>, which
  \<open>digest_scheme\<close> satisfies. The rendering of \<open>%q\<close> and the message of a JSON error are
  parameters (\<open>go_text\<close>) and occur in error texts only. The file system is a map from clean
  paths to files with an oracle for the failure of each call; in \<open>Saving\<close> names refer to inodes
  and \<open>os.CreateTemp\<close> draws a name that is not in use.

  \<^bold>\<open>Bounds.\<close> No loop of the code uses fuel; the nine states of \<open>solo\<close> in \<open>Saving\<close> are those of
  a whole \<open>Save\<close>, as \<open>Save_is_solo\<close> shows. \<open>largestPow2Below\<close> is a \<open>partial_function\<close>: it returns for
  every size up to \<open>2 ^ 62\<close> and diverges above, so statements about verification of
  proofs carry that bound, which every slice in memory meets. JSON nesting is limited to
  10000 as in the library; a file to 100000 entries and 64 MiB as in the code.

  \<^bold>\<open>Not modelled.\<close> The tests and the Python reference scripts as programs (their vectors are
  replayed in \<open>KnownAnswers\<close>); the bytes of the redirects
  and 404 pages the request multiplexer writes by itself; panics inside functions that
  the caller supplies, as a value of \<open>Wrap\<close> and \<open>Authorize\<close> (as an end of a concurrent request
  they are part of \<open>Interleaving\<close>); the durability of a directory entry after a rename.
\<close>

section \<open>Properties across components\<close>

text \<open>C10. Evidence that survives, up to the cap of the reader: start the two enforcement points
  on a fresh log with a 32-byte key and let any HTTP requests and tool calls run through them.
  The log passes \<open>Verify\<close>, whatever policy, spend log, emitter, clock and signature scheme are
  configured; from the bytes \<open>Encode\<close> writes of it \<open>ReadLog\<close> returns it unchanged if it has at
  most 100000 entries, and an error if it has more.\<close>

theorem gateway_log_survives:
  assumes "length pub = 32" and "l = gw_logs (snd (run_seq (gateway_call ed host p nxt e) cs
      \<lparr>gw_world = w, gw_logs = (\<lambda>_. NewLog pub), gw_trace = []\<rparr>)) a"
  shows "Log_Verify ed l = Return None
    \<and> (if Log_Len l \<le> 100000 then ReadLog ed tx (Encode_bytes l, None) = Return (Inr l)
       else \<exists>err. ReadLog ed tx (Encode_bytes l, None) = Return (Inl err))"
proof -
  have inv: "sound_entries ed (l_pub l) (l_entries l) \<and> wf_entries (l_entries l) \<and> l_pub l = pub"
    using gateway_calls_sound [OF _ _ refl, where s = "\<lparr>gw_world = w, gw_logs = (\<lambda>_. NewLog pub), gw_trace = []\<rparr>" and a = a
        and ed = ed and host = host and p = p and nxt = nxt and e = e and cs = cs]
    by (auto simp: assms(2))
  then have ver: "Log_Verify ed l = Return None"
    by (auto simp: Log_Verify_iff)
  moreover have "if Log_Len l \<le> 100000 then ReadLog ed tx (Encode_bytes l, None) = Return (Inr l)
       else \<exists>err. ReadLog ed tx (Encode_bytes l, None) = Return (Inl err)"
    by (rule ReadLog_Encode_cap [OF ver]) (use inv assms(1) in auto)
  ultimately show ?thesis
    by blast
qed

theorem gateway_log_survives_witness:
  "\<exists>l. l = gw_logs (snd (run_seq (gateway_call digest_scheme sample_host sample_pep sample_handler sample_enforcer)
        [HttpCall sample_request, McpCall sample_call] sample_state)) 0
     \<and> ReadLog digest_scheme sample_text (Encode_bytes l, None) = Return (Inr l)"
proof -
  define l where l: "l = gw_logs (snd (run_seq (gateway_call digest_scheme sample_host sample_pep sample_handler sample_enforcer)
        [HttpCall sample_request, McpCall sample_call] sample_state)) 0"
  have "Log_Len l \<le> 100000"
    using gateway_calls_count [of digest_scheme sample_host sample_pep sample_handler sample_enforcer
        "[HttpCall sample_request, McpCall sample_call]" sample_state 0]
    by (simp add: l Log_Len_def del: run_seq.simps)
  then have "ReadLog digest_scheme sample_text (Encode_bytes l, None) = Return (Inr l)"
    using gateway_log_survives [OF _ l [unfolded sample_state_def], of sample_text] by (simp del: run_seq.simps)
  with l show ?thesis
    by blast
qed

text \<open>C9. A served request can be proved to an auditor: if a request was forwarded, then after
  any further HTTP requests and tool calls the transparency service, asked for the index
  the log had at that moment, answers with an ALLOW record whose binding is the one
  the gate computed, its audit path, and \<open>verified: true\<close>.\<close>

theorem served_request_is_provable:
  assumes "Wrap ed host p nxt r rs0 s = (res, s1)"
    and "EvServe q \<in> set (drop (length (gw_trace s)) (gw_trace s1))"
    and "p_Log p = Some a" and "l = gw_logs (snd (run_seq (gateway_call ed host p nxt en) cs s1)) a"
    and "Log_Len l \<le> 2 ^ 62" and "rq_Path ask = entry_prefix @ show_int (int (Log_Len (gw_logs s a)))"
  shows "\<exists>rec path. r_Decision rec = tl_Allow
    \<and> (\<exists>tok d s2. Wrap_decide host p tok r s = (Return d, s2) \<and> r_Binding rec = d_Binding d)
    \<and> entry_handler \<lparr>t_Log = Some a\<rparr> (\<lambda>_ _. l) ask rs' = Some (Return (writeJSON (proofResp_json
        \<lparr>prf_Seq = int (Log_Len (gw_logs s a)), prf_Size = int (Log_Len l), prf_Root = hex_EncodeToString (Log_Root l),
         prf_Leaf = hex_EncodeToString (CanonicalBytes rec), prf_Proof = map hex_EncodeToString path,
         prf_Verified = True\<rparr>) rs'))"
  using assms(1)
proof (cases rule: Wrap_cases)
  case (unserved new)
  with assms(2) have False
    by (auto simp: only_evidence_def)
  then show ?thesis ..
next
  case (served tok d s2 loc a' t e l1 w rsp)
  let ?m = "Log_Len (gw_logs s a)"
  have e: "l_entries (gw_logs s1 a) = l_entries (gw_logs s a) @ [e]"
    "e_Record e = next_record tl_Allow (d_Binding d) t (l_entries (gw_logs s a))"
    using served(4-6) assms(3) by (auto elim!: Append_cases)
  obtain new where "l_entries l = l_entries (gw_logs s1 a) @ new"
    using gateway_calls_grow [of ed host p nxt en cs s1 a] assms(4) by blast
  then have m: "?m < Log_Len l" "l_entries l ! ?m = e"
    using e(1) by (simp_all add: Log_Len_def)
  moreover have "?m < 2 ^ 63"
    using m(1) assms(5) by simp
  ultimately have "entry_handler \<lparr>t_Log = Some a\<rparr> (\<lambda>_ _. l) ask rs' = Some (Return (writeJSON (proofResp_json
        \<lparr>prf_Seq = int ?m, prf_Size = int (Log_Len l), prf_Root = hex_EncodeToString (Log_Root l),
         prf_Leaf = hex_EncodeToString (CanonicalBytes (e_Record e)),
         prf_Proof = map hex_EncodeToString (auditPath ?m (canonicalLeaves l)), prf_Verified = True\<rparr>) rs'))"
    using entry_handler_ok [of "\<lparr>t_Log = Some a\<rparr>" a ask ?m "\<lambda>_ _. l" rs'] Log_proof_verifies [of ?m l] assms(5,6)
    by simp
  moreover have "r_Decision (e_Record e) = tl_Allow" "r_Binding (e_Record e) = d_Binding d"
    by (simp_all add: e(2) next_record_def)
  ultimately show ?thesis
    using served(2) by blast
qed

theorem served_request_is_provable_witness:
  "\<exists>rec path l. r_Decision rec = tl_Allow
    \<and> entry_handler \<lparr>t_Log = Some 0\<rparr> (\<lambda>_ _. l) \<lparr>rq_Header = (\<lambda>_. []), rq_Path = entry_prefix @ show_int 0\<rparr> fresh_Response
      = Some (Return (writeJSON (proofResp_json
        \<lparr>prf_Seq = 0, prf_Size = int (Log_Len l), prf_Root = hex_EncodeToString (Log_Root l),
         prf_Leaf = hex_EncodeToString (CanonicalBytes rec), prf_Proof = map hex_EncodeToString path,
         prf_Verified = True\<rparr>) fresh_Response))"
proof -
  obtain res s1 where run: "Wrap digest_scheme sample_host sample_pep sample_handler sample_request fresh_Response
      sample_state = (res, s1)" and ev: "EvServe sample_request \<in> set (drop (length (gw_trace sample_state)) (gw_trace s1))"
    using sample_served by fastforce
  define l where l: "l = gw_logs (snd (run_seq (gateway_call digest_scheme sample_host sample_pep sample_handler sample_enforcer)
        [McpCall sample_call] s1)) 0"
  have "Log_Len (gw_logs s1 0) \<le> 1"
    using run by (cases rule: Wrap_cases) (auto simp: logs_step_def Log_Len_def elim!: Append_cases)
  then have "Log_Len l \<le> 2 ^ 62"
    using gateway_calls_count [of digest_scheme sample_host sample_pep sample_handler sample_enforcer
        "[McpCall sample_call]" s1 0]
    by (simp add: l del: run_seq.simps)
  with served_request_is_provable [OF run ev sample_pep_sel(4) l,
      of "\<lparr>rq_Header = (\<lambda>_. []), rq_Path = entry_prefix @ show_int 0\<rparr>" fresh_Response] show ?thesis
    by (auto simp: Log_Len_def)
qed

end
